(* ===== verification/Prelude.thy ===== *)
theory Prelude
  imports "HOL-Library.Word" "HOL-Library.State_Monad"
begin

text \<open>
  Shared material of the development: the names of the machine types, lists of bytes read and
  written by range (\<open>bslice\<close> and \<open>patch\<close>, the two views every block device of the model is accessed
  through), and a small Hoare logic over the state monad in which the sequential components are
  written.  The collection \<open>slice_simps\<close> holds the algebra of ranges, \<open>hoare_intros\<close> the rules that
  take a triple apart along a do-block.
\<close>

unbundle bit_operations_syntax

named_theorems slice_simps \<open>algebra of byte ranges\<close>
named_theorems hoare_intros \<open>rules that decompose Hoare triples\<close>

subsection \<open>Machine types\<close>

type_synonym u8 = "8 word"
type_synonym u16 = "16 word"
type_synonym u32 = "32 word"
type_synonym u64 = "64 word"
type_synonym bytes = "u8 list"

text \<open>The error numbers the programs and the file system use.\<close>

datatype errno = EINVAL | ENOTBLK | EIO | EINTR | ENODEV | EROFS | EBUSY | ENOMEM | ENOENT | ENOTDIR
  | EOVERFLOW | ENAMETOOLONG | EEXIST | EBADF | ENOSPC | EACCES | ENOTTY | EPERM | ENXIO | ETIMEDOUT
  | EOPNOTSUPP | ENOSYS | EFBIG | EFAULT | EISDIR | ENOTEMPTY | ESTALE | ENOTSUP

abbreviation ret :: "'a \<Rightarrow> ('s, 'a) state" where
  "ret \<equiv> State_Monad.return"

subsection \<open>Ranges of a byte list\<close>

definition bslice :: "nat \<Rightarrow> nat \<Rightarrow> 'a list \<Rightarrow> 'a list" where
  "bslice off n xs = take n (drop off xs)"

definition patch :: "nat \<Rightarrow> 'a list \<Rightarrow> 'a list \<Rightarrow> 'a list" where
  "patch off ys xs = take off xs @ ys @ drop (off + length ys) xs"

lemma length_slice [simp]: "length (bslice off n xs) = min n (length xs - off)"
  by (simp add: bslice_def)

lemma slice_all [simp]: "bslice 0 (length xs) xs = xs"
  by (simp add: bslice_def)

lemma slice_0 [simp]: "bslice off 0 xs = []"
  by (simp add: bslice_def)

lemma slice_Nil [simp]: "bslice off n [] = []"
  by (simp add: bslice_def)

lemma slice_nth [simp]: "i < n \<Longrightarrow> off + i < length xs \<Longrightarrow> bslice off n xs ! i = xs ! (off + i)"
  by (simp add: bslice_def)

lemma slice_slice [slice_simps]:
  "a + n \<le> m \<Longrightarrow> bslice a n (bslice b m xs) = bslice (b + a) n xs"
  by (rule nth_equalityI) (auto simp: bslice_def add.assoc)

lemma slice_append_slice [slice_simps]:
  "bslice off m xs @ bslice (off + m) n xs = bslice off (m + n) xs"
  by (simp add: bslice_def take_add add.commute)

lemma length_patch [simp]:
  "off + length ys \<le> length xs \<Longrightarrow> length (patch off ys xs) = length xs"
  by (simp add: patch_def)

lemma patch_Nil [simp]: "patch off [] xs = xs"
  by (simp add: patch_def)

lemma slice_patch_same [slice_simps]:
  "off + length ys \<le> length xs \<Longrightarrow> n = length ys \<Longrightarrow> bslice off n (patch off ys xs) = ys"
  by (simp add: bslice_def patch_def)

lemma slice_patch_before [slice_simps]:
  "a + n \<le> off \<Longrightarrow> off \<le> length xs \<Longrightarrow> bslice a n (patch off ys xs) = bslice a n xs"
  by (rule nth_equalityI) (auto simp: patch_def bslice_def nth_append)

lemma slice_patch_after [slice_simps]:
  assumes "off + length ys \<le> a" and "off + length ys \<le> length xs"
  shows "bslice a n (patch off ys xs) = bslice a n xs"
proof -
  from assms obtain k where a: "a = off + length ys + k"
    using le_Suc_ex by blast
  have "drop a (patch off ys xs) = drop k (drop (off + length ys) xs)"
    using assms by (simp add: patch_def a)
  then show ?thesis
    by (simp add: bslice_def a add.commute)
qed

lemma slice_patch_inside [slice_simps]:
  "off \<le> a \<Longrightarrow> a + n \<le> off + length ys \<Longrightarrow> off \<le> length xs \<Longrightarrow>
     bslice a n (patch off ys xs) = bslice (a - off) n ys"
  by (simp add: bslice_def patch_def)

lemma patch_patch_adjacent [slice_simps]:
  "off + length ys \<le> length xs \<Longrightarrow> b = off + length ys \<Longrightarrow>
     patch b zs (patch off ys xs) = patch off (ys @ zs) xs"
  by (simp add: patch_def add.commute add.left_commute)

lemma patch_slice_id [slice_simps]:
  "off + n \<le> length xs \<Longrightarrow> patch off (bslice off n xs) xs = xs"
  by (simp add: patch_def bslice_def) (metis add.commute append_take_drop_id drop_drop)

lemma slice_patch_wrap:
  assumes "base + n \<le> length xs" and "off + length ys \<le> n"
  shows "bslice base n (patch (base + off) ys xs) = patch off ys (bslice base n xs)"
proof (rule nth_equalityI)
  show "length (bslice base n (patch (base + off) ys xs)) = length (patch off ys (bslice base n xs))"
    using assms by simp
next
  fix i
  assume "i < length (bslice base n (patch (base + off) ys xs))"
  with assms have i: "i < n" by simp
  with assms show "bslice base n (patch (base + off) ys xs) ! i = patch off ys (bslice base n xs) ! i"
    by (auto simp: patch_def nth_append min_def)
qed

subsection \<open>A Hoare logic for the state monad\<close>

text \<open>
  \<open>hoare P m Q\<close>: from a state in \<open>P\<close>, running \<open>m\<close> gives a result and a state in \<open>Q\<close>.  Every
  computation of the monad returns, so a triple is total.
\<close>

definition hoare :: "('s \<Rightarrow> bool) \<Rightarrow> ('s, 'a) state \<Rightarrow> ('a \<Rightarrow> 's \<Rightarrow> bool) \<Rightarrow> bool" where
  "hoare P m Q \<longleftrightarrow> (\<forall>s. P s \<longrightarrow> (case run_state m s of (r, s') \<Rightarrow> Q r s'))"

lemma hoareI:
  "(\<And>s r s'. P s \<Longrightarrow> run_state m s = (r, s') \<Longrightarrow> Q r s') \<Longrightarrow> hoare P m Q"
  by (auto simp: hoare_def)

lemma hoareD:
  "hoare P m Q \<Longrightarrow> run_state m s = (r, s') \<Longrightarrow> P s \<Longrightarrow> Q r s'"
  by (auto simp: hoare_def)

lemma hoare_return [hoare_intros]: "hoare (Q x) (ret x) Q"
  by (simp add: hoare_def)

lemma hoare_bind:
  assumes "hoare P m R" and "\<And>x. hoare (R x) (f x) Q"
  shows "hoare P (State_Monad.bind m f) Q"
  using assms by (fastforce simp: hoare_def split: prod.splits)

lemma hoare_weaken:
  assumes "hoare P' m Q'" and "\<And>s. P s \<Longrightarrow> P' s" and "\<And>r s. Q' r s \<Longrightarrow> Q r s"
  shows "hoare P m Q"
  using assms by (fastforce simp: hoare_def split: prod.splits)

lemma hoare_pre: "hoare P' m Q \<Longrightarrow> (\<And>s. P s \<Longrightarrow> P' s) \<Longrightarrow> hoare P m Q"
  by (rule hoare_weaken)

lemma hoare_post: "hoare P m Q' \<Longrightarrow> (\<And>r s. Q' r s \<Longrightarrow> Q r s) \<Longrightarrow> hoare P m Q"
  by (rule hoare_weaken)

lemma hoare_if [hoare_intros]:
  "(b \<Longrightarrow> hoare P m Q) \<Longrightarrow> (\<not> b \<Longrightarrow> hoare P n Q) \<Longrightarrow> hoare P (if b then m else n) Q"
  by simp

lemma hoare_sum [hoare_intros]:
  "(\<And>e. x = Inl e \<Longrightarrow> hoare P (f e) Q) \<Longrightarrow> (\<And>y. x = Inr y \<Longrightarrow> hoare P (g y) Q) \<Longrightarrow>
     hoare P (case x of Inl e \<Rightarrow> f e | Inr y \<Rightarrow> g y) Q"
  by (cases x) auto

lemma hoare_conj:
  "hoare P m Q \<Longrightarrow> hoare P m R \<Longrightarrow> hoare P m (\<lambda>r s. Q r s \<and> R r s)"
  by (fastforce simp: hoare_def split: prod.splits)

subsection \<open>Invariants of a computation\<close>

definition pres :: "('s \<Rightarrow> bool) \<Rightarrow> ('s, 'a) state \<Rightarrow> bool" where
  "pres P m \<longleftrightarrow> hoare P m (\<lambda>_. P)"

lemma presI: "(\<And>s r s'. P s \<Longrightarrow> run_state m s = (r, s') \<Longrightarrow> P s') \<Longrightarrow> pres P m"
  unfolding pres_def by (rule hoareI)

lemma presD: "pres P m \<Longrightarrow> run_state m s = (r, s') \<Longrightarrow> P s \<Longrightarrow> P s'"
  unfolding pres_def by (rule hoareD)

lemma pres_ret: "pres P (ret x)"
  by (rule presI) simp

lemma pres_bind: "pres P m \<Longrightarrow> (\<And>x. pres P (f x)) \<Longrightarrow> pres P (State_Monad.bind m f)"
  unfolding pres_def by (rule hoare_bind)

lemma pres_if: "(b \<Longrightarrow> pres P m) \<Longrightarrow> (\<not> b \<Longrightarrow> pres P n) \<Longrightarrow> pres P (if b then m else n)"
  by simp

lemma pres_sum:
  "(\<And>e. pres P (f e)) \<Longrightarrow> (\<And>y. pres P (g y)) \<Longrightarrow> pres P (case x of Inl e \<Rightarrow> f e | Inr y \<Rightarrow> g y)"
  by (cases x) auto

lemma pres_option:
  "pres P m \<Longrightarrow> (\<And>y. pres P (g y)) \<Longrightarrow> pres P (case x of None \<Rightarrow> m | Some y \<Rightarrow> g y)"
  by (cases x) auto

lemma pres_prod: "(\<And>a b. pres P (f a b)) \<Longrightarrow> pres P (case p of (a, b) \<Rightarrow> f a b)"
  by (cases p) auto

lemmas pres_intros = pres_ret pres_bind pres_if pres_sum pres_option pres_prod

subsection \<open>Relations kept by a computation\<close>

text \<open>
  Frame conditions relate the state before a call to the state after it.  A relation that is
  reflexive and transitive composes along a do-block; the client lemmas are proved once, in the
  locale, for every such relation.
\<close>

definition keeps :: "('s \<Rightarrow> 's \<Rightarrow> bool) \<Rightarrow> ('s, 'a) state \<Rightarrow> bool" where
  "keeps R m \<longleftrightarrow> (\<forall>s. R s (snd (run_state m s)))"

lemma keepsD: "keeps R m \<Longrightarrow> run_state m s = (r, s') \<Longrightarrow> R s s'"
  unfolding keeps_def by (metis snd_conv)

lemma keepsI: "(\<And>s r s'. run_state m s = (r, s') \<Longrightarrow> R s s') \<Longrightarrow> keeps R m"
  unfolding keeps_def by (metis prod.collapse)

lemma keeps_mono: "keeps R m \<Longrightarrow> (\<And>s s'. R s s' \<Longrightarrow> R' s s') \<Longrightarrow> keeps R' m"
  unfolding keeps_def by blast

locale frame_relation =
  fixes R :: "'s \<Rightarrow> 's \<Rightarrow> bool"
  assumes frame_refl: "R s s"
    and frame_trans: "R s t \<Longrightarrow> R t u \<Longrightarrow> R s u"
begin

lemma pres_keeps: "keeps R m \<Longrightarrow> pres (R s) m"
  by (rule presI) (blast dest: keepsD intro: frame_trans)

lemma keeps_ret: "keeps R (ret x)"
  by (simp add: keeps_def frame_refl)

lemma keeps_get: "keeps R State_Monad.get"
  by (simp add: keeps_def frame_refl)

lemma keeps_bind: "keeps R m \<Longrightarrow> (\<And>x. keeps R (f x)) \<Longrightarrow> keeps R (State_Monad.bind m f)"
  unfolding keeps_def by (auto split: prod.splits) (metis frame_trans snd_conv)

lemma keeps_if: "(b \<Longrightarrow> keeps R m) \<Longrightarrow> (\<not> b \<Longrightarrow> keeps R n) \<Longrightarrow> keeps R (if b then m else n)"
  by simp

lemma keeps_sum:
  "(\<And>e. keeps R (f e)) \<Longrightarrow> (\<And>y. keeps R (g y)) \<Longrightarrow>
     keeps R (case x of Inl e \<Rightarrow> f e | Inr y \<Rightarrow> g y)"
  by (cases x) auto

lemma keeps_option:
  "keeps R m \<Longrightarrow> (\<And>y. keeps R (g y)) \<Longrightarrow> keeps R (case x of None \<Rightarrow> m | Some y \<Rightarrow> g y)"
  by (cases x) auto

lemma keeps_prod: "(\<And>a b. keeps R (f a b)) \<Longrightarrow> keeps R (case p of (a, b) \<Rightarrow> f a b)"
  by (cases p) auto

lemmas keeps_intros = keeps_ret keeps_get keeps_bind keeps_if keeps_sum keeps_option keeps_prod

end

end
