(* ===== verification/Le_Codec.thy ===== *)
theory Le_Codec
  imports Prelude
begin

text \<open>
  The little-endian codecs of \<^verbatim>\<open>common.c\<close>.  A pointer \<^verbatim>\<open>raw + off\<close> into a buffer is the pair of the
  buffer and the offset; a store through it returns the updated buffer.
\<close>

subsection \<open>The four functions of the source\<close>

definition get_le32 :: "bytes \<Rightarrow> nat \<Rightarrow> u32" where
  "get_le32 p off =
     ucast (p ! off) OR push_bit 8 (ucast (p ! (off + 1)))
       OR push_bit 16 (ucast (p ! (off + 2))) OR push_bit 24 (ucast (p ! (off + 3)))"

definition get_le64 :: "bytes \<Rightarrow> nat \<Rightarrow> u64" where
  "get_le64 p off = ucast (get_le32 p off) OR push_bit 32 (ucast (get_le32 p (off + 4)))"

definition put_le32 :: "bytes \<Rightarrow> nat \<Rightarrow> u32 \<Rightarrow> bytes" where
  "put_le32 p off v =
     p[off := ucast v, off + 1 := ucast (drop_bit 8 v),
       off + 2 := ucast (drop_bit 16 v), off + 3 := ucast (drop_bit 24 v)]"

definition put_le64 :: "bytes \<Rightarrow> nat \<Rightarrow> u64 \<Rightarrow> bytes" where
  "put_le64 p off v = put_le32 (put_le32 p off (ucast v)) (off + 4) (ucast (drop_bit 32 v))"

subsection \<open>Stores as patches\<close>

definition le32_bytes :: "u32 \<Rightarrow> bytes" where
  "le32_bytes v = [ucast v, ucast (drop_bit 8 v), ucast (drop_bit 16 v), ucast (drop_bit 24 v)]"

definition le64_bytes :: "u64 \<Rightarrow> bytes" where
  "le64_bytes v = le32_bytes (ucast v) @ le32_bytes (ucast (drop_bit 32 v))"

lemma length_le_bytes [simp]: "length (le32_bytes v) = 4" "length (le64_bytes w) = 8"
  by (simp_all add: le32_bytes_def le64_bytes_def)

lemma length_put_le [simp]:
  "length (put_le32 p off v) = length p" "length (put_le64 p off w) = length p"
  by (simp_all add: put_le32_def put_le64_def)

lemma put_le32_patch: "off + 4 \<le> length p \<Longrightarrow> put_le32 p off v = patch off (le32_bytes v) p"
  by (rule nth_equalityI)
    (auto simp: put_le32_def patch_def le32_bytes_def nth_append nth_list_update nth_Cons'
        eval_nat_numeral split: if_splits intro!: arg_cong [where f = "nth p"])

lemma put_le64_patch: "off + 8 \<le> length p \<Longrightarrow> put_le64 p off v = patch off (le64_bytes v) p"
  by (simp add: put_le64_def put_le32_patch le64_bytes_def patch_patch_adjacent)

subsection \<open>Round trips\<close>

lemma get_le32_slice: "off + 4 \<le> length p \<Longrightarrow> get_le32 (bslice off 4 p) 0 = get_le32 p off"
  by (simp add: get_le32_def)

lemma get_le64_slice: "off + 8 \<le> length p \<Longrightarrow> get_le64 (bslice off 8 p) 0 = get_le64 p off"
  by (simp add: get_le64_def get_le32_def add.commute)

lemma get_le32_bytes [simp]: "get_le32 (le32_bytes v) 0 = v"
proof (rule bit_word_eqI)
  fix n :: nat
  consider "n < 8" | "8 \<le> n" "n < 16" | "16 \<le> n" "n < 24" | "24 \<le> n"
    by linarith
  then show "n < LENGTH(32) \<Longrightarrow> bit (get_le32 (le32_bytes v) 0) n \<longleftrightarrow> bit v n"
    by cases (auto simp: get_le32_def le32_bytes_def bit_simps)
qed

lemma get_le64_bytes [simp]: "get_le64 (le64_bytes v) 0 = v"
proof (rule bit_word_eqI)
  fix n :: nat
  have lo: "get_le32 (le64_bytes v) 0 = ucast v" and hi: "get_le32 (le64_bytes v) 4 = ucast (drop_bit 32 v)"
    using get_le32_bytes [of "ucast v"] get_le32_bytes [of "ucast (drop_bit 32 v)"]
    by (simp_all add: le64_bytes_def get_le32_def le32_bytes_def)
  consider "n < 32" | "32 \<le> n"
    by linarith
  then show "n < LENGTH(64) \<Longrightarrow> bit (get_le64 (le64_bytes v) 0) n \<longleftrightarrow> bit v n"
    by cases (auto simp: get_le64_def lo hi bit_simps)
qed

lemma get_put_le32: "off + 4 \<le> length p \<Longrightarrow> get_le32 (put_le32 p off v) off = v"
  using get_le32_slice [of off "put_le32 p off v"] by (simp add: put_le32_patch slice_simps)

lemma get_put_le64: "off + 8 \<le> length p \<Longrightarrow> get_le64 (put_le64 p off v) off = v"
  using get_le64_slice [of off "put_le64 p off v"] by (simp add: put_le64_patch slice_simps)

text \<open>A value is determined by the four bytes it is stored in, and the other way round.\<close>

lemma le32_bytes_get: "off + 4 \<le> length p \<Longrightarrow> le32_bytes (get_le32 p off) = bslice off 4 p"
proof -
  assume len: "off + 4 \<le> length p"
  have "bslice off 4 p = [p ! off, p ! (off + 1), p ! (off + 2), p ! (off + 3)]"
    using len by (intro nth_equalityI) (auto simp: nth_Cons' eval_nat_numeral less_Suc_eq)
  moreover have "ucast (get_le32 p off) = p ! off"
    "ucast (drop_bit 8 (get_le32 p off)) = p ! (off + 1)"
    "ucast (drop_bit 16 (get_le32 p off)) = p ! (off + 2)"
    "ucast (drop_bit 24 (get_le32 p off)) = p ! (off + 3)"
    by (rule bit_word_eqI, auto simp: get_le32_def bit_simps dest: bit_imp_le_length)+
  ultimately show ?thesis
    by (simp add: le32_bytes_def)
qed

lemma le64_bytes_get: "off + 8 \<le> length p \<Longrightarrow> le64_bytes (get_le64 p off) = bslice off 8 p"
proof -
  assume len: "off + 8 \<le> length p"
  have "ucast (get_le64 p off) = get_le32 p off"
    "ucast (drop_bit 32 (get_le64 p off)) = get_le32 p (off + 4)"
    by (rule bit_word_eqI, auto simp: get_le64_def bit_simps dest: bit_imp_le_length)+
  moreover have "bslice off 4 p @ bslice (off + 4) 4 p = bslice off 8 p"
    by (simp add: slice_append_slice)
  ultimately show ?thesis
    using len by (simp add: le64_bytes_def le32_bytes_get)
qed

text \<open>The four bytes occupy disjoint bits, so the disjunctions of the source are exclusive.\<close>

lemma byte_bit_high: "8 \<le> n \<Longrightarrow> \<not> bit (b :: u8) n"
  by (auto dest: bit_imp_le_length)

lemma get_le32_xor:
  "get_le32 p off =
     ucast (p ! off) XOR push_bit 8 (ucast (p ! (off + 1)))
       XOR push_bit 16 (ucast (p ! (off + 2))) XOR push_bit 24 (ucast (p ! (off + 3)))"
proof (rule bit_word_eqI)
  fix n :: nat
  let ?x = "(ucast (p ! off) :: u32) XOR push_bit 8 (ucast (p ! (off + 1)))
       XOR push_bit 16 (ucast (p ! (off + 2))) XOR push_bit 24 (ucast (p ! (off + 3)))"
  consider "n < 8" | "8 \<le> n" "n < 16" | "16 \<le> n" "n < 24" | "24 \<le> n"
    by linarith
  then show "n < LENGTH(32) \<Longrightarrow> bit (get_le32 p off) n \<longleftrightarrow> bit ?x n"
    by cases (simp_all add: get_le32_def bit_simps byte_bit_high)
qed

lemma get_le32_inj:
  assumes "off + 4 \<le> length p" "off + 4 \<le> length q" "get_le32 p off = get_le32 q off"
  shows "bslice off 4 p = bslice off 4 q"
  using le32_bytes_get [OF assms(1)] le32_bytes_get [OF assms(2)] assms(3) by simp

end
