(* ===== verification/Crc32c.thy ===== *)
theory Crc32c
  imports Le_Codec
begin

text \<open>
  The checksum and formatting half of \<^verbatim>\<open>hash.c\<close>: \<^verbatim>\<open>crc32c_update\<close> in both of its builds, \<^verbatim>\<open>hash_crc32\<close>
  and \<^verbatim>\<open>hash_to_hex\<close>.  The instructions of the aarch64 build are arguments of the definition; what the
  code relies on is that each of them folds in the bytes of its operand, lowest byte first.  The two
  builds are shown to compute the same function, and the checksum is shown to tell apart any two
  messages that differ inside four consecutive bytes.
\<close>

subsection \<open>Definitions\<close>

definition polynomial :: u32 where
  "polynomial = 0x82f63b78"

definition crc_shift :: "u32 \<Rightarrow> u32" where
  "crc_shift crc = drop_bit 1 crc XOR (if crc AND 1 \<noteq> 0 then polynomial else 0)"

fun crc32c_update :: "u32 \<Rightarrow> bytes \<Rightarrow> u32" where
  "crc32c_update crc [] = crc"
| "crc32c_update crc (b # data) = crc32c_update ((crc_shift ^^ 8) (crc XOR ucast b)) data"

definition get_le16 :: "bytes \<Rightarrow> nat \<Rightarrow> u16" where
  "get_le16 p off = ucast (p ! off) OR push_bit 8 (ucast (p ! (off + 1)))"

definition le16_bytes :: "u16 \<Rightarrow> bytes" where
  "le16_bytes v = [ucast v, ucast (drop_bit 8 v)]"

fun crc32c_update_arm_loop :: "(u32 \<Rightarrow> u64 \<Rightarrow> u32) \<Rightarrow> u32 \<Rightarrow> bytes \<Rightarrow> u32 \<times> bytes" where
  "crc32c_update_arm_loop crc32cd crc p =
     (if 8 \<le> length p then crc32c_update_arm_loop crc32cd (crc32cd crc (get_le64 p 0)) (drop 8 p)
      else (crc, p))"

definition crc32c_update_arm ::
  "(u32 \<Rightarrow> u64 \<Rightarrow> u32) \<Rightarrow> (u32 \<Rightarrow> u32 \<Rightarrow> u32) \<Rightarrow> (u32 \<Rightarrow> u16 \<Rightarrow> u32) \<Rightarrow> (u32 \<Rightarrow> u8 \<Rightarrow> u32) \<Rightarrow>
     u32 \<Rightarrow> bytes \<Rightarrow> u32" where
  "crc32c_update_arm crc32cd crc32cw crc32ch crc32cb crc data =
     (let (crc, p) = crc32c_update_arm_loop crc32cd crc data;
          (crc, p) = (if 4 \<le> length p then (crc32cw crc (get_le32 p 0), drop 4 p) else (crc, p));
          (crc, p) = (if 2 \<le> length p then (crc32ch crc (get_le16 p 0), drop 2 p) else (crc, p))
      in if length p \<noteq> 0 then crc32cb crc (p ! 0) else crc)"

text \<open>\<^verbatim>\<open>hash_crc32\<close> always returns 0; the model returns the four bytes it stores.\<close>

definition hash_crc32 :: "bytes \<Rightarrow> bytes" where
  "hash_crc32 data = put_le32 (replicate 4 0) 0 (NOT (crc32c_update (NOT 0) data))"

definition hex_digits :: string where
  "hex_digits = ''0123456789abcdef''"

definition hash_to_hex :: "bytes \<Rightarrow> string" where
  "hash_to_hex digest =
     concat (map (\<lambda>i. [hex_digits ! unat (drop_bit 4 (digest ! i)),
                       hex_digits ! unat (digest ! i AND 0x0f)]) [0..<32]) @ [CHR 0x00]"

subsection \<open>The shift register is linear and reversible\<close>

lemma lsb_test: "(c :: u32) AND 1 \<noteq> 0 \<longleftrightarrow> bit c 0"
  by (simp add: and_one_eq mod_2_eq_odd bit_0)

lemma crc_shift_alt: "crc_shift c = drop_bit 1 c XOR (if bit c 0 then polynomial else 0)"
  unfolding crc_shift_def lsb_test ..

lemma xor_cancel_right: "(a :: u32) XOR p = b XOR p \<longleftrightarrow> a = b"
proof
  assume "a XOR p = b XOR p"
  then have "(a XOR p) XOR p = (b XOR p) XOR p" by simp
  then show "a = b" by (simp only: xor.assoc xor_self_eq xor.right_neutral)
qed simp

lemma crc_shift_xor: "crc_shift (a XOR b) = crc_shift a XOR crc_shift b"
  by (cases "bit a 0"; cases "bit b 0")
    (simp_all add: crc_shift_alt bit_xor_iff drop_bit_xor xor.assoc xor.commute xor.left_commute)

lemma crc_shift_pow_xor: "(crc_shift ^^ n) (a XOR b) = (crc_shift ^^ n) a XOR (crc_shift ^^ n) b"
  by (induction n) (simp_all add: crc_shift_xor)

lemma crc_shift_bit31: "bit (crc_shift c) 31 \<longleftrightarrow> bit c 0"
  by (auto simp: crc_shift_alt polynomial_def bit_simps dest: bit_imp_le_length)

lemma crc_shift_inj: "crc_shift a = crc_shift b \<Longrightarrow> a = b"
proof (rule bit_word_eqI)
  fix n :: nat
  assume eq: "crc_shift a = crc_shift b"
  then have b0: "bit a 0 \<longleftrightarrow> bit b 0"
    using crc_shift_bit31 by metis
  then have "drop_bit 1 a = drop_bit 1 b"
    using eq by (auto simp: crc_shift_alt xor_cancel_right split: if_splits)
  then have "bit a (Suc m) \<longleftrightarrow> bit b (Suc m)" for m
    by (metis bit_drop_bit_eq comp_def plus_1_eq_Suc)
  with b0 show "bit a n \<longleftrightarrow> bit b n"
    by (cases n) simp_all
qed

lemma crc_shift_pow_inj: "(crc_shift ^^ n) a = (crc_shift ^^ n) b \<Longrightarrow> a = b"
  by (induction n) (auto dest: crc_shift_inj)

subsection \<open>Bytes fold together\<close>

lemma crc_shift_even: "\<not> bit c 0 \<Longrightarrow> crc_shift c = drop_bit 1 c"
  by (simp add: crc_shift_alt)

lemma crc_shift_pow_high:
  "(\<And>i. i < n \<Longrightarrow> \<not> bit c i) \<Longrightarrow> (crc_shift ^^ n) c = drop_bit n c"
proof (induction n)
  case (Suc n)
  then have "(crc_shift ^^ n) c = drop_bit n c" by simp
  moreover have "\<not> bit (drop_bit n c) 0"
    using Suc.prems [of n] by (simp add: bit_drop_bit_eq)
  ultimately show ?case
    by (simp add: crc_shift_even drop_bit_drop_bit)
qed simp

lemma crc_shift_pow_push: "n + 8 \<le> 32 \<Longrightarrow> (crc_shift ^^ n) (push_bit n (ucast (b :: u8))) = ucast b"
proof (subst crc_shift_pow_high)
  assume n: "n + 8 \<le> 32"
  show "drop_bit n (push_bit n (ucast b)) = (ucast b :: u32)"
  proof (rule bit_word_eqI)
    fix m :: nat
    show "m < LENGTH(32) \<Longrightarrow> bit (drop_bit n (push_bit n (ucast b :: u32))) m \<longleftrightarrow> bit (ucast b :: u32) m"
      using n by (cases "m < 8") (auto simp: bit_simps dest: bit_imp_le_length)
  qed
qed (simp add: bit_simps)

lemma crc_step_bytes:
  assumes "n + 8 \<le> 32"
  shows "(crc_shift ^^ 8) ((crc_shift ^^ n) c XOR ucast (b :: u8)) = (crc_shift ^^ (n + 8)) (c XOR push_bit n (ucast b))"
proof -
  have "(crc_shift ^^ n) (c XOR push_bit n (ucast b)) = (crc_shift ^^ n) c XOR ucast b"
    using assms by (simp add: crc_shift_pow_xor crc_shift_pow_push)
  then show ?thesis
    by (simp add: funpow_add add.commute [of n 8])
qed

lemma crc32c_update_append: "crc32c_update c (xs @ ys) = crc32c_update (crc32c_update c xs) ys"
  by (induction xs arbitrary: c) simp_all

text \<open>Four bytes at once: the shift register absorbs a little-endian word before 32 shifts.\<close>

lemma crc32c_update_word: "crc32c_update c [b0, b1, b2, b3] = (crc_shift ^^ 32) (c XOR get_le32 [b0, b1, b2, b3] 0)"
proof -
  let ?w = "get_le32 [b0, b1, b2, b3] 0"
  have w: "?w = ucast b0 XOR push_bit 8 (ucast b1) XOR push_bit 16 (ucast b2) XOR push_bit 24 (ucast b3)"
    unfolding get_le32_xor by simp
  show ?thesis
    using crc_step_bytes [of 8 "c XOR ucast b0" b1]
      crc_step_bytes [of 16 "c XOR ucast b0 XOR push_bit 8 (ucast b1)" b2]
      crc_step_bytes [of 24 "c XOR ucast b0 XOR push_bit 8 (ucast b1) XOR push_bit 16 (ucast b2)" b3]
    by (simp add: w xor.assoc)
qed

lemma crc32c_update_inj: "crc32c_update a xs = crc32c_update b xs \<Longrightarrow> a = b"
proof (induction xs arbitrary: a b)
  case (Cons x xs)
  then have "(crc_shift ^^ 8) (a XOR ucast x) = (crc_shift ^^ 8) (b XOR ucast x)" by simp
  then show ?case
    by (auto dest: crc_shift_pow_inj simp: xor_cancel_right)
qed simp

subsection \<open>The two builds agree\<close>

declare crc32c_update_arm_loop.simps [simp del]

lemma crc32c_update_arm_loop_correct:
  assumes d: "\<And>c v. crc32cd c v = crc32c_update c (le64_bytes v)"
    and run: "crc32c_update_arm_loop crc32cd crc p = (crc', p')"
  shows "length p' < 8 \<and> crc32c_update crc p = crc32c_update crc' p'"
  using run
proof (induction p arbitrary: crc rule: length_induct)
  case (1 p)
  show ?case
  proof (cases "8 \<le> length p")
    case True
    then have p: "p = le64_bytes (get_le64 p 0) @ drop 8 p"
      using le64_bytes_get [of 0 p] by (simp add: bslice_def)
    have "crc32c_update_arm_loop crc32cd (crc32cd crc (get_le64 p 0)) (drop 8 p) = (crc', p')"
      using "1.prems" True by (simp add: crc32c_update_arm_loop.simps [of crc32cd crc p])
    moreover have "length (drop 8 p) < length p"
      using True by simp
    ultimately have "length p' < 8 \<and>
        crc32c_update (crc32cd crc (get_le64 p 0)) (drop 8 p) = crc32c_update crc' p'"
      using "1.IH" by blast
    moreover have "crc32c_update crc p = crc32c_update (crc32cd crc (get_le64 p 0)) (drop 8 p)"
      by (subst p) (simp only: d crc32c_update_append)
    ultimately show ?thesis by simp
  next
    case False
    with "1.prems" show ?thesis
      by (simp add: crc32c_update_arm_loop.simps [of crc32cd crc p])
  qed
qed

lemma foldl_byte_instruction:
  assumes "\<And>c b. crc32cb c b = (crc_shift ^^ 8) (c XOR ucast b)"
  shows "foldl crc32cb c xs = crc32c_update c xs"
  by (induction xs arbitrary: c) (simp_all add: assms)

lemma le16_bytes_get: "2 \<le> length p \<Longrightarrow> le16_bytes (get_le16 p 0) = take 2 p"
proof -
  assume "2 \<le> length p"
  then obtain a b q where p: "p = a # b # q"
    by (metis Suc_le_length_iff numeral_2_eq_2)
  have lo: "ucast (ucast a OR push_bit 8 (ucast b) :: u16) = a"
    by (rule bit_word_eqI) (auto simp: bit_simps dest: bit_imp_le_length)
  have hi: "ucast (drop_bit 8 (ucast a OR push_bit 8 (ucast b) :: u16)) = b"
    by (rule bit_word_eqI) (auto simp: bit_simps dest: bit_imp_le_length)
  show ?thesis
    unfolding le16_bytes_def get_le16_def p using lo hi by simp
qed

lemma crc32c_update_split: "crc32c_update c p = crc32c_update (crc32c_update c (take n p)) (drop n p)"
  by (metis append_take_drop_id crc32c_update_append)

text \<open>
  C24 (equivalence of the two builds).  The aarch64 build of \<^verbatim>\<open>crc32c_update\<close> consumes the buffer eight,
  four, two and one byte at a time; provided the byte instruction performs eight steps of the
  reflected Castagnoli shift register and each wider instruction folds the bytes of its operand from
  the lowest address up, it computes exactly what the portable build computes, for every starting
  value and every buffer length.
\<close>

theorem crc32c_update_arm_eq:
  assumes b: "\<And>c b. crc32cb c b = (crc_shift ^^ 8) (c XOR ucast b)"
    and h: "\<And>c v. crc32ch c v = foldl crc32cb c (le16_bytes v)"
    and w: "\<And>c v. crc32cw c v = foldl crc32cb c (le32_bytes v)"
    and d: "\<And>c v. crc32cd c v = foldl crc32cb c (le64_bytes v)"
  shows "crc32c_update_arm crc32cd crc32cw crc32ch crc32cb crc data = crc32c_update crc data"
proof -
  have fold: "foldl crc32cb c xs = crc32c_update c xs" for c xs
    using b by (rule foldl_byte_instruction)
  have d': "crc32cd c v = crc32c_update c (le64_bytes v)" for c v
    by (simp only: d fold)
  obtain c1 p1 where l: "crc32c_update_arm_loop crc32cd crc data = (c1, p1)"
    by (cases "crc32c_update_arm_loop crc32cd crc data")
  have p1: "length p1 < 8" "crc32c_update crc data = crc32c_update c1 p1"
    using crc32c_update_arm_loop_correct [OF d' l] by simp_all
  define p2 where "p2 = (if 4 \<le> length p1 then drop 4 p1 else p1)"
  define c2 where "c2 = (if 4 \<le> length p1 then crc32cw c1 (get_le32 p1 0) else c1)"
  have p2: "length p2 < 4" "crc32c_update c1 p1 = crc32c_update c2 p2"
  proof -
    have "crc32cw c1 (get_le32 p1 0) = crc32c_update c1 (take 4 p1)" if "4 \<le> length p1"
      using that by (simp only: w fold le32_bytes_get bslice_def drop_0 add_0)
    then show "crc32c_update c1 p1 = crc32c_update c2 p2"
      using crc32c_update_split [of c1 p1 4] unfolding p2_def c2_def by presburger
  qed (use p1(1) in \<open>auto simp: p2_def\<close>)
  define p3 where "p3 = (if 2 \<le> length p2 then drop 2 p2 else p2)"
  define c3 where "c3 = (if 2 \<le> length p2 then crc32ch c2 (get_le16 p2 0) else c2)"
  have p3: "length p3 < 2" "crc32c_update c2 p2 = crc32c_update c3 p3"
  proof -
    have "crc32ch c2 (get_le16 p2 0) = crc32c_update c2 (take 2 p2)" if "2 \<le> length p2"
      using that by (simp only: h fold le16_bytes_get)
    then show "crc32c_update c2 p2 = crc32c_update c3 p3"
      using crc32c_update_split [of c2 p2 2] unfolding p3_def c3_def by presburger
  qed (use p2(1) in \<open>auto simp: p3_def\<close>)
  have s2: "(if 4 \<le> length p1 then (crc32cw c1 (get_le32 p1 0), drop 4 p1) else (c1, p1)) = (c2, p2)"
    by (simp only: p2_def c2_def split: if_split) simp
  have s3: "(if 2 \<le> length p2 then (crc32ch c2 (get_le16 p2 0), drop 2 p2) else (c2, p2)) = (c3, p3)"
    by (simp only: p3_def c3_def split: if_split) simp
  have last: "crc32c_update c3 p3 = (if length p3 \<noteq> 0 then crc32cb c3 (p3 ! 0) else c3)"
    using p3(1) by (cases p3) (simp_all add: b)
  have "crc32c_update_arm crc32cd crc32cw crc32ch crc32cb crc data = crc32c_update c3 p3"
    unfolding last by (simp only: crc32c_update_arm_def l Let_def prod.case s2 s3)
  with p1 p2 p3 show ?thesis by simp
qed

theorem crc32c_update_arm_eq_witness:
  "crc32c_update_arm (\<lambda>c v. foldl (\<lambda>c b. (crc_shift ^^ 8) (c XOR ucast b)) c (le64_bytes v))
     (\<lambda>c v. foldl (\<lambda>c b. (crc_shift ^^ 8) (c XOR ucast b)) c (le32_bytes v))
     (\<lambda>c v. foldl (\<lambda>c b. (crc_shift ^^ 8) (c XOR ucast b)) c (le16_bytes v))
     (\<lambda>c b. (crc_shift ^^ 8) (c XOR ucast b)) (NOT 0) [1, 2, 3, 4, 5, 6, 7, 8, 9, 10, 11, 12, 13, 14, 15]
   = crc32c_update (NOT 0) [1, 2, 3, 4, 5, 6, 7, 8, 9, 10, 11, 12, 13, 14, 15]"
  by (rule crc32c_update_arm_eq) (rule refl)+

subsection \<open>What the checksum detects\<close>

lemma crc32c_update_word_inj:
  assumes "length w = 4" and "length w' = 4" and "crc32c_update c w = crc32c_update c w'"
  shows "w = w'"
proof -
  have four: "\<exists>a b c d. xs = [a, b, c, d]" if "length xs = 4" for xs :: bytes
    using that by (auto simp: eval_nat_numeral length_Suc_conv)
  obtain a0 a1 a2 a3 where w: "w = [a0, a1, a2, a3]" using four [OF assms(1)] by blast
  obtain b0 b1 b2 b3 where w': "w' = [b0, b1, b2, b3]" using four [OF assms(2)] by blast
  have "c XOR get_le32 w 0 = c XOR get_le32 w' 0"
    using assms(3) crc_shift_pow_inj unfolding w w' crc32c_update_word by blast
  then have "get_le32 w 0 = get_le32 w' 0"
    using xor_cancel_right [of "get_le32 w 0" c "get_le32 w' 0"] by (simp add: xor.commute)
  then show ?thesis
    using assms get_le32_inj [of 0 w w'] by (simp add: bslice_def)
qed

lemma crc32c_update_short_inj:
  assumes "length w \<le> 4" and "length w' = length w" and "crc32c_update c w = crc32c_update c w'"
  shows "w = w'"
proof -
  let ?z = "replicate (4 - length w) 0"
  have "crc32c_update c (w @ ?z) = crc32c_update c (w' @ ?z)"
    using assms(3) by (simp add: crc32c_update_append)
  then have "w @ ?z = w' @ ?z"
    using assms by (intro crc32c_update_word_inj) auto
  then show ?thesis by simp
qed

lemma hash_crc32_eq_iff:
  "hash_crc32 xs = hash_crc32 ys \<longleftrightarrow> crc32c_update (NOT 0) xs = crc32c_update (NOT 0) ys"
proof
  assume "hash_crc32 xs = hash_crc32 ys"
  then have "get_le32 (hash_crc32 xs) 0 = get_le32 (hash_crc32 ys) 0" by simp
  then show "crc32c_update (NOT 0) xs = crc32c_update (NOT 0) ys"
    by (simp add: hash_crc32_def get_put_le32)
qed (simp add: hash_crc32_def)

lemma length_hash_crc32 [simp]: "length (hash_crc32 xs) = 4"
  by (simp add: hash_crc32_def length_put_le)

lemma hash_crc32_window:
  assumes "length w \<le> 4" and "length w' = length w" and "hash_crc32 (xs @ w @ ys) = hash_crc32 (xs @ w' @ ys)"
  shows "w = w'"
proof -
  have "crc32c_update (crc32c_update (NOT 0) xs) w = crc32c_update (crc32c_update (NOT 0) xs) w'"
    using assms(3) unfolding hash_crc32_eq_iff crc32c_update_append by (rule crc32c_update_inj)
  then show ?thesis
    using crc32c_update_short_inj [OF assms(1,2)] by blast
qed

text \<open>
  C25 (error detection).  Two messages that differ in at most four consecutive bytes have different
  checksums, whatever surrounds the difference.
\<close>

theorem hash_crc32_detects_window:
  assumes "length w \<le> 4" and "length w' = length w" and "w \<noteq> w'"
  shows "hash_crc32 (xs @ w @ ys) \<noteq> hash_crc32 (xs @ w' @ ys)"
  using assms hash_crc32_window by blast

theorem hash_crc32_detects_window_witness:
  "hash_crc32 ([1, 2] @ [3, 4, 5] @ [6]) \<noteq> hash_crc32 ([1, 2] @ [3, 9, 5] @ [6])"
  by (rule hash_crc32_detects_window) simp_all

subsection \<open>Hexadecimal output\<close>

lemma hex_digits_inj:
  assumes "i < 16" "j < 16" "hex_digits ! i = hex_digits ! j" shows "i = j"
proof -
  have d: "distinct hex_digits" and l: "length hex_digits = 16"
    by (simp_all add: hex_digits_def)
  show ?thesis using assms nth_eq_iff_index_eq [OF d, of i j] l by simp
qed

lemma nibbles_inj:
  fixes a b :: u8
  assumes "drop_bit 4 a = drop_bit 4 b" and "a AND 0x0f = b AND 0x0f"
  shows "a = b"
proof (rule bit_word_eqI)
  fix n :: nat
  have m: "0x0f = (mask 4 :: u8)" by (simp add: mask_eq_exp_minus_1)
  have lo: "bit a n = bit b n" if "n < 4"
    using arg_cong [OF assms(2), of "\<lambda>x. bit x n"] that unfolding m by (simp add: bit_simps)
  have hi: "bit a n = bit b n" if "4 \<le> n"
    using arg_cong [OF assms(1), of "\<lambda>x. bit x (n - 4)"] that by (simp add: bit_simps)
  from lo hi show "bit a n = bit b n" by (cases "n < 4") auto
qed

lemma nibble_bounds: "unat (drop_bit 4 (a :: u8)) < 16" "unat (a AND 0x0f) < 16"
proof -
  have "unat a < 2 ^ LENGTH(8)" by (rule unsigned_less)
  then have "unat a < 256" by simp
  then have "drop_bit 4 (unat a) < 16" by (simp add: drop_bit_eq_div)
  then show "unat (drop_bit 4 a) < 16" by (simp only: unat_drop_bit_eq)
  have "a AND 0x0f = take_bit 4 a" by (simp add: take_bit_eq_mask mask_eq_exp_minus_1)
  moreover have "take_bit 4 (unat a) < 16" using take_bit_nat_less_exp [of 4 "unat a"] by simp
  ultimately show "unat (a AND 0x0f) < 16" by (simp only: unsigned_take_bit_eq)
qed

lemma upt_split_at: "i < n \<Longrightarrow> [0..<n] = [0..<i] @ i # [Suc i..<n]"
  using upt_add_eq_append [of 0 i "n - i"] by (simp add: upt_conv_Cons)

lemma hash_to_hex_pair:
  assumes "i < 32"
  shows "bslice (2 * i) 2 (hash_to_hex d) =
           [hex_digits ! unat (drop_bit 4 (d ! i)), hex_digits ! unat (d ! i AND 0x0f)]"
proof -
  let ?f = "\<lambda>i. [hex_digits ! unat (drop_bit 4 (d ! i)), hex_digits ! unat (d ! i AND 0x0f)]"
  have len: "length (concat (map ?f xs)) = 2 * length xs" for xs by (induction xs) simp_all
  have split: "[0..<32] = [0..<i] @ i # [Suc i..<32]"
    using assms by (rule upt_split_at)
  define pre where "pre = concat (map ?f [0..<i])"
  define post where "post = concat (map ?f [Suc i..<32]) @ [CHR 0x00]"
  have "hash_to_hex d = pre @ ?f i @ post"
    by (simp only: hash_to_hex_def split map_append concat_append list.map concat.simps append_assoc
        pre_def post_def)
  moreover have "length pre = 2 * i"
    by (simp only: pre_def len length_upt diff_zero)
  ultimately show ?thesis
    by (simp add: bslice_def)
qed

text \<open>
  The printed digest is faithful: the 65 characters written by \<^verbatim>\<open>hash_to_hex\<close> determine the
  32-byte digest.
\<close>

theorem hash_to_hex_inj:
  assumes "length d = 32" and "length d' = 32" and eq: "hash_to_hex d = hash_to_hex d'"
  shows "d = d'"
proof (rule nth_equalityI)
  show "length d = length d'" using assms by simp
  fix i assume "i < length d"
  then have i: "i < 32" using assms by simp
  have "[hex_digits ! unat (drop_bit 4 (d ! i)), hex_digits ! unat (d ! i AND 0x0f)] =
      [hex_digits ! unat (drop_bit 4 (d' ! i)), hex_digits ! unat (d' ! i AND 0x0f)]"
    unfolding hash_to_hex_pair [OF i, symmetric] eq ..
  then have "hex_digits ! unat (drop_bit 4 (d ! i)) = hex_digits ! unat (drop_bit 4 (d' ! i))"
    and "hex_digits ! unat (d ! i AND 0x0f) = hex_digits ! unat (d' ! i AND 0x0f)"
    by (simp_all only: list.inject)
  then have "unat (drop_bit 4 (d ! i)) = unat (drop_bit 4 (d' ! i))"
    "unat (d ! i AND 0x0f) = unat (d' ! i AND 0x0f)"
    using hex_digits_inj [OF nibble_bounds(1) nibble_bounds(1)]
      hex_digits_inj [OF nibble_bounds(2) nibble_bounds(2)] by blast+
  then show "d ! i = d' ! i"
    unfolding word_unat_eq_iff [symmetric] by (rule nibbles_inj)
qed

theorem hash_to_hex_inj_witness:
  "length (replicate 32 (7 :: u8)) = 32 \<and> hash_to_hex (replicate 32 7) \<noteq> hash_to_hex (replicate 31 7 @ [8])"
proof -
  have "last (replicate 32 (7 :: u8)) \<noteq> last (replicate 31 7 @ [8])"
    by simp
  then have ne: "replicate 32 (7 :: u8) \<noteq> replicate 31 7 @ [8]" by metis
  have "length (replicate 31 (7 :: u8) @ [8]) = 32" by simp
  from hash_to_hex_inj [OF length_replicate this] ne
  have "hash_to_hex (replicate 32 7) \<noteq> hash_to_hex (replicate 31 7 @ [8])" by (rule contrapos_nn [rotated])
  then show ?thesis by (intro conjI length_replicate)
qed

end
