(* ===== verification/Os_Model.thy ===== *)
theory Os_Model
  imports Prelude
begin

text \<open>
  The operating-system interface the userspace programs are written against: block devices as ranges
  of physical disks, the descriptor table, mounts, numeric pseudo files, the service manager and the
  monotonic clock.  None of this is code of the repository; it is the documented behaviour of the
  system calls the sources use, reduced to what they observe.

  Every call first consults \<open>env\<close>, the script of what the rest of the machine does: it may fail the
  call, shorten a transfer, deliver a text, let time pass, lose the tail of a digest (see
  \<open>Hash_Ring\<close>) or let a mounted file system write to its device.  When the script is exhausted every
  call succeeds; all theorems are for an arbitrary script.  Two partitions may lie on the same disk and a
  disk is itself a node, so the aliasing of a partition with its parent device is real.

  \<open>disks\<close> is what reads return; \<open>stable\<close> is what is known to survive a loss of power, brought up to date
  for a device by \<open>fsync\<close>.
\<close>

subsection \<open>State\<close>

datatype reply = Normal | Err errno | Short nat | Text string | Delay nat | Lost nat
  | Writeback string nat bytes

record part =
  rdev :: nat
  disk :: nat
  pstart :: nat
  psize :: nat
  lsz :: nat

datatype node = Blk part | Reg nat | Dir | Chr

datatype oflag = O_RDONLY | O_RDWR | O_CLOEXEC | O_DIRECT | O_EXCL | O_DIRECTORY

record fdesc =
  fd_node :: node
  fd_path :: string
  fd_rdwr :: bool
  fd_direct :: bool
  fd_excl :: bool

record os =
  nodes :: "string \<Rightarrow> node option"
  disks :: "nat \<Rightarrow> bytes"
  stable :: "nat \<Rightarrow> bytes"
  fds :: "nat \<Rightarrow> fdesc option"
  next_fd :: nat
  mounts :: "(string \<times> part) list"
  gate :: "string \<Rightarrow> bool"
  leaky :: "string \<Rightarrow> bool"
  home_dev :: "string \<Rightarrow> nat"
  numfiles :: "string \<Rightarrow> nat option"
  links :: "string \<Rightarrow> string option"
  unit_state :: "string \<Rightarrow> string \<Rightarrow> string"
  signalled :: "string list"
  ready :: bool
  now :: nat
  env :: "reply list"

record stat_buf =
  st_node :: node
  st_dev :: nat

definition region :: "os \<Rightarrow> part \<Rightarrow> bytes" where
  "region s p = bslice (pstart p) (psize p) (disks s (disk p))"

definition stable_region :: "os \<Rightarrow> part \<Rightarrow> bytes" where
  "stable_region s p = bslice (pstart p) (psize p) (stable s (disk p))"

subsection \<open>The rest of the machine\<close>

definition write_disk :: "part \<Rightarrow> nat \<Rightarrow> bytes \<Rightarrow> os \<Rightarrow> os" where
  "write_disk p off bs s =
     s\<lparr>disks := (disks s)(disk p := patch (pstart p + off) bs (disks s (disk p)))\<rparr>"

text \<open>
  A device is written behind the programs' back only through a mounted file system.  A closed write gate stops that, unless the mount is \<open>leaky\<close>: the gate does
  not hold back the eviction of an unlinked or preallocated file, nor the update of a time stamp (see \<open>Fat_Gate\<close> and \<open>Fat_Evict\<close>).  \<open>leaky\<close> says for each mountpoint
  whether such changes are still to come.
\<close>

definition shut :: "os \<Rightarrow> string \<Rightarrow> bool" where
  "shut s mp \<longleftrightarrow> gate s mp \<and> \<not> leaky s mp"

definition writeback :: "string \<Rightarrow> nat \<Rightarrow> bytes \<Rightarrow> os \<Rightarrow> os" where
  "writeback mp off bs s =
     (case map_of (mounts s) mp of
        None \<Rightarrow> s
      | Some p \<Rightarrow> if shut s mp \<or> psize p < off + length bs then s else write_disk p off bs s)"

definition tick :: "os \<Rightarrow> reply \<times> os" where
  "tick s =
     (case env s of
        [] \<Rightarrow> (Normal, s)
      | r # rs \<Rightarrow>
          (case r of
             Writeback mp off bs \<Rightarrow> (Normal, writeback mp off bs (s\<lparr>env := rs\<rparr>))
           | Delay n \<Rightarrow> (Normal, s\<lparr>env := rs, now := now s + n\<rparr>)
           | _ \<Rightarrow> (r, s\<lparr>env := rs\<rparr>)))"

definition syscall :: "(reply \<Rightarrow> os \<Rightarrow> 'a \<times> os) \<Rightarrow> (os, 'a) state" where
  "syscall f = State (\<lambda>s. case tick s of (r, s') \<Rightarrow> f r s')"

definition or_fail :: "(reply \<Rightarrow> os \<Rightarrow> (errno + 'a) \<times> os) \<Rightarrow> reply \<Rightarrow> os \<Rightarrow> (errno + 'a) \<times> os" where
  "or_fail f r s = (case r of Err e \<Rightarrow> (Inl e, s) | _ \<Rightarrow> f r s)"

subsection \<open>Files and devices\<close>

definition sys_stat :: "string \<Rightarrow> (os, errno + stat_buf) state" where
  "sys_stat path = syscall (or_fail (\<lambda>r s.
     (case nodes s path of
        None \<Rightarrow> Inl ENOENT
      | Some nd \<Rightarrow> Inr \<lparr>st_node = nd,
          st_dev = (case map_of (mounts s) path of Some p \<Rightarrow> rdev p | None \<Rightarrow> home_dev s path)\<rparr>, s)))"

definition held_excl :: "os \<Rightarrow> nat \<Rightarrow> bool" where
  "held_excl s d \<longleftrightarrow>
     (\<exists>fd < next_fd s. case fds s fd of
        Some f \<Rightarrow> fd_excl f \<and> (case fd_node f of Blk p \<Rightarrow> rdev p = d | _ \<Rightarrow> False)
      | None \<Rightarrow> False)"

definition is_mounted :: "os \<Rightarrow> nat \<Rightarrow> bool" where
  "is_mounted s d \<longleftrightarrow> (\<exists>m \<in> set (mounts s). rdev (snd m) = d)"

definition open_fd :: "string \<Rightarrow> oflag list \<Rightarrow> node \<Rightarrow> os \<Rightarrow> nat \<times> os" where
  "open_fd path flags nd s =
     (next_fd s,
      s\<lparr>fds := (fds s)(next_fd s \<mapsto> \<lparr>fd_node = nd, fd_path = path, fd_rdwr = (O_RDWR \<in> set flags),
                  fd_direct = (O_DIRECT \<in> set flags), fd_excl = (O_EXCL \<in> set flags)\<rparr>),
        next_fd := next_fd s + 1\<rparr>)"

text \<open>
  \<open>O_EXCL\<close> on a block device, without \<open>O_CREAT\<close>, fails with \<open>EBUSY\<close> while the device is mounted or held
  exclusively.
\<close>

definition sys_open :: "string \<Rightarrow> oflag list \<Rightarrow> (os, errno + nat) state" where
  "sys_open path flags = syscall (or_fail (\<lambda>r s.
     case nodes s path of
       None \<Rightarrow> (Inl ENOENT, s)
     | Some nd \<Rightarrow>
         (case nd of
            Blk p \<Rightarrow>
              if O_DIRECTORY \<in> set flags then (Inl ENOTDIR, s)
              else if O_EXCL \<in> set flags \<and> (is_mounted s (rdev p) \<or> held_excl s (rdev p))
              then (Inl EBUSY, s)
              else map_prod Inr id (open_fd path flags nd s)
          | Dir \<Rightarrow> if O_RDWR \<in> set flags then (Inl EACCES, s) else map_prod Inr id (open_fd path flags nd s)
          | _ \<Rightarrow> if O_DIRECTORY \<in> set flags then (Inl ENOTDIR, s)
                else map_prod Inr id (open_fd path flags nd s))))"

definition sys_close :: "nat \<Rightarrow> (os, errno + unit) state" where
  "sys_close fd = syscall (\<lambda>r s.
     if fds s fd = None then (Inl EBADF, s)
     else (case r of Err e \<Rightarrow> Inl e | _ \<Rightarrow> Inr (), s\<lparr>fds := (fds s)(fd := None)\<rparr>))"

definition with_fd :: "nat \<Rightarrow> (fdesc \<Rightarrow> reply \<Rightarrow> os \<Rightarrow> (errno + 'a) \<times> os) \<Rightarrow> (os, errno + 'a) state" where
  "with_fd fd f = syscall (or_fail (\<lambda>r s.
     case fds s fd of None \<Rightarrow> (Inl EBADF, s) | Some d \<Rightarrow> f d r s))"

definition sys_fstat :: "nat \<Rightarrow> (os, errno + node) state" where
  "sys_fstat fd = with_fd fd (\<lambda>d r s. (Inr (fd_node d), s))"

definition sys_blkgetsize64 :: "nat \<Rightarrow> (os, errno + nat) state" where
  "sys_blkgetsize64 fd = with_fd fd (\<lambda>d r s.
     (case fd_node d of Blk p \<Rightarrow> Inr (psize p) | _ \<Rightarrow> Inl ENOTTY, s))"

definition sys_blksszget :: "nat \<Rightarrow> (os, errno + nat) state" where
  "sys_blksszget fd = with_fd fd (\<lambda>d r s.
     (case fd_node d of Blk p \<Rightarrow> Inr (lsz p) | _ \<Rightarrow> Inl ENOTTY, s))"

text \<open>\<open>F_GETFL\<close> and \<open>F_SETFL\<close>, of which the sources only look at and change \<open>O_DIRECT\<close>.\<close>

definition sys_getfl_direct :: "nat \<Rightarrow> (os, errno + bool) state" where
  "sys_getfl_direct fd = with_fd fd (\<lambda>d r s. (Inr (fd_direct d), s))"

definition sys_setfl_direct :: "nat \<Rightarrow> bool \<Rightarrow> (os, errno + unit) state" where
  "sys_setfl_direct fd b = with_fd fd (\<lambda>d r s.
     (Inr (), s\<lparr>fds := (fds s)(fd \<mapsto> d\<lparr>fd_direct := b\<rparr>)\<rparr>))"

text \<open>
  A transfer of \<open>n\<close> bytes at \<open>off\<close> moves at most what the device has there and may be shortened.  Direct
  transfers must be aligned to the logical block size.
\<close>

definition transfer :: "reply \<Rightarrow> nat \<Rightarrow> nat \<Rightarrow> nat \<Rightarrow> nat" where
  "transfer r n off sz = (case r of Short k \<Rightarrow> min k (min n (sz - off)) | _ \<Rightarrow> min n (sz - off))"

definition misaligned :: "fdesc \<Rightarrow> part \<Rightarrow> nat \<Rightarrow> nat \<Rightarrow> bool" where
  "misaligned d p n off \<longleftrightarrow> fd_direct d \<and> (n mod lsz p \<noteq> 0 \<or> off mod lsz p \<noteq> 0)"

definition sys_pread :: "nat \<Rightarrow> nat \<Rightarrow> nat \<Rightarrow> (os, errno + bytes) state" where
  "sys_pread fd n off = with_fd fd (\<lambda>d r s.
     (case fd_node d of
        Blk p \<Rightarrow>
          if misaligned d p n off then Inl EINVAL
          else Inr (bslice off (transfer r n off (psize p)) (region s p))
      | _ \<Rightarrow> Inl EINVAL, s))"

definition sys_pwrite :: "nat \<Rightarrow> bytes \<Rightarrow> nat \<Rightarrow> (os, errno + nat) state" where
  "sys_pwrite fd bs off = with_fd fd (\<lambda>d r s.
     case fd_node d of
       Blk p \<Rightarrow>
         if \<not> fd_rdwr d then (Inl EBADF, s)
         else if misaligned d p (length bs) off then (Inl EINVAL, s)
         else if psize p \<le> off then (Inl ENOSPC, s)
         else (let n = transfer r (length bs) off (psize p)
               in (Inr n, write_disk p off (take n bs) s))
     | _ \<Rightarrow> (Inl EINVAL, s))"

definition sys_fsync :: "nat \<Rightarrow> (os, errno + unit) state" where
  "sys_fsync fd = with_fd fd (\<lambda>d r s.
     case fd_node d of
       Blk p \<Rightarrow> (Inr (), s\<lparr>stable := (stable s)(disk p :=
                   patch (pstart p) (region s p) (stable s (disk p)))\<rparr>)
     | _ \<Rightarrow> (Inr (), s))"

subsection \<open>Mounting and the write gate\<close>

definition sys_mkdir :: "string \<Rightarrow> (os, errno + unit) state" where
  "sys_mkdir path = syscall (or_fail (\<lambda>r s.
     if nodes s path \<noteq> None then (Inl EEXIST, s)
     else (Inr (), s\<lparr>nodes := (nodes s)(path \<mapsto> Dir)\<rparr>)))"

definition sys_mount :: "string \<Rightarrow> string \<Rightarrow> (os, errno + unit) state" where
  "sys_mount dev mp = syscall (or_fail (\<lambda>r s.
     case nodes s dev of
       Some (Blk p) \<Rightarrow>
         if nodes s mp \<noteq> Some Dir then (Inl ENOTDIR, s)
         else if map_of (mounts s) mp \<noteq> None \<or> held_excl s (rdev p) then (Inl EBUSY, s)
         else (Inr (), s\<lparr>mounts := (mp, p) # mounts s, gate := (gate s)(mp := False)\<rparr>)
     | Some nd \<Rightarrow> (Inl ENOTBLK, s)
     | None \<Rightarrow> (Inl ENOENT, s)))"

definition sys_umount2 :: "string \<Rightarrow> (os, errno + unit) state" where
  "sys_umount2 mp = syscall (or_fail (\<lambda>r s.
     if map_of (mounts s) mp = None then (Inl EINVAL, s)
     else (Inr (), s\<lparr>mounts := filter (\<lambda>m. fst m \<noteq> mp) (mounts s)\<rparr>)))"

text \<open>
  \<open>FAT_IOCTL_DISABLE_WRITE\<close>, answered by \<open>fat_disable_write\<close> of the patched file system: the gate closes, and a
  failing flush opens it again.
\<close>

definition sys_fat_disable_write :: "nat \<Rightarrow> (os, errno + unit) state" where
  "sys_fat_disable_write fd = syscall (\<lambda>r s.
     case fds s fd of
       None \<Rightarrow> (Inl EBADF, s)
     | Some d \<Rightarrow>
         (case map_of (mounts s) (fd_path d) of
            None \<Rightarrow> (Inl ENOTTY, s)
          | Some p \<Rightarrow>
              (case r of
                 Err e \<Rightarrow> (Inl e, s\<lparr>gate := (gate s)(fd_path d := False)\<rparr>)
               | _ \<Rightarrow> (Inr (), s\<lparr>gate := (gate s)(fd_path d := True)\<rparr>))))"

subsection \<open>Pseudo files, the service manager and time\<close>

text \<open>
  A numeric pseudo file of \<^verbatim>\<open>/proc\<close> or \<^verbatim>\<open>/sys\<close> holds one unsigned number; \<open>fopen\<close>, one conversion and \<open>fclose\<close>
  are separate calls, each of which may fail.  Streams are not entries of the descriptor table.
\<close>

definition sys_fopen :: "string \<Rightarrow> (os, errno + unit) state" where
  "sys_fopen path = syscall (or_fail (\<lambda>r s.
     (if numfiles s path = None then Inl ENOENT else Inr (), s)))"

definition sys_fscanf :: "string \<Rightarrow> (os, errno + nat) state" where
  "sys_fscanf path = syscall (or_fail (\<lambda>r s.
     (case numfiles s path of None \<Rightarrow> Inl EIO | Some n \<Rightarrow> Inr n, s)))"

definition sys_ok :: "(os, errno + unit) state" where
  "sys_ok = syscall (or_fail (\<lambda>r s. (Inr (), s)))"

text \<open>
  The two dirty limits of the kernel can each be set as a ratio or in bytes.  Writing one form makes the other read as zero.
\<close>

definition counterpart :: "string \<Rightarrow> string option" where
  "counterpart path = map_of
     [(''/proc/sys/vm/dirty_ratio'', ''/proc/sys/vm/dirty_bytes''),
      (''/proc/sys/vm/dirty_bytes'', ''/proc/sys/vm/dirty_ratio''),
      (''/proc/sys/vm/dirty_background_ratio'', ''/proc/sys/vm/dirty_background_bytes''),
      (''/proc/sys/vm/dirty_background_bytes'', ''/proc/sys/vm/dirty_background_ratio'')] path"

definition set_number :: "string \<Rightarrow> nat \<Rightarrow> (string \<Rightarrow> nat option) \<Rightarrow> string \<Rightarrow> nat option" where
  "set_number path n m =
     (case counterpart path of
        None \<Rightarrow> m
      | Some q \<Rightarrow> (case m q of None \<Rightarrow> m | Some _ \<Rightarrow> m(q \<mapsto> 0)))(path \<mapsto> n)"

text \<open>A value printed to a stream is buffered and reaches the file when the stream is closed.\<close>

definition sys_fclose_write :: "string \<Rightarrow> nat option \<Rightarrow> (os, errno + unit) state" where
  "sys_fclose_write path buffered = syscall (or_fail (\<lambda>r s.
     (Inr (), case buffered of None \<Rightarrow> s | Some n \<Rightarrow> s\<lparr>numfiles := set_number path n (numfiles s)\<rparr>)))"

definition sys_realpath :: "string \<Rightarrow> (os, errno + string) state" where
  "sys_realpath path = syscall (or_fail (\<lambda>r s.
     (case links s path of None \<Rightarrow> Inl ENOENT | Some q \<Rightarrow> Inr q, s)))"

definition sd_notify_ready :: "(os, errno + unit) state" where
  "sd_notify_ready = syscall (or_fail (\<lambda>r s. (Inr (), s\<lparr>ready := True\<rparr>)))"

definition bus_unit_property :: "string \<Rightarrow> string \<Rightarrow> (os, errno + string) state" where
  "bus_unit_property u prop = syscall (or_fail (\<lambda>r s.
     (Inr (case r of Text t \<Rightarrow> t | _ \<Rightarrow> unit_state s u prop), s)))"

definition bus_kill_unit :: "string \<Rightarrow> (os, errno + unit) state" where
  "bus_kill_unit u = syscall (or_fail (\<lambda>r s. (Inr (), s\<lparr>signalled := signalled s @ [u]\<rparr>)))"

definition sys_clock :: "(os, errno + nat) state" where
  "sys_clock = syscall (or_fail (\<lambda>r s. (Inr (now s), s)))"

definition sys_usleep :: "nat \<Rightarrow> (os, unit) state" where
  "sys_usleep us = syscall (\<lambda>r s. ((), s\<lparr>now := now s + us * 1000\<rparr>))"

end
