(* ===== verification/Os_Frame.thy ===== *)
theory Os_Frame
  imports Os_Model
begin

text \<open>
  What the calls of \<open>Os_Model\<close> leave alone.  \<open>world W\<close> relates two states that agree on everything but the
  descriptor table, the script, the clock and the parts in \<open>W\<close> or reachable by file-system writeback;
  \<open>fd_frame\<close> relates two states with the same open descriptors up to the \<open>O_DIRECT\<close> flag.  Both are
  reflexive and transitive, so they compose along a do-block by the lemmas of the locale \<open>os_frame\<close>,
  interpreted here for each of them.
\<close>

named_theorems sys_defs \<open>definitions of the calls\<close>

lemmas [sys_defs] = syscall_def or_fail_def with_fd_def

subsection \<open>Well-formed states, quiet parts\<close>

definition in_disk :: "os \<Rightarrow> part \<Rightarrow> bool" where
  "in_disk s p \<longleftrightarrow> pstart p + psize p \<le> length (disks s (disk p)) \<and>
     length (stable s (disk p)) = length (disks s (disk p))"

definition apart :: "part \<Rightarrow> part \<Rightarrow> bool" where
  "apart p q \<longleftrightarrow> disk p \<noteq> disk q \<or> pstart p + psize p \<le> pstart q \<or> pstart q + psize q \<le> pstart p"

definition quiet :: "os \<Rightarrow> part \<Rightarrow> bool" where
  "quiet s p \<longleftrightarrow> (\<forall>(m, q) \<in> set (mounts s). shut s m \<or> apart p q)"

definition wf_os :: "os \<Rightarrow> bool" where
  "wf_os s \<longleftrightarrow> (\<forall>path p. nodes s path = Some (Blk p) \<longrightarrow> in_disk s p) \<and>
     (\<forall>(m, p) \<in> set (mounts s). in_disk s p) \<and>
     (\<forall>fd f p. fds s fd = Some f \<longrightarrow> fd_node f = Blk p \<longrightarrow> in_disk s p) \<and>
     (\<forall>fd \<ge> next_fd s. fds s fd = None)"

definition statics :: "os \<Rightarrow> (string \<Rightarrow> node option) \<times> (string \<times> part) list \<times> (string \<Rightarrow> bool) \<times>
    (string \<Rightarrow> nat) \<times> (string \<Rightarrow> nat option) \<times> (string \<Rightarrow> string option) \<times>
    (string \<Rightarrow> string \<Rightarrow> string) \<times> string list \<times> bool \<times> (string \<Rightarrow> bool)" where
  "statics s = (nodes s, mounts s, gate s, home_dev s, numfiles s, links s, unit_state s, signalled s, ready s, leaky s)"

definition world :: "part set \<Rightarrow> os \<Rightarrow> os \<Rightarrow> bool" where
  "world W s s' \<longleftrightarrow> (wf_os s \<longrightarrow> wf_os s' \<and> statics s' = statics s \<and> now s \<le> now s' \<and>
     (\<exists>k. env s' = drop k (env s)) \<and>
     (\<forall>d. length (disks s' d) = length (disks s d) \<and> length (stable s' d) = length (stable s d)) \<and>
     (\<forall>p. in_disk s p \<and> quiet s p \<and> (\<forall>q \<in> W. apart p q) \<longrightarrow>
        region s' p = region s p \<and> stable_region s' p = stable_region s p))"

definition fd_core :: "fdesc \<Rightarrow> fdesc" where
  "fd_core f = f\<lparr>fd_direct := False\<rparr>"

definition fd_frame :: "os \<Rightarrow> os \<Rightarrow> bool" where
  "fd_frame s s' \<longleftrightarrow> next_fd s \<le> next_fd s' \<and>
     (\<forall>fd. map_option fd_core (fds s' fd) = map_option fd_core (fds s fd))"

definition fd_part :: "os \<Rightarrow> nat \<Rightarrow> part option" where
  "fd_part s fd = (case fds s fd of Some f \<Rightarrow> (case fd_node f of Blk p \<Rightarrow> Some p | _ \<Rightarrow> None) | None \<Rightarrow> None)"

subsection \<open>Regions under writes\<close>

lemma apart_sym: "apart p q \<longleftrightarrow> apart q p"
  by (auto simp: apart_def)

lemma length_region: "in_disk s p \<Longrightarrow> length (region s p) = psize p"
  by (auto simp: region_def in_disk_def)

lemma length_stable_region: "in_disk s p \<Longrightarrow> length (stable_region s p) = psize p"
  by (auto simp: stable_region_def in_disk_def)

lemma region_write_disk:
  "in_disk s p \<Longrightarrow> off + length bs \<le> psize p \<Longrightarrow> region (write_disk p off bs s) p = patch off bs (region s p)"
  by (simp add: region_def write_disk_def in_disk_def slice_patch_wrap)

lemma region_write_disk_apart:
  assumes "in_disk s q" and "off + length bs \<le> psize q" and "apart p q" and "in_disk s p"
  shows "region (write_disk q off bs s) p = region s p"
  using assms
  by (auto simp: region_def write_disk_def in_disk_def apart_def slice_patch_before slice_patch_after)

lemma write_disk_fields [simp]:
  "nodes (write_disk p off bs s) = nodes s" "mounts (write_disk p off bs s) = mounts s"
  "gate (write_disk p off bs s) = gate s" "fds (write_disk p off bs s) = fds s"
  "next_fd (write_disk p off bs s) = next_fd s" "env (write_disk p off bs s) = env s"
  "now (write_disk p off bs s) = now s" "stable (write_disk p off bs s) = stable s"
  "statics (write_disk p off bs s) = statics s"
  by (simp_all add: write_disk_def statics_def)

lemma length_disks_write_disk [simp]:
  "in_disk s p \<Longrightarrow> off + length bs \<le> psize p \<Longrightarrow> length (disks (write_disk p off bs s) d) = length (disks s d)"
  by (simp add: write_disk_def in_disk_def)

lemma stable_region_write_disk [simp]: "stable_region (write_disk p off bs s) q = stable_region s q"
  by (simp add: stable_region_def)

lemma in_disk_cong:
  "(\<And>d. length (disks s' d) = length (disks s d)) \<Longrightarrow> (\<And>d. length (stable s' d) = length (stable s d)) \<Longrightarrow>
     in_disk s' p = in_disk s p"
  by (simp add: in_disk_def)

lemma quiet_cong: "statics s' = statics s \<Longrightarrow> quiet s' p = quiet s p"
  by (simp add: quiet_def statics_def shut_def)

lemma wf_os_cong:
  assumes "wf_os s" and "statics s' = statics s" and "fds s' = fds s" and "next_fd s' = next_fd s"
    and "\<And>d. length (disks s' d) = length (disks s d)" and "\<And>d. length (stable s' d) = length (stable s d)"
  shows "wf_os s'"
  using assms by (simp add: wf_os_def statics_def in_disk_cong [OF assms(5,6)])

subsection \<open>The two frames\<close>

lemma world_refl: "world W s s"
  by (auto simp: world_def intro: exI [of _ 0])

lemma world_trans:
  assumes st: "world W s t" and tu: "world W t u"
  shows "world W s u"
  unfolding world_def
proof (intro impI)
  assume wf: "wf_os s"
  with st have t: "wf_os t" "statics t = statics s" "now s \<le> now t" "\<exists>k. env t = drop k (env s)"
    "\<And>d. length (disks t d) = length (disks s d)" "\<And>d. length (stable t d) = length (stable s d)"
    "\<And>p. in_disk s p \<and> quiet s p \<and> (\<forall>q \<in> W. apart p q) \<Longrightarrow>
       region t p = region s p \<and> stable_region t p = stable_region s p"
    unfolding world_def by auto
  with tu have u: "wf_os u" "statics u = statics t" "now t \<le> now u" "\<exists>k. env u = drop k (env t)"
    "\<And>d. length (disks u d) = length (disks t d)" "\<And>d. length (stable u d) = length (stable t d)"
    "\<And>p. in_disk t p \<and> quiet t p \<and> (\<forall>q \<in> W. apart p q) \<Longrightarrow>
       region u p = region t p \<and> stable_region u p = stable_region t p"
    unfolding world_def by auto
  have "\<exists>k. env u = drop k (env s)"
    using t(4) u(4) by (auto simp: drop_drop)
  moreover have "region u p = region s p \<and> stable_region u p = stable_region s p"
    if "in_disk s p \<and> quiet s p \<and> (\<forall>q \<in> W. apart p q)" for p
    using t(7) [OF that] u(7) [of p] that in_disk_cong [OF t(5,6)] quiet_cong [OF t(2)] by auto
  ultimately show "wf_os u \<and> statics u = statics s \<and> now s \<le> now u \<and> (\<exists>k. env u = drop k (env s)) \<and>
     (\<forall>d. length (disks u d) = length (disks s d) \<and> length (stable u d) = length (stable s d)) \<and>
     (\<forall>p. in_disk s p \<and> quiet s p \<and> (\<forall>q \<in> W. apart p q) \<longrightarrow>
        region u p = region s p \<and> stable_region u p = stable_region s p)"
    using t u by auto
qed

lemma world_mono: "world W s s' \<Longrightarrow> W \<subseteq> V \<Longrightarrow> world V s s'"
  unfolding world_def by blast

lemma fd_frame_refl: "fd_frame s s"
  by (simp add: fd_frame_def)

lemma fd_frame_trans: "fd_frame s t \<Longrightarrow> fd_frame t u \<Longrightarrow> fd_frame s u"
  by (simp add: fd_frame_def)

subsection \<open>The rest of the machine respects the frames\<close>

lemma world_write_disk:
  assumes "in_disk s q" and "off + length bs \<le> psize q" and "q \<in> W \<or> (\<exists>m. (m, q) \<in> set (mounts s) \<and> \<not> shut s m)"
  shows "world W s (write_disk q off bs s)"
  unfolding world_def
proof (intro impI conjI allI)
  fix p
  assume "in_disk s p \<and> quiet s p \<and> (\<forall>q \<in> W. apart p q)"
  moreover from this have "apart p q"
    using assms(3) by (auto simp: quiet_def)
  ultimately show "region (write_disk q off bs s) p = region s p"
    using region_write_disk_apart assms(1,2) by blast
next
  assume "wf_os s"
  then show "wf_os (write_disk q off bs s)"
    by (rule wf_os_cong) (use assms in simp_all)
next
  show "\<exists>k. env (write_disk q off bs s) = drop k (env s)"
    by (auto intro: exI [of _ 0])
qed (use assms in simp_all)

lemma world_writeback: "world W s (writeback mp off bs s)"
proof (cases "map_of (mounts s) mp")
  case (Some p)
  then have m: "(mp, p) \<in> set (mounts s)" by (rule map_of_SomeD)
  have "world W s (write_disk p off bs s)" if "\<not> shut s mp" "off + length bs \<le> psize p"
  proof (cases "wf_os s")
    case True
    with m have "in_disk s p" by (auto simp: wf_os_def)
    with that m show ?thesis by (intro world_write_disk) auto
  qed (simp add: world_def)
  with Some show ?thesis
    by (auto simp: writeback_def world_refl not_less)
qed (simp add: writeback_def world_refl)

lemma world_env_now:
  assumes "\<exists>k. e = drop k (env s)" and "now s \<le> n"
  shows "world W s (s\<lparr>env := e, now := n\<rparr>)"
  using assms by (auto simp: world_def wf_os_def in_disk_def statics_def region_def stable_region_def)

lemma fd_frame_same: "fds s' = fds s \<Longrightarrow> next_fd s' = next_fd s \<Longrightarrow> fd_frame s s'"
  by (simp add: fd_frame_def)

lemma writeback_fields [simp]:
  "fds (writeback mp off bs s) = fds s" "next_fd (writeback mp off bs s) = next_fd s"
  "env (writeback mp off bs s) = env s" "statics (writeback mp off bs s) = statics s"
  "now (writeback mp off bs s) = now s"
  by (simp_all add: writeback_def split: option.split)

lemma world_tick: "world W s (snd (tick s))"
proof (cases "env s")
  case (Cons r rs)
  have "\<exists>k. rs = drop k (env s)"
    using Cons by (auto intro: exI [of _ 1])
  then have step: "world W s (s\<lparr>env := rs, now := now s + n\<rparr>)" for n
    by (intro world_env_now) auto
  have step0: "world W s (s\<lparr>env := rs\<rparr>)"
    using step [of 0] by simp
  have wb: "world W s (writeback mp off bs (s\<lparr>env := rs\<rparr>))" for mp off bs
    using step0 world_writeback by (rule world_trans)
  show ?thesis
    using step step0 wb by (simp add: tick_def Cons split: reply.split)
qed (simp add: tick_def world_refl)

lemma tick_fds [simp]: "fds (snd (tick s)) = fds s" "next_fd (snd (tick s)) = next_fd s"
  by (simp_all add: tick_def split: list.split reply.split)

lemma statics_update [simp]:
  "statics (s\<lparr>env := e\<rparr>) = statics s" "statics (s\<lparr>now := n\<rparr>) = statics s"
  "statics (s\<lparr>fds := f\<rparr>) = statics s" "statics (s\<lparr>next_fd := i\<rparr>) = statics s"
  "statics (s\<lparr>stable := m\<rparr>) = statics s"
  by (simp_all add: statics_def)

lemma tick_statics [simp]: "statics (snd (tick s)) = statics s"
  by (simp add: tick_def split: list.split reply.split)

lemma tick_fields [simp]:
  "nodes (snd (tick s)) = nodes s" "mounts (snd (tick s)) = mounts s" "gate (snd (tick s)) = gate s"
  "numfiles (snd (tick s)) = numfiles s" "links (snd (tick s)) = links s" "home_dev (snd (tick s)) = home_dev s"
  "signalled (snd (tick s)) = signalled s" "ready (snd (tick s)) = ready s" "leaky (snd (tick s)) = leaky s"
  using tick_statics [of s] by (simp_all add: statics_def)

lemma fd_frame_tick: "fd_frame s (snd (tick s))"
  by (rule fd_frame_same) simp_all

subsection \<open>Composition\<close>

locale os_frame = frame_relation R for R :: "os \<Rightarrow> os \<Rightarrow> bool" +
  assumes frame_tick: "R s (snd (tick s))"
begin

lemma keeps_syscall: "(\<And>r s. R s (snd (f r s))) \<Longrightarrow> keeps R (syscall f)"
  unfolding keeps_def syscall_def
  by (auto split: prod.splits) (metis frame_tick frame_trans snd_conv)

lemma keeps_query: "(\<And>r s. snd (f r s) = s) \<Longrightarrow> keeps R (syscall f)"
  by (rule keeps_syscall) (simp add: frame_refl)

lemma keeps_fallible: "(\<And>r s. R s (snd (f r s))) \<Longrightarrow> keeps R (syscall (or_fail f))"
  by (rule keeps_syscall) (auto simp: or_fail_def frame_refl split: reply.split)

lemma keeps_with_fd: "(\<And>d r s. fds s fd = Some d \<Longrightarrow> R s (snd (f d r s))) \<Longrightarrow> keeps R (with_fd fd f)"
  unfolding with_fd_def by (rule keeps_fallible) (auto simp: frame_refl split: option.split)

lemma keeps_queries:
  "keeps R (sys_stat path)" "keeps R (sys_fstat fd)" "keeps R (sys_blkgetsize64 fd)"
  "keeps R (sys_blksszget fd)" "keeps R (sys_getfl_direct fd)" "keeps R (sys_pread fd n off)"
  "keeps R (sys_fopen path)" "keeps R (sys_fscanf path)" "keeps R sys_ok" "keeps R (sys_realpath path)"
  "keeps R (bus_unit_property u prop)" "keeps R sys_clock"
  unfolding sys_stat_def sys_fstat_def sys_blkgetsize64_def sys_blksszget_def sys_getfl_direct_def
    sys_pread_def sys_fopen_def sys_fscanf_def sys_ok_def sys_realpath_def bus_unit_property_def sys_clock_def
  by (auto intro!: keeps_with_fd keeps_fallible simp: frame_refl)

end

locale os_io = os_frame R for R :: "os \<Rightarrow> os \<Rightarrow> bool" +
  assumes frame_setfl: "fds s fd = Some d \<Longrightarrow> R s (s\<lparr>fds := (fds s)(fd \<mapsto> d\<lparr>fd_direct := b\<rparr>)\<rparr>)"
begin

lemma keeps_setfl: "keeps R (sys_setfl_direct fd b)"
  unfolding sys_setfl_direct_def by (rule keeps_with_fd) (simp add: frame_setfl)

end

lemma world_setfl: "fds s fd = Some d \<Longrightarrow> world W s (s\<lparr>fds := (fds s)(fd \<mapsto> d\<lparr>fd_direct := b\<rparr>)\<rparr>)"
  by (auto simp: world_def wf_os_def in_disk_def region_def stable_region_def intro: exI [of _ 0])

lemma fd_frame_setfl: "fds s fd = Some d \<Longrightarrow> fd_frame s (s\<lparr>fds := (fds s)(fd \<mapsto> d\<lparr>fd_direct := b\<rparr>)\<rparr>)"
  by (simp add: fd_frame_def fd_core_def)

interpretation world: os_io "world W" for W
  by unfold_locales (fact world_refl world_trans world_tick world_setfl)+

interpretation fdf: os_io fd_frame
  by unfold_locales (fact fd_frame_refl fd_frame_trans fd_frame_tick fd_frame_setfl)+

lemma world_fsync:
  assumes "in_disk s p"
  shows "world {p} s (s\<lparr>stable := (stable s)(disk p := patch (pstart p) (region s p) (stable s (disk p)))\<rparr>)"
    (is "world {p} s ?s'")
  unfolding world_def
proof (intro impI conjI allI)
  have len: "length (stable ?s' d) = length (stable s d)" for d
    using assms length_region [OF assms] by (simp add: in_disk_def)
  then show "length (stable ?s' d) = length (stable s d)" for d .
  show "wf_os ?s'" if "wf_os s"
    using that by (rule wf_os_cong) (use len in simp_all)
  show "stable_region ?s' q = stable_region s q" if "in_disk s q \<and> quiet s q \<and> (\<forall>p \<in> {p}. apart q p)" for q
    using that assms length_region [OF assms]
    by (auto simp: stable_region_def in_disk_def apart_def slice_patch_before slice_patch_after)
  show "\<exists>k. env ?s' = drop k (env s)" by (auto intro: exI [of _ 0])
qed (simp_all add: region_def)

subsection \<open>Using the frames\<close>

lemma fd_part_Some: "fd_part s fd = Some p \<longleftrightarrow> (\<exists>f. fds s fd = Some f \<and> fd_node f = Blk p)"
  by (auto simp: fd_part_def split: option.split node.split)

lemma fd_part_core: "fd_part s fd =
    (case map_option fd_core (fds s fd) of Some f \<Rightarrow> (case fd_node f of Blk p \<Rightarrow> Some p | _ \<Rightarrow> None) | None \<Rightarrow> None)"
  by (simp add: fd_part_def fd_core_def split: option.split)

lemma fd_frame_part: "fd_frame s s' \<Longrightarrow> fd_part s' fd = fd_part s fd"
  by (simp add: fd_part_core fd_frame_def)

lemma fd_frame_dom: "fd_frame s s' \<Longrightarrow> fds s' fd = None \<longleftrightarrow> fds s fd = None"
  unfolding fd_frame_def by (metis map_option_is_None)

lemma wf_fd_part: "wf_os s \<Longrightarrow> fd_part s fd = Some p \<Longrightarrow> in_disk s p"
  by (auto simp: fd_part_Some wf_os_def)

lemma wf_node: "wf_os s \<Longrightarrow> nodes s path = Some (Blk p) \<Longrightarrow> in_disk s p"
  by (auto simp: wf_os_def)

lemma world_wf: "world W s s' \<Longrightarrow> wf_os s \<Longrightarrow> wf_os s'"
  by (simp add: world_def)

lemma world_statics: "world W s s' \<Longrightarrow> wf_os s \<Longrightarrow> statics s' = statics s"
  by (simp add: world_def)

lemma world_fields:
  assumes "world W s s'" and "wf_os s"
  shows "nodes s' = nodes s" "mounts s' = mounts s" "gate s' = gate s" "numfiles s' = numfiles s"
    "links s' = links s" "signalled s' = signalled s" "home_dev s' = home_dev s" "ready s' = ready s" "leaky s' = leaky s"
  using world_statics [OF assms] by (simp_all add: statics_def)

lemma world_in_disk: "world W s s' \<Longrightarrow> wf_os s \<Longrightarrow> in_disk s' p = in_disk s p"
  by (simp add: world_def in_disk_def)

lemma world_quiet: "world W s s' \<Longrightarrow> wf_os s \<Longrightarrow> quiet s' p = quiet s p"
  using quiet_cong world_statics by blast

lemma world_region:
  "world W s s' \<Longrightarrow> wf_os s \<Longrightarrow> in_disk s p \<Longrightarrow> quiet s p \<Longrightarrow> (\<And>q. q \<in> W \<Longrightarrow> apart p q) \<Longrightarrow> region s' p = region s p"
  by (simp add: world_def)

lemma world_stable_region:
  "world W s s' \<Longrightarrow> wf_os s \<Longrightarrow> in_disk s p \<Longrightarrow> quiet s p \<Longrightarrow> (\<And>q. q \<in> W \<Longrightarrow> apart p q) \<Longrightarrow>
     stable_region s' p = stable_region s p"
  by (simp add: world_def)

lemma tick_run: "tick s = (r, t) \<Longrightarrow> fds t = fds s" "tick s = (r, t) \<Longrightarrow> next_fd t = next_fd s"
  by (metis snd_conv tick_fds)+

lemma with_fd_InrD:
  assumes "run_state (with_fd fd f) s = (Inr x, s')"
  obtains d where "fds s fd = Some d" "f d (fst (tick s)) (snd (tick s)) = (Inr x, s')"
proof (cases "fds s fd")
  case None
  with assms have False
    by (auto simp: with_fd_def syscall_def or_fail_def dest: tick_run split: prod.splits reply.splits option.splits)
  then show ?thesis ..
next
  case (Some d)
  with assms have "f d (fst (tick s)) (snd (tick s)) = (Inr x, s')"
    by (auto simp: with_fd_def syscall_def or_fail_def tick_run split: prod.splits reply.splits)
  with Some that show ?thesis by blast
qed

lemma syscall_InrD:
  assumes "run_state (syscall (or_fail f)) s = (Inr x, s')"
  shows "f (fst (tick s)) (snd (tick s)) = (Inr x, s')"
  using assms by (auto simp: syscall_def or_fail_def split: prod.splits reply.splits)

definition no_loss :: "os \<Rightarrow> bool" where
  "no_loss s \<longleftrightarrow> (\<forall>r \<in> set (env s). case r of Lost k \<Rightarrow> False | _ \<Rightarrow> True)"

lemma world_no_loss: "world W s s' \<Longrightarrow> wf_os s \<Longrightarrow> no_loss s \<Longrightarrow> no_loss s'"
  unfolding world_def no_loss_def by (metis in_set_dropD)

lemma sys_fsync_spec:
  assumes run: "run_state (sys_fsync fd) s = (r, s')" and p: "fd_part s fd = Some p" and wf: "wf_os s"
  shows "world {p} s s' \<and> fd_frame s s'" and "r = Inr () \<Longrightarrow> stable_region s' p = region s' p"
    and "quiet s p \<Longrightarrow> region s' p = region s p"
proof -
  obtain rp t where tick: "tick s = (rp, t)" by (cases "tick s")
  obtain d where d: "fds s fd = Some d" "fd_node d = Blk p" using p by (auto simp: fd_part_Some)
  let ?u = "t\<lparr>stable := (stable t)(disk p := patch (pstart p) (region t p) (stable t (disk p)))\<rparr>"
  have t: "world W s t" "fds t = fds s" "next_fd t = next_fd s" for W
    using world_tick [of W s] tick_run [OF tick] by (simp_all add: tick)
  have ind: "in_disk s p" "in_disk t p"
    using wf_fd_part [OF wf p] world_in_disk [OF t(1) wf] by simp_all
  have "s' = t \<and> r \<noteq> Inr () \<or> s' = ?u"
    using run d t(2) by (auto simp: sys_fsync_def sys_defs tick split: reply.splits)
  then consider (a) "s' = t" "r \<noteq> Inr ()" | (b) "s' = ?u" by blast
  then show "world {p} s s' \<and> fd_frame s s'" and "r = Inr () \<Longrightarrow> stable_region s' p = region s' p"
    and "quiet s p \<Longrightarrow> region s' p = region s p"
  proof (atomize (full), cases)
    case a
    then show "(world {p} s s' \<and> fd_frame s s') \<and> (r = Inr () \<longrightarrow> stable_region s' p = region s' p) \<and>
        (quiet s p \<longrightarrow> region s' p = region s p)"
      using t ind wf by (auto intro: fd_frame_same world_region [of "{}"])
  next
    case b
    have "region ?u p = region t p" by (simp add: region_def)
    moreover have "stable_region ?u p = region t p"
      using ind(2) length_region [OF ind(2)] by (simp add: stable_region_def in_disk_def slice_patch_same)
    moreover have "world {p} s ?u"
      using world_trans [OF t(1) world_fsync [OF ind(2)]] .
    ultimately show "(world {p} s s' \<and> fd_frame s s') \<and> (r = Inr () \<longrightarrow> stable_region s' p = region s' p) \<and>
        (quiet s p \<longrightarrow> region s' p = region s p)"
      using b t ind wf by (auto intro: fd_frame_same world_region [of "{}"])
  qed
qed

subsection \<open>Readers\<close>

text \<open>\<open>reads s t\<close>: from \<open>s\<close> to \<open>t\<close> nothing has been written and no descriptor opened or closed.\<close>

definition reads :: "os \<Rightarrow> os \<Rightarrow> bool" where
  "reads s t \<longleftrightarrow> world {} s t \<and> fd_frame s t"

interpretation rd: os_io reads
  by unfold_locales
    (auto simp: reads_def world_refl fd_frame_refl world_tick fd_frame_tick world_setfl fd_frame_setfl
      intro: world_trans fd_frame_trans)

lemma reads_inv:
  assumes "reads s t" "wf_os s"
  shows "wf_os t" "fd_part t fd = fd_part s fd" "quiet t q = quiet s q" "in_disk t q = in_disk s q"
    "nodes t = nodes s" "mounts t = mounts s" "gate t = gate s" "numfiles t = numfiles s"
    "signalled t = signalled s" "no_loss s \<Longrightarrow> no_loss t"
    "in_disk s q \<Longrightarrow> quiet s q \<Longrightarrow> region t q = region s q"
    "in_disk s q \<Longrightarrow> quiet s q \<Longrightarrow> stable_region t q = stable_region s q" "ready t = ready s" "leaky t = leaky s"
  using assms unfolding reads_def
  by (auto simp: world_wf fd_frame_part world_quiet world_in_disk world_fields world_no_loss
      intro: world_region world_stable_region)

subsection \<open>Writers of one part\<close>

text \<open>\<open>writes p s t\<close>: from \<open>s\<close> to \<open>t\<close> at most the part \<open>p\<close> has been written and no descriptor opened or closed.\<close>

definition writes :: "part \<Rightarrow> os \<Rightarrow> os \<Rightarrow> bool" where
  "writes p s t \<longleftrightarrow> world {p} s t \<and> fd_frame s t"

lemma writes_refl: "writes p s s"
  by (simp add: writes_def world_refl fd_frame_refl)

lemma writes_trans: "writes p s t \<Longrightarrow> writes p t u \<Longrightarrow> writes p s u"
  unfolding writes_def by (blast intro: world_trans fd_frame_trans)

interpretation wr: os_io "writes p" for p
  by unfold_locales
    (auto simp: writes_def world_refl fd_frame_refl world_tick fd_frame_tick world_setfl fd_frame_setfl
      intro: world_trans fd_frame_trans)

lemma reads_writes: "reads s t \<Longrightarrow> writes p s t"
  unfolding reads_def writes_def by (blast intro: world_mono)

lemma writes_inv:
  assumes "writes p s t" "wf_os s"
  shows "wf_os t" "fd_part t fd = fd_part s fd" "quiet t q = quiet s q" "in_disk t q = in_disk s q"
    "nodes t = nodes s" "mounts t = mounts s" "gate t = gate s" "numfiles t = numfiles s"
    "signalled t = signalled s" "no_loss s \<Longrightarrow> no_loss t" "ready t = ready s" "leaky t = leaky s"
  using assms unfolding writes_def
  by (auto simp: world_wf fd_frame_part world_quiet world_in_disk world_fields world_no_loss)

text \<open>The same for the calls whose effect depends on what the descriptor is open on.\<close>

definition writer :: "nat \<Rightarrow> part \<Rightarrow> os \<Rightarrow> os \<Rightarrow> bool" where
  "writer fd p s t \<longleftrightarrow> writes p s t \<and> wf_os t \<and> fd_part t fd = Some p"

lemma writer_pres:
  assumes "\<And>t u r. wf_os t \<Longrightarrow> fd_part t fd = Some p \<Longrightarrow> run_state m t = (r, u) \<Longrightarrow> writes p t u"
  shows "pres (writer fd p s) m"
proof (rule presI)
  fix t r u
  assume t: "writer fd p s t" and run: "run_state m t = (r, u)"
  then have "writes p t u" using assms by (auto simp: writer_def)
  with t show "writer fd p s u"
    unfolding writer_def using writes_trans writes_inv(1,2) by metis
qed

lemma writer_keeps: "keeps (writes p) m \<Longrightarrow> pres (writer fd p s) m"
  by (rule writer_pres) (rule keepsD)

lemma writer_fsync: "pres (writer fd p s) (sys_fsync fd)"
  by (rule writer_pres) (simp add: writes_def sys_fsync_spec(1))

lemma writer_start: "wf_os s \<Longrightarrow> fd_part s fd = Some p \<Longrightarrow> writer fd p s s"
  by (simp add: writer_def writes_refl)

subsection \<open>Opening and closing\<close>

text \<open>
  \<open>opened W fd p s t\<close>: from \<open>s\<close> to \<open>t\<close> the descriptor \<open>fd\<close>, free before, has been opened on the part \<open>p\<close>, and
  otherwise at most the parts in \<open>W\<close> have been written.
\<close>

definition opened :: "part set \<Rightarrow> nat \<Rightarrow> part \<Rightarrow> os \<Rightarrow> os \<Rightarrow> bool" where
  "opened W fd p s t \<longleftrightarrow> world W s t \<and> fds s fd = None \<and> next_fd s \<le> next_fd t \<and> fd_part t fd = Some p \<and>
     (\<forall>x. x \<noteq> fd \<longrightarrow> map_option fd_core (fds t x) = map_option fd_core (fds s x))"

lemma opened_step:
  assumes "opened W fd p s t" and "world W t u" and "fd_frame t u"
  shows "opened W fd p s u"
  using assms world_trans fd_frame_part [OF assms(3)] by (auto simp: opened_def fd_frame_def)

lemma opened_reads: "opened W fd p s t \<Longrightarrow> reads t u \<Longrightarrow> opened W fd p s u"
  unfolding reads_def by (blast intro: opened_step world_mono)

lemma opened_writes: "opened W fd p s t \<Longrightarrow> writes q t u \<Longrightarrow> q \<in> W \<Longrightarrow> opened W fd p s u"
  unfolding writes_def by (blast intro: opened_step world_mono)

lemma opened_mono: "opened W fd p s t \<Longrightarrow> W \<subseteq> V \<Longrightarrow> opened V fd p s t"
  unfolding opened_def by (blast intro: world_mono)

lemma opened_inv:
  assumes "opened W fd p s t" and "wf_os s"
  shows "wf_os t" "fd_part t fd = Some p" "quiet t q = quiet s q" "in_disk t q = in_disk s q"
    "nodes t = nodes s" "mounts t = mounts s" "gate t = gate s" "in_disk s p" "no_loss s \<Longrightarrow> no_loss t"
    "in_disk s q \<Longrightarrow> quiet s q \<Longrightarrow> (\<And>w. w \<in> W \<Longrightarrow> apart q w) \<Longrightarrow> region t q = region s q"
    "in_disk s q \<Longrightarrow> quiet s q \<Longrightarrow> (\<And>w. w \<in> W \<Longrightarrow> apart q w) \<Longrightarrow> stable_region t q = stable_region s q"
proof -
  have w: "world W s t" and p: "fd_part t fd = Some p" using assms(1) by (simp_all add: opened_def)
  show "wf_os t" using w assms(2) by (rule world_wf)
  then show "in_disk s p" using wf_fd_part p world_in_disk [OF w assms(2)] by blast
qed (use assms in \<open>auto simp: opened_def world_quiet world_in_disk world_fields world_no_loss
      intro: world_region world_stable_region\<close>)

lemma world_close: "world W s (s\<lparr>fds := (fds s)(fd := None)\<rparr>)"
  by (auto simp: world_def wf_os_def in_disk_def region_def stable_region_def intro: exI [of _ 0])

lemma sys_close_run:
  assumes "run_state (sys_close fd) s = (r, s')"
  shows "s' = (snd (tick s))\<lparr>fds := (fds s)(fd := None)\<rparr>"
  using assms by (auto simp: sys_close_def syscall_def fun_upd_idem dest: tick_run split: prod.splits if_splits)

lemma opened_close:
  assumes "opened W fd p s t" and "run_state (sys_close fd) t = (r, u)"
  shows "world W s u \<and> fd_frame s u"
proof
  have u: "u = (snd (tick t))\<lparr>fds := (fds (snd (tick t)))(fd := None)\<rparr>"
    using sys_close_run [OF assms(2)] by simp
  have "world W t u"
    unfolding u using world_trans [OF world_tick world_close] .
  with assms(1) show "world W s u"
    by (auto simp: opened_def intro: world_trans)
  show "fd_frame s u"
    using assms(1) by (auto simp: u opened_def fd_frame_def)
qed

lemma sys_open_spec:
  assumes run: "run_state (sys_open path flags) s = (r, s')" and wf: "wf_os s"
  obtains e where "r = Inl e" "reads s s'"
  | fd nd where "r = Inr fd" "nodes s path = Some nd" "world {} s s'" "fd = next_fd s" "next_fd s' = Suc fd"
      "fds s' = (fds s)(fd \<mapsto> \<lparr>fd_node = nd, fd_path = path, fd_rdwr = (O_RDWR \<in> set flags),
                  fd_direct = (O_DIRECT \<in> set flags), fd_excl = (O_EXCL \<in> set flags)\<rparr>)"
      "\<And>p. nd = Blk p \<Longrightarrow> O_EXCL \<in> set flags \<Longrightarrow> \<not> is_mounted s (rdev p)"
proof -
  obtain rp t where tick: "tick s = (rp, t)" by (cases "tick s")
  have t: "reads s t" "nodes t = nodes s" "mounts t = mounts s" "fds t = fds s" "next_fd t = next_fd s"
    using rd.frame_tick [of s, unfolded tick snd_conv] tick_fields(1,2) [of s, unfolded tick snd_conv]
      tick_fds [of s, unfolded tick snd_conv] .
  have cases: "(\<exists>e. r = Inl e \<and> s' = t) \<or>
      (\<exists>nd. nodes t path = Some nd \<and> (r, s') = map_prod Inr id (open_fd path flags nd t) \<and>
         (\<forall>p. nd = Blk p \<longrightarrow> O_EXCL \<in> set flags \<longrightarrow> \<not> is_mounted t (rdev p)))"
    using run unfolding sys_open_def
    by (auto simp: sys_defs tick split: reply.splits option.splits node.splits if_splits)
  show thesis
    using cases
  proof
    assume "\<exists>e. r = Inl e \<and> s' = t"
    with t(1) that(1) show thesis by blast
  next
    assume "\<exists>nd. nodes t path = Some nd \<and> (r, s') = map_prod Inr id (open_fd path flags nd t) \<and>
         (\<forall>p. nd = Blk p \<longrightarrow> O_EXCL \<in> set flags \<longrightarrow> \<not> is_mounted t (rdev p))"
    then obtain nd where nd: "nodes t path = Some nd" "(r, s') = map_prod Inr id (open_fd path flags nd t)"
      "\<And>p. nd = Blk p \<Longrightarrow> O_EXCL \<in> set flags \<Longrightarrow> \<not> is_mounted t (rdev p)" by blast
    have wt: "wf_os t" using reads_inv(1) [OF t(1) wf] .
    then have "in_disk t p" if "nd = Blk p" for p using nd(1) that by (auto simp: wf_os_def)
    then have "world {} t s'"
      using nd(2) wt by (auto simp: open_fd_def world_def wf_os_def in_disk_def region_def stable_region_def statics_def
          intro: exI [of _ 0])
    then have "world {} s s'"
      using t(1) world_trans by (auto simp: reads_def)
    then show thesis
      using nd t by (intro that(2)) (auto simp: open_fd_def is_mounted_def)
  qed
qed

end
