(* ===== verification/Common_Io.thy ===== *)
theory Common_Io
  imports Os_Frame
begin

text \<open>
  \<^verbatim>\<open>get_fd_size\<close>, \<^verbatim>\<open>pread_full\<close> and \<^verbatim>\<open>pwrite_full\<close> of \<^verbatim>\<open>common.c\<close>.  The two loops retry after \<open>EINTR\<close> and after a
  short transfer; they end because an interrupted call consumes one entry of the environment's script
  and a successful one moves at least one byte.  Descriptors are natural numbers, so the check for a
  negative one has no counterpart; neither have the checks for null output pointers.
\<close>

subsection \<open>Definitions\<close>

datatype exit_code = EXIT_OK | EXIT_HASH_MISMATCH | EXIT_METADATA_INVALID | EXIT_IO_ERROR
  | EXIT_DEVICE_BUSY | EXIT_NOMEM | EXIT_UNSUPPORTED_LAYOUT

fun exit_status :: "exit_code \<Rightarrow> int" where
  "exit_status EXIT_OK = 0"
| "exit_status EXIT_HASH_MISMATCH = 2"
| "exit_status EXIT_METADATA_INVALID = 3"
| "exit_status EXIT_IO_ERROR = 4"
| "exit_status EXIT_DEVICE_BUSY = 5"
| "exit_status EXIT_NOMEM = 6"
| "exit_status EXIT_UNSUPPORTED_LAYOUT = 7"

definition get_fd_size :: "nat \<Rightarrow> (os, errno + nat) state" where
  "get_fd_size fd = do {
     st \<leftarrow> sys_fstat fd;
     case st of
       Inl e \<Rightarrow> ret (Inl e)
     | Inr nd \<Rightarrow>
         (case nd of
            Blk p \<Rightarrow> sys_blkgetsize64 fd
          | Reg n \<Rightarrow> ret (Inr n)
          | _ \<Rightarrow> ret (Inl EINVAL))
   }"

lemma tick_env: "\<exists>k. env (snd (tick s)) = drop k (env s)"
proof (cases "env s")
  case (Cons r rs)
  then have "env (snd (tick s)) = drop 1 (env s)"
    by (simp add: tick_def split: reply.split)
  then show ?thesis ..
next
  case Nil
  then have "env (snd (tick s)) = drop 0 (env s)"
    by (simp add: tick_def)
  then show ?thesis ..
qed

lemma tick_Err_env: "fst (tick s) = Err e \<Longrightarrow> length (env (snd (tick s))) < length (env s)"
  by (auto simp: tick_def split: list.splits reply.splits)

lemma tick_env_le: "length (env (snd (tick s))) \<le> length (env s)"
  using tick_env [of s] by auto

lemma sys_pread_eintr:
  "run_state (sys_pread fd n off) s = (Inl EINTR, s') \<Longrightarrow> length (env s') < length (env s)"
  using tick_Err_env [of s EINTR]
  by (auto simp: sys_pread_def sys_defs split: prod.splits reply.splits option.splits node.splits if_splits)

lemma sys_pread_env: "run_state (sys_pread fd n off) s = (r, s') \<Longrightarrow> length (env s') \<le> length (env s)"
  using tick_env_le [of s]
  by (auto simp: sys_pread_def sys_defs split: prod.splits reply.splits option.splits node.splits if_splits)

lemma sys_pwrite_eintr:
  "run_state (sys_pwrite fd bs off) s = (Inl EINTR, s') \<Longrightarrow> length (env s') < length (env s)"
  using tick_Err_env [of s EINTR]
  by (auto simp: sys_pwrite_def sys_defs Let_def
      split: prod.splits reply.splits option.splits node.splits if_splits)

lemma sys_pwrite_env: "run_state (sys_pwrite fd bs off) s = (r, s') \<Longrightarrow> length (env s') \<le> length (env s)"
  using tick_env_le [of s]
  by (auto simp: sys_pwrite_def sys_defs Let_def
      split: prod.splits reply.splits option.splits node.splits if_splits)

text \<open>The loop of \<^verbatim>\<open>pread_full\<close>: \<open>p\<close> holds the bytes read so far, so \<^verbatim>\<open>done\<close> is its length.\<close>

function pread_full_loop :: "nat \<Rightarrow> nat \<Rightarrow> nat \<Rightarrow> bytes \<Rightarrow> os \<Rightarrow> (errno + bytes) \<times> os" where
  "pread_full_loop fd len offset p s =
     (if length p < len
      then (case run_state (sys_pread fd (len - length p) (offset + length p)) s of
              (Inl e, s') \<Rightarrow> if e = EINTR then pread_full_loop fd len offset p s' else (Inl e, s')
            | (Inr bs, s') \<Rightarrow>
                if bs = [] then (Inl EIO, s') else pread_full_loop fd len offset (p @ bs) s')
      else (Inr p, s))"
  by auto
termination
proof (relation "measure (\<lambda>(fd, len, offset, p, s). length (env s) + (len - length p))", goal_cases)
  case (2 fd len offset p s x s' e)
  then show ?case using sys_pread_eintr [of fd "len - length p" "offset + length p" s s'] by simp
next
  case (3 fd len offset p s x s' bs)
  then show ?case using sys_pread_env [of fd "len - length p" "offset + length p" s "Inr bs" s']
    by (cases bs) simp_all
qed simp

definition pread_full :: "nat \<Rightarrow> nat \<Rightarrow> nat \<Rightarrow> (os, errno + bytes) state" where
  "pread_full fd len offset = State (pread_full_loop fd len offset [])"

function pwrite_full_loop :: "nat \<Rightarrow> bytes \<Rightarrow> nat \<Rightarrow> nat \<Rightarrow> os \<Rightarrow> (errno + unit) \<times> os" where
  "pwrite_full_loop fd buf offset n s =
     (if n < length buf
      then (case run_state (sys_pwrite fd (drop n buf) (offset + n)) s of
              (Inl e, s') \<Rightarrow> if e = EINTR then pwrite_full_loop fd buf offset n s' else (Inl e, s')
            | (Inr c, s') \<Rightarrow>
                if c = 0 then (Inl EIO, s') else pwrite_full_loop fd buf offset (n + c) s')
      else (Inr (), s))"
  by auto
termination
proof (relation "measure (\<lambda>(fd, buf, offset, n, s). length (env s) + (length buf - n))", goal_cases)
  case (2 fd buf offset n s x s' e)
  then show ?case using sys_pwrite_eintr [of fd "drop n buf" "offset + n" s s'] by simp
next
  case (3 fd buf offset n s x s' c)
  then show ?case using sys_pwrite_env [of fd "drop n buf" "offset + n" s "Inr c" s'] by simp
qed simp

definition pwrite_full :: "nat \<Rightarrow> bytes \<Rightarrow> nat \<Rightarrow> (os, errno + unit) state" where
  "pwrite_full fd buf offset = State (pwrite_full_loop fd buf offset 0)"

declare pread_full_loop.simps [simp del] pwrite_full_loop.simps [simp del]

subsection \<open>What the calls leave alone\<close>

context os_frame
begin

lemma keeps_get_fd_size: "keeps R (get_fd_size fd)"
  unfolding get_fd_size_def
  by (intro keeps_intros keeps_queries) (auto intro: keeps_intros keeps_queries split: node.split)

lemma frame_pread_full_loop: "R s (snd (pread_full_loop fd len offset p s))"
proof (induction fd len offset p s rule: pread_full_loop.induct)
  case (1 fd len offset p s)
  obtain r s' where run: "run_state (sys_pread fd (len - length p) (offset + length p)) s = (r, s')"
    by (cases "run_state (sys_pread fd (len - length p) (offset + length p)) s")
  then have "R s s'"
    by (rule keepsD [OF keeps_queries(6)])
  with 1 run show ?case
    by (subst pread_full_loop.simps) (auto simp: frame_refl split: sum.split intro: frame_trans)
qed

lemma keeps_pread_full: "keeps R (pread_full fd len offset)"
  by (simp add: keeps_def pread_full_def frame_pread_full_loop)

end

subsection \<open>Reading\<close>

lemma sys_pread_InrD:
  assumes "run_state (sys_pread fd n off) s = (Inr bs, s')"
  shows "s' = snd (tick s) \<and> (\<exists>p k. fd_part s fd = Some p \<and> k \<le> n \<and> k \<le> psize p - off \<and> bs = bslice off k (region s' p))"
proof -
  obtain d p where "fds s fd = Some d" "fd_node d = Blk p"
    and "s' = snd (tick s)" and "bs = bslice off (transfer (fst (tick s)) n off (psize p)) (region s' p)"
    using assms unfolding sys_pread_def by (elim with_fd_InrD) (auto split: node.splits if_splits)
  moreover have "transfer (fst (tick s)) n off (psize p) \<le> n" "transfer (fst (tick s)) n off (psize p) \<le> psize p - off"
    by (auto simp: transfer_def split: reply.split)
  ultimately show ?thesis by (auto simp: fd_part_Some)
qed

lemma pread_full_loop_correct:
  assumes "pread_full_loop fd len offset p s = (Inr bs, s')"
    and "wf_os s" "fd_part s fd = Some q" "quiet s q" "p = bslice offset (length p) (region s q)" "length p \<le> len"
  shows "length bs = len \<and> bs = bslice offset len (region s q)"
  using assms
proof (induction fd len offset p s rule: pread_full_loop.induct)
  case (1 fd len offset p s)
  show ?case
  proof (cases "length p < len")
    case True
    obtain r s1 where run: "run_state (sys_pread fd (len - length p) (offset + length p)) s = (r, s1)"
      by (cases "run_state (sys_pread fd (len - length p) (offset + length p)) s")
    have w: "world {} s s1" and f: "fd_frame s s1"
      using keepsD [OF world.keeps_queries(6) run] keepsD [OF fdf.keeps_queries(6) run] .
    note pre = "1.prems"(2-4)
    have "in_disk s q" using pre(1,2) by (rule wf_fd_part)
    then have same: "region s1 q = region s q"
      using world_region [OF w pre(1)] pre(3) by simp
    have ih: "wf_os s1" "fd_part s1 fd = Some q" "quiet s1 q"
      using pre w f by (simp_all add: world_wf fd_frame_part world_quiet)
    show ?thesis
    proof (cases r)
      case (Inl e)
      have e: "e = EINTR" and "pread_full_loop fd len offset p s1 = (Inr bs, s')"
        using "1.prems"(1) True run Inl by (auto simp: pread_full_loop.simps [of fd len offset p s] split: if_splits)
      from "1.IH"(1) [OF True run [symmetric] Inl e this(2) ih, unfolded same, OF "1.prems"(5,6)]
      show ?thesis .
    next
      case (Inr cs)
      then obtain k where cs: "k \<le> len - length p" "k \<le> psize q - (offset + length p)"
          "cs = bslice (offset + length p) k (region s q)"
        using sys_pread_InrD [of fd "len - length p" "offset + length p" s cs s1] run "1.prems"(3) same by auto
      then have k: "length cs = k"
        using length_region \<open>in_disk s q\<close> by auto
      then have "p @ cs = bslice offset (length (p @ cs)) (region s q)"
        using cs "1.prems"(5) by (metis length_append slice_append_slice)
      moreover have step: "cs \<noteq> []" "pread_full_loop fd len offset (p @ cs) s1 = (Inr bs, s')"
        using "1.prems"(1) True run Inr by (auto simp: pread_full_loop.simps [of fd len offset p s] split: if_splits)
      moreover have "length (p @ cs) \<le> len"
        using k cs(1) True by simp
      ultimately show ?thesis
        using "1.IH"(2) [OF True run [symmetric] Inr step ih, unfolded same] by blast
    qed
  next
    case False
    with 1 show ?thesis by (simp add: pread_full_loop.simps [of fd len offset p s])
  qed
qed

lemma pread_full_correct:
  assumes "run_state (pread_full fd len offset) s = (Inr bs, s')"
    and "wf_os s" "fd_part s fd = Some q" "quiet s q"
  shows "length bs = len \<and> bs = bslice offset len (region s q)"
  using assms pread_full_loop_correct [of fd len offset "[]"] by (simp add: pread_full_def)

subsection \<open>Writing\<close>

lemma sys_pwrite_cases:
  assumes "run_state (sys_pwrite fd bs off) s = (r, s')"
  obtains e where "r = Inl e" "s' = snd (tick s)"
  | p n where "r = Inr n" "fd_part s fd = Some p" "n \<le> length bs" "off + n \<le> psize p"
      "s' = write_disk p off (take n bs) (snd (tick s))"
proof -
  obtain t rp where tick: "tick s = (rp, t)" by (cases "tick s")
  have "transfer rp (length bs) off (psize p) \<le> length bs"
    "off + transfer rp (length bs) off (psize p) \<le> psize p" if "off < psize p" for p
    using that by (auto simp: transfer_def split: reply.split)
  then show ?thesis
    using assms that tick_run(1) [OF tick]
    by (auto simp: sys_pwrite_def sys_defs tick Let_def fd_part_def not_le
        split: reply.splits option.splits node.splits if_splits)
qed

lemma sys_pwrite_frame:
  assumes run: "run_state (sys_pwrite fd bs off) s = (r, s')" and "fd_part s fd = Some q" "wf_os s"
  shows "world {q} s s' \<and> fd_frame s s'"
  using run
proof (cases rule: sys_pwrite_cases)
  case (1 e)
  then show ?thesis by (simp add: world_tick fd_frame_tick)
next
  case (2 p n)
  then have [simp]: "p = q" using assms by simp
  have "in_disk (snd (tick s)) q"
    using wf_fd_part [OF assms(3,2)] world_in_disk [OF world_tick [of "{}"] assms(3)] by simp
  then have "world {q} (snd (tick s)) s'"
    using 2 by (auto intro: world_write_disk)
  moreover have "fd_frame s s'"
    using 2 by (auto intro: fd_frame_same)
  ultimately show ?thesis
    using world_trans world_tick by blast
qed

lemma pwrite_full_loop_frame:
  assumes "pwrite_full_loop fd buf offset n s = (r, s')" and "fd_part s fd = Some q" "wf_os s"
  shows "world {q} s s' \<and> fd_frame s s'"
  using assms
proof (induction fd buf offset n s rule: pwrite_full_loop.induct)
  case (1 fd buf offset n s)
  show ?case
  proof (cases "n < length buf")
    case True
    obtain x s1 where run: "run_state (sys_pwrite fd (drop n buf) (offset + n)) s = (x, s1)"
      by (cases "run_state (sys_pwrite fd (drop n buf) (offset + n)) s")
    have f: "world {q} s s1" "fd_frame s s1"
      using sys_pwrite_frame [OF run "1.prems"(2,3)] by simp_all
    then have ih: "fd_part s1 fd = Some q" "wf_os s1"
      using "1.prems" by (simp_all add: fd_frame_part world_wf)
    consider "s' = s1" | e where "x = Inl e" "e = EINTR" "pwrite_full_loop fd buf offset n s1 = (r, s')"
      | c where "x = Inr c" "c \<noteq> 0" "pwrite_full_loop fd buf offset (n + c) s1 = (r, s')"
      using "1.prems"(1) True run
      by (cases x) (auto simp: pwrite_full_loop.simps [of fd buf offset n s] split: if_splits)
    then show ?thesis
    proof cases
      case 1
      with f show ?thesis by simp
    next
      case 2
      then show ?thesis
        using "1.IH"(1) [OF True run [symmetric] 2 ih] f world_trans fd_frame_trans by blast
    next
      case 3
      then show ?thesis
        using "1.IH"(2) [OF True run [symmetric] 3 ih] f world_trans fd_frame_trans by blast
    qed
  next
    case False
    with 1 show ?thesis
      by (simp add: pwrite_full_loop.simps [of fd buf offset n s] world_refl fd_frame_refl)
  qed
qed

lemma pwrite_full_frame:
  assumes "run_state (pwrite_full fd buf offset) s = (r, s')" and "fd_part s fd = Some q" "wf_os s"
  shows "world {q} s s' \<and> fd_frame s s'"
  using assms pwrite_full_loop_frame by (simp add: pwrite_full_def)

lemma sys_pwrite_region:
  assumes run: "run_state (sys_pwrite fd bs off) s = (Inr n, s')"
    and "fd_part s fd = Some q" "wf_os s" "quiet s q"
  shows "n \<le> length bs \<and> off + n \<le> psize q \<and> region s' q = patch off (take n bs) (region s q)"
  using run
proof (cases rule: sys_pwrite_cases)
  case (2 p m)
  then have [simp]: "p = q" "m = n" using assms by simp_all
  have t: "in_disk s q" "in_disk (snd (tick s)) q" "region (snd (tick s)) q = region s q"
    using wf_fd_part [OF assms(3,2)] world_in_disk [OF world_tick [of "{}"] assms(3)]
      world_region [OF world_tick [of "{}"] assms(3), of q] assms(4) by simp_all
  with 2 show ?thesis by (simp add: region_write_disk)
qed simp

lemma pwrite_full_loop_correct:
  assumes "pwrite_full_loop fd buf offset n s = (Inr (), s')"
    and "fd_part s fd = Some q" "wf_os s" "quiet s q" "n \<le> length buf"
  shows "(n < length buf \<longrightarrow> offset + length buf \<le> psize q) \<and>
    region s' q = patch (offset + n) (drop n buf) (region s q)"
  using assms
proof (induction fd buf offset n s rule: pwrite_full_loop.induct)
  case (1 fd buf offset n s)
  show ?case
  proof (cases "n < length buf")
    case True
    obtain x s1 where run: "run_state (sys_pwrite fd (drop n buf) (offset + n)) s = (x, s1)"
      by (cases "run_state (sys_pwrite fd (drop n buf) (offset + n)) s")
    have f: "world {q} s s1" "fd_frame s s1"
      using sys_pwrite_frame [OF run "1.prems"(2,3)] by simp_all
    then have ih: "fd_part s1 fd = Some q" "wf_os s1" "quiet s1 q"
      using "1.prems" by (simp_all add: fd_frame_part world_wf world_quiet)
    show ?thesis
    proof (cases x)
      case (Inl e)
      have e: "e = EINTR" and step: "pwrite_full_loop fd buf offset n s1 = (Inr (), s')"
        using "1.prems"(1) True run Inl by (auto simp: pwrite_full_loop.simps [of fd buf offset n s] split: if_splits)
      have "region s1 q = region s q"
        using run Inl e by (auto elim!: sys_pwrite_cases intro: world_region [OF world_tick [of "{}"]]
            "1.prems" wf_fd_part)
      with "1.IH"(1) [OF True run [symmetric] Inl e step ih "1.prems"(5)] show ?thesis by simp
    next
      case (Inr c)
      have step: "c \<noteq> 0" "pwrite_full_loop fd buf offset (n + c) s1 = (Inr (), s')"
        using "1.prems"(1) True run Inr by (auto simp: pwrite_full_loop.simps [of fd buf offset n s] split: if_splits)
      have c: "c \<le> length buf - n" "offset + n + c \<le> psize q"
          "region s1 q = patch (offset + n) (take c (drop n buf)) (region s q)"
        using sys_pwrite_region [of fd "drop n buf" "offset + n" s c s1 q] run Inr "1.prems" by simp_all
      have "length (region s q) = psize q"
        using "1.prems" wf_fd_part length_region by blast
      moreover have "take c (drop n buf) @ drop (n + c) buf = drop n buf"
        by (metis add.commute append_take_drop_id drop_drop)
      moreover have "region s' q = patch (offset + (n + c)) (drop (n + c) buf) (region s1 q)"
        and "n + c < length buf \<longrightarrow> offset + length buf \<le> psize q"
        using "1.IH"(2) [OF True run [symmetric] Inr step ih] c(1) True by simp_all
      ultimately show ?thesis
        using c True
          patch_patch_adjacent [of "offset + n" "take c (drop n buf)" "region s q" "offset + (n + c)" "drop (n + c) buf"]
        by (cases "n + c < length buf") simp_all
    qed
  next
    case False
    with 1 show ?thesis by (simp add: pwrite_full_loop.simps [of fd buf offset n s])
  qed
qed

lemma pwrite_full_correct:
  assumes "run_state (pwrite_full fd buf offset) s = (Inr (), s')"
    and "fd_part s fd = Some q" "wf_os s" "quiet s q"
  shows "(buf \<noteq> [] \<longrightarrow> offset + length buf \<le> psize q) \<and> region s' q = patch offset buf (region s q)"
  using assms pwrite_full_loop_correct [of fd buf offset 0] by (simp add: pwrite_full_def)

lemma writer_pwrite_full: "pres (writer fd p s) (pwrite_full fd buf offset)"
  by (rule writer_pres) (simp add: writes_def pwrite_full_frame)

subsection \<open>On a machine without disturbances\<close>

text \<open>
  With an exhausted script every call succeeds; the collection \<open>calm\<close> evaluates programs on such states.
\<close>

named_theorems calm \<open>evaluation when the script is exhausted\<close>

lemma tick_calm [calm]: "env s = [] \<Longrightarrow> tick s = (Normal, s)"
  by (simp add: tick_def)

lemma with_fd_calm [calm]:
  "env s = [] \<Longrightarrow> fds s fd = Some d \<Longrightarrow> run_state (with_fd fd f) s = f d Normal s"
  by (simp add: sys_defs tick_calm)

lemma syscall_calm [calm]: "env s = [] \<Longrightarrow> run_state (syscall f) s = f Normal s"
  by (simp add: syscall_def tick_calm)

lemma or_fail_Normal [calm]: "or_fail f Normal s = f Normal s"
  by (simp add: or_fail_def)

lemma get_fd_size_calm [calm]:
  "env s = [] \<Longrightarrow> fds s fd = Some d \<Longrightarrow> fd_node d = Blk p \<Longrightarrow> run_state (get_fd_size fd) s = (Inr (psize p), s)"
  by (simp add: get_fd_size_def sys_fstat_def sys_blkgetsize64_def calm)

lemma pread_full_calm [calm]:
  assumes "env s = []" "fds s fd = Some d" "fd_node d = Blk p" "\<not> misaligned d p len off"
    "off + len \<le> psize p" "in_disk s p"
  shows "run_state (pread_full fd len off) s = (Inr (bslice off len (region s p)), s)"
proof -
  have "length (region s p) = psize p" using assms(6) by (rule length_region)
  then show ?thesis
    using assms by (cases "len = 0") (auto simp: pread_full_def sys_pread_def pread_full_loop.simps [of _ _ _ "[]"]
        pread_full_loop.simps [of _ _ _ "bslice off len (region s p)"] calm transfer_def min_def
        simp flip: length_greater_0_conv)
qed

lemma pwrite_full_calm [calm]:
  assumes "env s = []" "fds s fd = Some d" "fd_node d = Blk p" "fd_rdwr d" "\<not> misaligned d p (length buf) off"
    "off + length buf \<le> psize p" "buf \<noteq> []"
  shows "run_state (pwrite_full fd buf off) s = (Inr (), write_disk p off buf s)"
  using assms
  by (auto simp: pwrite_full_def sys_pwrite_def pwrite_full_loop.simps [of _ _ _ 0]
      pwrite_full_loop.simps [of _ _ _ "length buf"] calm transfer_def min_def Let_def
      simp flip: length_greater_0_conv)

end
