(* ===== verification/Example_Os.thy ===== *)
theory Example_Os
  imports Common_Io
begin

text \<open>
  One concrete machine on which the hypotheses of the theorems are shown to be satisfiable: a disk of
  32768 bytes with two partitions of 8192 bytes, the first of which is mounted.  Descriptor 3 is open on
  the first partition and descriptor 4 on the mountpoint.
\<close>

definition ex_disk :: part where
  "ex_disk = \<lparr>rdev = 1, disk = 0, pstart = 0, psize = 32768, lsz = 512\<rparr>"

definition ex_a :: part where
  "ex_a = \<lparr>rdev = 2, disk = 0, pstart = 8192, psize = 8192, lsz = 512\<rparr>"

definition ex_b :: part where
  "ex_b = \<lparr>rdev = 3, disk = 0, pstart = 16384, psize = 8192, lsz = 512\<rparr>"

definition ex_os :: os where
  "ex_os = \<lparr>nodes = [''/dev/d'' \<mapsto> Blk ex_disk, ''/dev/a'' \<mapsto> Blk ex_a, ''/dev/b'' \<mapsto> Blk ex_b, ''/m'' \<mapsto> Dir],
     disks = (\<lambda>_. replicate 32768 0), stable = (\<lambda>_. replicate 32768 0),
     fds = [3 \<mapsto> \<lparr>fd_node = Blk ex_a, fd_path = ''/dev/a'', fd_rdwr = True, fd_direct = True, fd_excl = False\<rparr>],
     next_fd = 4, mounts = [(''/m'', ex_a)], gate = (\<lambda>_. True), leaky = (\<lambda>_. False), home_dev = (\<lambda>_. 0),
     numfiles = [''/proc/sys/vm/dirty_writeback_centisecs'' \<mapsto> 500,
                 ''/proc/sys/vm/dirty_background_ratio'' \<mapsto> 10, ''/proc/sys/vm/dirty_ratio'' \<mapsto> 20,
                 ''/proc/sys/vm/dirty_background_bytes'' \<mapsto> 0, ''/proc/sys/vm/dirty_bytes'' \<mapsto> 0,
                 ''/sys/dev/block/0:2/start'' \<mapsto> 16],
     links = [''/sys/dev/block/0:2'' \<mapsto> ''/sys/devices/d/a''],
     unit_state = (\<lambda>_ _. ''active''), signalled = [], ready = False, now = 0, env = []\<rparr>"

lemma ex_parts [simp]:
  "psize ex_a = 8192" "psize ex_b = 8192" "psize ex_disk = 32768" "lsz ex_a = 512" "lsz ex_b = 512"
  "lsz ex_disk = 512" "pstart ex_a = 8192" "pstart ex_b = 16384" "pstart ex_disk = 0"
  "disk ex_a = 0" "disk ex_b = 0" "disk ex_disk = 0" "rdev ex_a = 2" "rdev ex_b = 3" "rdev ex_disk = 1"
  by (simp_all add: ex_a_def ex_b_def ex_disk_def)

lemma ex_fields [simp]:
  "env ex_os = []" "mounts ex_os = [(''/m'', ex_a)]" "gate ex_os m = True" "next_fd ex_os = 4"
  "fds ex_os 3 = Some \<lparr>fd_node = Blk ex_a, fd_path = ''/dev/a'', fd_rdwr = True, fd_direct = True, fd_excl = False\<rparr>"
  "length (disks ex_os d) = 32768" "length (stable ex_os d) = 32768"
  "nodes ex_os ''/dev/a'' = Some (Blk ex_a)" "nodes ex_os ''/dev/b'' = Some (Blk ex_b)" "nodes ex_os ''/m'' = Some Dir"
  "leaky ex_os m = False"
  by (simp_all add: ex_os_def)

lemma ex_in_disk [simp]: "in_disk ex_os ex_a" "in_disk ex_os ex_b" "in_disk ex_os ex_disk"
  by (simp_all add: in_disk_def)

lemma ex_wf [simp]: "wf_os ex_os"
  unfolding wf_os_def
  by (auto simp: ex_os_def in_disk_def split: if_splits)

lemma ex_quiet [simp]: "quiet ex_os p"
  by (simp add: quiet_def shut_def)

lemma ex_fd_part [simp]: "fd_part ex_os 3 = Some ex_a"
  by (simp add: fd_part_def)

end
