(* ===== verification/Footer.thy ===== *)
theory Footer
  imports Crc32c Example_Os
begin

text \<open>
  The integrity descriptor of \<^verbatim>\<open>footer.c\<close>: 128 bytes at the very end of a device, inside the 4096-byte
  footer area that the digest does not cover.  Its fields are built and checked here byte for byte.
  The lemmas show that what \<^verbatim>\<open>write_descriptor\<close> writes is what \<^verbatim>\<open>read_descriptor\<close> accepts, and which corruptions
  of a valid descriptor the check refuses.
\<close>

subsection \<open>Definitions\<close>

definition FOOTER_AREA_SIZE :: nat where "FOOTER_AREA_SIZE = 4096"
definition DESCRIPTOR_SIZE :: nat where "DESCRIPTOR_SIZE = 128"
definition SHA256_DIGEST_SIZE :: nat where "SHA256_DIGEST_SIZE = 32"

definition DESC_MAGIC_OFFSET :: nat where "DESC_MAGIC_OFFSET = 0"
definition DESC_VERSION_OFFSET :: nat where "DESC_VERSION_OFFSET = 8"
definition DESC_DESCRIPTOR_SIZE_OFFSET :: nat where "DESC_DESCRIPTOR_SIZE_OFFSET = 12"
definition DESC_HASH_ALGORITHM_OFFSET :: nat where "DESC_HASH_ALGORITHM_OFFSET = 16"
definition DESC_DIGEST_LEN_OFFSET :: nat where "DESC_DIGEST_LEN_OFFSET = 20"
definition DESC_HASHED_SIZE_OFFSET :: nat where "DESC_HASHED_SIZE_OFFSET = 24"
definition DESC_DIGEST_OFFSET :: nat where "DESC_DIGEST_OFFSET = 32"
definition DESC_CRC32C_OFFSET :: nat where "DESC_CRC32C_OFFSET = 64"
definition DESC_RESERVED_OFFSET :: nat where "DESC_RESERVED_OFFSET = 68"

definition PROTOCOL_VERSION :: u32 where "PROTOCOL_VERSION = 1"
definition HASH_ALGORITHM_SHA256 :: u32 where "HASH_ALGORITHM_SHA256 = 1"

text \<open>The characters \<^verbatim>\<open>VFINTEG\<close> and a zero byte.\<close>

definition descriptor_magic :: bytes where
  "descriptor_magic = [0x56, 0x46, 0x49, 0x4e, 0x54, 0x45, 0x47, 0]"

lemmas descriptor_layout = FOOTER_AREA_SIZE_def DESCRIPTOR_SIZE_def SHA256_DIGEST_SIZE_def
  DESC_MAGIC_OFFSET_def DESC_VERSION_OFFSET_def DESC_DESCRIPTOR_SIZE_OFFSET_def
  DESC_HASH_ALGORITHM_OFFSET_def DESC_DIGEST_LEN_OFFSET_def DESC_HASHED_SIZE_OFFSET_def
  DESC_DIGEST_OFFSET_def DESC_CRC32C_OFFSET_def DESC_RESERVED_OFFSET_def

definition set_buffered_io :: "nat \<Rightarrow> (os, errno + bool) state" where
  "set_buffered_io fd = do {
     flags \<leftarrow> sys_getfl_direct fd;
     case flags of
       Inl e \<Rightarrow> ret (Inl e)
     | Inr saved \<Rightarrow>
         if saved
         then do {
           r \<leftarrow> sys_setfl_direct fd False;
           case r of Inl e \<Rightarrow> ret (Inl e) | Inr _ \<Rightarrow> ret (Inr saved)
         }
         else ret (Inr saved)
   }"

definition restore_io_flags :: "nat \<Rightarrow> bool \<Rightarrow> (os, errno + unit) state" where
  "restore_io_flags fd saved = (if \<not> saved then ret (Inr ()) else sys_setfl_direct fd saved)"

definition validate_descriptor :: "bytes \<Rightarrow> nat \<Rightarrow> exit_code + bytes" where
  "validate_descriptor raw protected_size =
     (let stored_crc = get_le32 raw DESC_CRC32C_OFFSET;
          copy = patch DESC_CRC32C_OFFSET (replicate 4 0) raw;
          computed_crc = get_le32 (hash_crc32 copy) 0
      in if computed_crc \<noteq> stored_crc then Inl EXIT_METADATA_INVALID
         else if bslice DESC_MAGIC_OFFSET 8 raw \<noteq> descriptor_magic then Inl EXIT_METADATA_INVALID
         else if get_le32 raw DESC_VERSION_OFFSET \<noteq> PROTOCOL_VERSION then Inl EXIT_METADATA_INVALID
         else if get_le32 raw DESC_DESCRIPTOR_SIZE_OFFSET \<noteq> of_nat DESCRIPTOR_SIZE
         then Inl EXIT_METADATA_INVALID
         else if get_le32 raw DESC_HASH_ALGORITHM_OFFSET \<noteq> HASH_ALGORITHM_SHA256
         then Inl EXIT_METADATA_INVALID
         else if get_le32 raw DESC_DIGEST_LEN_OFFSET \<noteq> of_nat SHA256_DIGEST_SIZE
         then Inl EXIT_METADATA_INVALID
         else if get_le64 raw DESC_HASHED_SIZE_OFFSET \<noteq> of_nat protected_size
         then Inl EXIT_METADATA_INVALID
         else if list_ex (\<lambda>i. raw ! i \<noteq> 0) [DESC_RESERVED_OFFSET..<DESCRIPTOR_SIZE]
         then Inl EXIT_METADATA_INVALID
         else Inr (bslice DESC_DIGEST_OFFSET SHA256_DIGEST_SIZE raw))"

definition read_descriptor :: "nat \<Rightarrow> (os, exit_code + bytes) state" where
  "read_descriptor fd = do {
     sz \<leftarrow> get_fd_size fd;
     case sz of
       Inl e \<Rightarrow> ret (Inl EXIT_IO_ERROR)
     | Inr device_size \<Rightarrow>
         if device_size \<le> FOOTER_AREA_SIZE then ret (Inl EXIT_IO_ERROR)
         else do {
           flags \<leftarrow> set_buffered_io fd;
           case flags of
             Inl e \<Rightarrow> ret (Inl EXIT_IO_ERROR)
           | Inr saved \<Rightarrow> do {
               result \<leftarrow> pread_full fd DESCRIPTOR_SIZE (device_size - DESCRIPTOR_SIZE);
               restored \<leftarrow> restore_io_flags fd saved;
               case (result, restored) of
                 (Inr raw, Inr _) \<Rightarrow> ret (validate_descriptor raw (device_size - FOOTER_AREA_SIZE))
               | _ \<Rightarrow> ret (Inl EXIT_IO_ERROR)
             }
         }
   }"

text \<open>The buffer \<^verbatim>\<open>write_descriptor\<close> assembles before it touches the device.\<close>

definition make_descriptor :: "nat \<Rightarrow> bytes \<Rightarrow> bytes" where
  "make_descriptor protected_size digest =
     (let raw = replicate DESCRIPTOR_SIZE 0;
          raw = patch DESC_MAGIC_OFFSET descriptor_magic raw;
          raw = put_le32 raw DESC_VERSION_OFFSET PROTOCOL_VERSION;
          raw = put_le32 raw DESC_DESCRIPTOR_SIZE_OFFSET (of_nat DESCRIPTOR_SIZE);
          raw = put_le32 raw DESC_HASH_ALGORITHM_OFFSET HASH_ALGORITHM_SHA256;
          raw = put_le32 raw DESC_DIGEST_LEN_OFFSET (of_nat SHA256_DIGEST_SIZE);
          raw = put_le64 raw DESC_HASHED_SIZE_OFFSET (of_nat protected_size);
          raw = patch DESC_DIGEST_OFFSET digest raw;
          crc_digest = hash_crc32 raw
      in put_le32 raw DESC_CRC32C_OFFSET (get_le32 crc_digest 0))"

definition write_descriptor :: "nat \<Rightarrow> bytes \<Rightarrow> (os, exit_code) state" where
  "write_descriptor fd digest = do {
     sz \<leftarrow> get_fd_size fd;
     case sz of
       Inl e \<Rightarrow> ret EXIT_IO_ERROR
     | Inr device_size \<Rightarrow>
         if device_size \<le> FOOTER_AREA_SIZE then ret EXIT_IO_ERROR
         else do {
           flags \<leftarrow> set_buffered_io fd;
           case flags of
             Inl e \<Rightarrow> ret EXIT_IO_ERROR
           | Inr saved \<Rightarrow> do {
               result \<leftarrow> pwrite_full fd (make_descriptor (device_size - FOOTER_AREA_SIZE) digest)
                           (device_size - DESCRIPTOR_SIZE);
               restored \<leftarrow> restore_io_flags fd saved;
               case (result, restored) of
                 (Inr _, Inr _) \<Rightarrow> do {
                   synced \<leftarrow> sys_fsync fd;
                   case synced of Inl e \<Rightarrow> ret EXIT_IO_ERROR | Inr _ \<Rightarrow> ret EXIT_OK
                 }
               | _ \<Rightarrow> ret EXIT_IO_ERROR
             }
         }
   }"

subsection \<open>The fields of a descriptor\<close>

definition descriptor_fields :: "nat \<Rightarrow> bytes \<Rightarrow> bytes" where
  "descriptor_fields n d = descriptor_magic @ le32_bytes PROTOCOL_VERSION @ le32_bytes 128 @
     le32_bytes HASH_ALGORITHM_SHA256 @ le32_bytes 32 @ le64_bytes (of_nat n) @ d"

lemma length_descriptor_fields [simp]: "length d = 32 \<Longrightarrow> length (descriptor_fields n d) = 64"
  by (simp add: descriptor_fields_def descriptor_magic_def length_le_bytes)

lemma patch_fields:
  "length xs = k \<Longrightarrow> k + length ys \<le> m \<Longrightarrow>
     patch k ys (xs @ replicate (m - k) 0) = (xs @ ys) @ replicate (m - (k + length ys)) (0 :: u8)"
  by (simp add: patch_def)

lemma make_descriptor_fields:
  assumes "length d = 32"
  shows "make_descriptor n d =
    descriptor_fields n d @ hash_crc32 (descriptor_fields n d @ replicate 64 0) @ replicate 60 0"
proof -
  have build: "patch 32 d (put_le64 (put_le32 (put_le32 (put_le32 (put_le32 (patch 0 descriptor_magic
      (replicate 128 0)) 8 PROTOCOL_VERSION) 12 128) 16 HASH_ALGORITHM_SHA256) 20 32) 24 (of_nat n))
    = descriptor_fields n d @ replicate 64 0"
    using patch_fields [of "[]" 0 descriptor_magic 128]
      patch_fields [of descriptor_magic 8 "le32_bytes PROTOCOL_VERSION" 128]
      patch_fields [of "descriptor_magic @ le32_bytes PROTOCOL_VERSION" 12 "le32_bytes 128" 128]
      patch_fields [of "descriptor_magic @ le32_bytes PROTOCOL_VERSION @ le32_bytes 128" 16
          "le32_bytes HASH_ALGORITHM_SHA256" 128]
      patch_fields [of "descriptor_magic @ le32_bytes PROTOCOL_VERSION @ le32_bytes 128 @
          le32_bytes HASH_ALGORITHM_SHA256" 20 "le32_bytes 32" 128]
      patch_fields [of "descriptor_magic @ le32_bytes PROTOCOL_VERSION @ le32_bytes 128 @
          le32_bytes HASH_ALGORITHM_SHA256 @ le32_bytes 32" 24 "le64_bytes (of_nat n)" 128]
      patch_fields [of "descriptor_magic @ le32_bytes PROTOCOL_VERSION @ le32_bytes 128 @
          le32_bytes HASH_ALGORITHM_SHA256 @ le32_bytes 32 @ le64_bytes (of_nat n)" 32 d 128] assms
    by (simp add: descriptor_fields_def descriptor_magic_def length_le_bytes put_le32_patch put_le64_patch)
  show ?thesis
    unfolding make_descriptor_def descriptor_layout Let_def of_nat_numeral build
    using patch_fields [of "descriptor_fields n d" 64 "hash_crc32 (descriptor_fields n d @ replicate 64 0)" 128] assms
      le32_bytes_get [of 0 "hash_crc32 (descriptor_fields n d @ replicate 64 0)"]
    by (simp add: put_le32_patch bslice_def)
qed

lemma length_make_descriptor [simp]: "length d = 32 \<Longrightarrow> length (make_descriptor n d) = 128"
  by (simp add: make_descriptor_fields)

lemma bslice_append_left: "off + n \<le> length xs \<Longrightarrow> bslice off n (xs @ ys) = bslice off n xs"
  by (simp add: bslice_def)

lemma bslice_append_right: "length xs \<le> off \<Longrightarrow> bslice off n (xs @ ys) = bslice (off - length xs) n ys"
  by (simp add: bslice_def)

lemma get_le32_field: "bslice off 4 p = le32_bytes v \<Longrightarrow> off + 4 \<le> length p \<Longrightarrow> get_le32 p off = v"
  by (metis get_le32_bytes get_le32_slice)

lemma get_le64_field: "bslice off 8 p = le64_bytes v \<Longrightarrow> off + 8 \<le> length p \<Longrightarrow> get_le64 p off = v"
  by (metis get_le64_bytes get_le64_slice)

lemma make_descriptor_field_values:
  fixes n d
  assumes d: "length d = 32"
  defines "raw \<equiv> make_descriptor n d"
  shows "bslice 0 8 raw = descriptor_magic" "get_le32 raw 8 = PROTOCOL_VERSION" "get_le32 raw 12 = 128"
    "get_le32 raw 16 = HASH_ALGORITHM_SHA256" "get_le32 raw 20 = 32" "get_le64 raw 24 = of_nat n"
    "bslice 32 32 raw = d" "bslice 68 60 raw = replicate 60 0"
    "get_le32 raw 64 = get_le32 (hash_crc32 (patch 64 (replicate 4 0) raw)) 0"
proof -
  have raw: "raw = descriptor_magic @ le32_bytes PROTOCOL_VERSION @ le32_bytes 128 @
     le32_bytes HASH_ALGORITHM_SHA256 @ le32_bytes 32 @ le64_bytes (of_nat n) @ d @
     hash_crc32 (descriptor_fields n d @ replicate 64 0) @ replicate 60 0"
    using make_descriptor_fields [OF d, of n] by (simp add: raw_def descriptor_fields_def)
  have len: "length raw = 128" using d by (simp add: raw_def)
  have m: "length descriptor_magic = 8" by (simp add: descriptor_magic_def)
  note sl = bslice_append_left bslice_append_right
  show "bslice 0 8 raw = descriptor_magic" by (simp add: raw sl m bslice_def)
  have "bslice 8 4 raw = le32_bytes PROTOCOL_VERSION" "bslice 12 4 raw = le32_bytes 128"
      "bslice 16 4 raw = le32_bytes HASH_ALGORITHM_SHA256" "bslice 20 4 raw = le32_bytes 32"
      "bslice 24 8 raw = le64_bytes (of_nat n)"
    by (simp_all add: raw bslice_def m length_le_bytes)
  then show "get_le32 raw 8 = PROTOCOL_VERSION" "get_le32 raw 12 = 128"
      "get_le32 raw 16 = HASH_ALGORITHM_SHA256" "get_le32 raw 20 = 32" "get_le64 raw 24 = of_nat n"
    using len get_le32_field get_le64_field by simp_all
  show "bslice 32 32 raw = d" "bslice 68 60 raw = replicate 60 0"
    using d by (simp_all add: raw bslice_def m length_le_bytes)
  have "patch 64 (replicate 4 0) raw = descriptor_fields n d @ replicate 64 0"
    using d by (simp add: raw_def make_descriptor_fields patch_def flip: replicate_add)
  moreover have "bslice 64 4 raw = hash_crc32 (descriptor_fields n d @ replicate 64 0)"
    using d by (simp add: raw bslice_def m length_le_bytes)
  ultimately show "get_le32 raw 64 = get_le32 (hash_crc32 (patch 64 (replicate 4 0) raw)) 0"
    using get_le32_slice [of 64 raw] len by simp
qed

lemma validate_make_descriptor:
  assumes "length d = 32"
  shows "validate_descriptor (make_descriptor n d) n = Inr d"
proof -
  have "make_descriptor n d ! i = 0" if "68 \<le> i" "i < 128" for i
    using arg_cong [OF make_descriptor_field_values(8) [OF assms, of n], of "\<lambda>xs. xs ! (i - 68)"] that assms
    by (simp del: replicate.simps)
  then show ?thesis
    using make_descriptor_field_values [OF assms, of n]
    by (simp add: validate_descriptor_def descriptor_layout Let_def list_ex_iff)
qed

subsection \<open>Reading and writing the descriptor of a device\<close>

definition stored_descriptor :: "bytes \<Rightarrow> exit_code + bytes" where
  "stored_descriptor dev = validate_descriptor (bslice (length dev - 128) 128 dev) (length dev - 4096)"

context os_io
begin

lemma keeps_set_buffered_io: "keeps R (set_buffered_io fd)"
  unfolding set_buffered_io_def by (intro keeps_intros keeps_queries keeps_setfl)

lemma keeps_restore_io_flags: "keeps R (restore_io_flags fd saved)"
  unfolding restore_io_flags_def by (intro keeps_intros keeps_setfl)

lemma keeps_read_descriptor: "keeps R (read_descriptor fd)"
  unfolding read_descriptor_def
  by (intro keeps_intros keeps_get_fd_size keeps_set_buffered_io keeps_restore_io_flags keeps_pread_full)

end

lemma get_fd_size_correct:
  assumes run: "run_state (get_fd_size fd) s = (Inr n, s')" and p: "fd_part s fd = Some p"
  shows "n = psize p"
proof -
  obtain st s1 where r1: "run_state (sys_fstat fd) s = (st, s1)" by (cases "run_state (sys_fstat fd) s")
  have f: "fd_part s1 fd = Some p"
    using fd_frame_part [OF keepsD [OF fdf.keeps_queries(2) r1]] p by simp
  obtain nd where st: "st = Inr nd"
    using run by (cases st) (auto simp: get_fd_size_def r1)
  have "nd = Blk p"
    using r1 p unfolding st sys_fstat_def by (elim with_fd_InrD) (auto simp: fd_part_Some)
  then have "run_state (sys_blkgetsize64 fd) s1 = (Inr n, s')"
    using run by (simp add: get_fd_size_def r1 st)
  then show ?thesis
    using f unfolding sys_blkgetsize64_def by (elim with_fd_InrD) (auto simp: fd_part_Some)
qed

lemma read_descriptor_result:
  assumes run: "run_state (read_descriptor fd) s = (r, s')" and ok: "r \<noteq> Inl EXIT_IO_ERROR"
    and wf: "wf_os s" and p: "fd_part s fd = Some p" and q: "quiet s p"
  shows "4096 < psize p \<and> stored_descriptor (region s p) = r"
proof -
  obtain n s1 where r1: "run_state (get_fd_size fd) s = (Inr n, s1)"
    using run ok by (auto simp: read_descriptor_def split: prod.splits sum.splits)
  have n: "n = psize p" using r1 p by (rule get_fd_size_correct)
  then have big: "4096 < psize p"
    using run ok by (auto simp: read_descriptor_def r1 FOOTER_AREA_SIZE_def not_le split: if_splits)
  obtain saved s2 where r2: "run_state (set_buffered_io fd) s1 = (Inr saved, s2)"
    using run ok big n by (auto simp: read_descriptor_def r1 FOOTER_AREA_SIZE_def split: prod.splits sum.splits)
  have w: "reads s s2"
    using rd.frame_trans [OF keepsD [OF rd.keeps_get_fd_size r1] keepsD [OF rd.keeps_set_buffered_io r2]] .
  obtain raw s3 where r3: "run_state (pread_full fd 128 (n - 128)) s2 = (Inr raw, s3)"
    and v: "validate_descriptor raw (n - 4096) = r"
    using run ok big n by (auto simp: read_descriptor_def r1 r2 descriptor_layout split: prod.splits sum.splits)
  have "in_disk s p" using wf p by (rule wf_fd_part)
  then have "length (region s p) = psize p" "region s2 p = region s p"
    using length_region reads_inv [OF w wf] q by auto
  moreover have "raw = bslice (n - 128) 128 (region s2 p)"
    using pread_full_correct [OF r3] reads_inv [OF w wf] p q by simp
  ultimately show ?thesis
    using v n big by (simp add: stored_descriptor_def)
qed

lemma stored_descriptor_written:
  assumes "length d = 32" and "4096 < length dev"
  shows "stored_descriptor (patch (length dev - 128) (make_descriptor (length dev - 4096) d) dev) = Inr d"
  using assms by (simp add: stored_descriptor_def slice_patch_same validate_make_descriptor)

lemma writer_write_descriptor: "pres (writer fd p s) (write_descriptor fd d)"
  unfolding write_descriptor_def
  by (intro pres_intros writer_fsync writer_pwrite_full writer_keeps [OF wr.keeps_get_fd_size]
      writer_keeps [OF wr.keeps_set_buffered_io] writer_keeps [OF wr.keeps_restore_io_flags])

lemma write_descriptor_frame:
  "run_state (write_descriptor fd d) s = (r, s') \<Longrightarrow> wf_os s \<Longrightarrow> fd_part s fd = Some p \<Longrightarrow> writes p s s'"
  using presD [OF writer_write_descriptor] writer_start by (auto simp: writer_def)

lemma write_descriptor_correct:
  assumes run: "run_state (write_descriptor fd d) s = (EXIT_OK, s')" and d: "length d = 32"
    and wf: "wf_os s" and p: "fd_part s fd = Some p" and q: "quiet s p"
  shows "4096 < psize p" and "stable_region s' p = region s' p"
    and "region s' p = patch (psize p - 128) (make_descriptor (psize p - 4096) d) (region s p)"
proof -
  obtain n s1 where r1: "run_state (get_fd_size fd) s = (Inr n, s1)"
    using run by (auto simp: write_descriptor_def split: prod.splits sum.splits)
  have n: "n = psize p" using r1 p by (rule get_fd_size_correct)
  then show big: "4096 < psize p"
    using run by (auto simp: write_descriptor_def r1 FOOTER_AREA_SIZE_def not_le split: if_splits)
  obtain saved s2 where r2: "run_state (set_buffered_io fd) s1 = (Inr saved, s2)"
    using run big n by (auto simp: write_descriptor_def r1 FOOTER_AREA_SIZE_def split: prod.splits sum.splits)
  let ?raw = "make_descriptor (psize p - 4096) d"
  obtain x s3 where r3: "run_state (pwrite_full fd ?raw (psize p - 128)) s2 = (Inr x, s3)"
    using run big n by (auto simp: write_descriptor_def r1 r2 descriptor_layout split: prod.splits sum.splits)
  obtain y s4 where r4: "run_state (restore_io_flags fd saved) s3 = (Inr y, s4)"
    using run big n r3 by (auto simp: write_descriptor_def r1 r2 descriptor_layout split: prod.splits sum.splits)
  have r5: "run_state (sys_fsync fd) s4 = (Inr (), s')"
    using run big n r3 r4 by (auto simp: write_descriptor_def r1 r2 descriptor_layout split: prod.splits sum.splits)
  have w: "reads s s2" "reads s3 s4"
    using rd.frame_trans [OF keepsD [OF rd.keeps_get_fd_size r1] keepsD [OF rd.keeps_set_buffered_io r2]]
      keepsD [OF rd.keeps_restore_io_flags r4] .
  have i2: "wf_os s2" "fd_part s2 fd = Some p" "quiet s2 p" "region s2 p = region s p"
    using reads_inv [OF w(1) wf] p q wf_fd_part [OF wf p] by simp_all
  have w3: "writes p s2 s3"
    using pwrite_full_frame [OF r3 i2(2,1)] by (simp add: writes_def)
  have i3: "wf_os s3" "fd_part s3 fd = Some p" "quiet s3 p" "region s3 p = patch (psize p - 128) ?raw (region s p)"
    using writes_inv [OF w3 i2(1)] i2 pwrite_full_correct [OF _ i2(2,1,3)] r3 by simp_all
  have i4: "wf_os s4" "fd_part s4 fd = Some p" "quiet s4 p" "region s4 p = region s3 p"
    using reads_inv [OF w(2) i3(1)] i3 wf_fd_part [OF i3(1,2)] by simp_all
  show "stable_region s' p = region s' p" "region s' p = patch (psize p - 128) ?raw (region s p)"
    using sys_fsync_spec(2,3) [OF r5 i4(2,1)] i4 i3 by simp_all
qed

lemma fd_direct_upd_id: "fds s fd = Some d \<Longrightarrow> \<not> fd_direct d \<Longrightarrow> s\<lparr>fds := (fds s)(fd \<mapsto> d\<lparr>fd_direct := False\<rparr>)\<rparr> = s"
  by (cases d) (simp add: fun_upd_idem)

lemma set_buffered_io_calm [calm]:
  assumes "env s = []" "fds s fd = Some d"
  shows "run_state (set_buffered_io fd) s = (Inr (fd_direct d), s\<lparr>fds := (fds s)(fd \<mapsto> d\<lparr>fd_direct := False\<rparr>)\<rparr>)"
  using assms fd_direct_upd_id [OF assms(2)]
  by (simp add: set_buffered_io_def sys_getfl_direct_def sys_setfl_direct_def calm)

lemma restore_io_flags_calm [calm]:
  assumes "env s = []" "fds s fd = Some (d\<lparr>fd_direct := False\<rparr>)"
  shows "run_state (restore_io_flags fd (fd_direct d)) s = (Inr (), s\<lparr>fds := (fds s)(fd \<mapsto> d)\<rparr>)"
  using assms by (cases d) (auto simp: restore_io_flags_def sys_setfl_direct_def calm fun_upd_idem)

lemma aligned_buffered: "\<not> misaligned (d\<lparr>fd_direct := False\<rparr>) p n off"
  by (simp add: misaligned_def)

lemma read_descriptor_calm [calm]:
  assumes "env s = []" "fds s fd = Some d" "fd_node d = Blk p" "4096 < psize p" "in_disk s p"
  shows "run_state (read_descriptor fd) s = (stored_descriptor (region s p), s)"
proof -
  let ?t = "s\<lparr>fds := (fds s)(fd \<mapsto> d\<lparr>fd_direct := False\<rparr>)\<rparr>"
  have "in_disk ?t p" "region ?t p = region s p"
    using assms(5) by (simp_all add: in_disk_def region_def)
  then have "run_state (pread_full fd 128 (psize p - 128)) ?t = (Inr (bslice (psize p - 128) 128 (region s p)), ?t)"
    using assms by (subst pread_full_calm [where d = "d\<lparr>fd_direct := False\<rparr>" and p = p]) (auto simp: aligned_buffered)
  moreover have "run_state (restore_io_flags fd (fd_direct d)) ?t = (Inr (), s)"
    using assms by (simp add: calm fun_upd_idem)
  ultimately show ?thesis
    using assms length_region [OF assms(5)]
    by (simp add: read_descriptor_def calm descriptor_layout stored_descriptor_def)
qed

definition fsynced :: "part \<Rightarrow> os \<Rightarrow> os" where
  "fsynced p s = s\<lparr>stable := (stable s)(disk p := patch (pstart p) (region s p) (stable s (disk p)))\<rparr>"

lemma write_descriptor_calm [calm]:
  assumes "env s = []" "fds s fd = Some d" "fd_node d = Blk p" "fd_rdwr d" "4096 < psize p" "length dg = 32"
  shows "run_state (write_descriptor fd dg) s =
    (EXIT_OK, fsynced p (write_disk p (psize p - 128) (make_descriptor (psize p - 4096) dg) s))"
proof -
  let ?t = "s\<lparr>fds := (fds s)(fd \<mapsto> d\<lparr>fd_direct := False\<rparr>)\<rparr>"
  let ?raw = "make_descriptor (psize p - 4096) dg"
  have ne: "?raw \<noteq> []" using length_make_descriptor [OF assms(6)] by (metis list.size(3) zero_neq_numeral)
  have "run_state (pwrite_full fd ?raw (psize p - 128)) ?t = (Inr (), write_disk p (psize p - 128) ?raw ?t)"
    using assms ne by (subst pwrite_full_calm [where d = "d\<lparr>fd_direct := False\<rparr>" and p = p]) (auto simp: aligned_buffered)
  moreover have "run_state (restore_io_flags fd (fd_direct d)) (write_disk p (psize p - 128) ?raw ?t)
      = (Inr (), write_disk p (psize p - 128) ?raw s)"
    using assms by (subst restore_io_flags_calm) (auto simp: write_disk_def fun_upd_idem)
  ultimately show ?thesis
    using assms by (simp add: write_descriptor_def calm descriptor_layout sys_fsync_def fsynced_def)
qed

text \<open>
  C22 (write then read).  When \<^verbatim>\<open>write_descriptor\<close> has reported success on a device nobody else writes, a
  later \<^verbatim>\<open>read_descriptor\<close> of that device either hits an I/O error or accepts the descriptor and returns
  exactly the digest that was written; the bytes are on stable storage by then.
\<close>

theorem write_read_descriptor:
  assumes "run_state (write_descriptor fd d) s = (EXIT_OK, s1)" and "length d = 32"
    and "wf_os s" and "fd_part s fd = Some p" and "quiet s p"
    and "run_state (read_descriptor fd) s1 = (r, s2)"
  shows "(r = Inr d \<or> r = Inl EXIT_IO_ERROR) \<and> stored_descriptor (stable_region s1 p) = Inr d"
proof -
  note w = write_descriptor_correct [OF assms(1-5)]
  note i = writes_inv [OF write_descriptor_frame [OF assms(1,3,4)] assms(3)]
  have "length (region s p) = psize p"
    using assms(3,4) wf_fd_part length_region by blast
  then have "stored_descriptor (region s1 p) = Inr d"
    using w stored_descriptor_written [OF assms(2), of "region s p"] by simp
  then show ?thesis
    using read_descriptor_result [OF assms(6)] i assms(4,5) w(2) by auto
qed

theorem write_read_descriptor_witness:
  "\<exists>s1 s2. run_state (write_descriptor 3 (replicate 32 7)) ex_os = (EXIT_OK, s1) \<and>
     run_state (read_descriptor 3) s1 = (Inr (replicate 32 7), s2) \<and>
     stored_descriptor (stable_region s1 ex_a) = Inr (replicate 32 7)"
proof -
  let ?s1 = "fsynced ex_a (write_disk ex_a 8064 (make_descriptor 4096 (replicate 32 7)) ex_os)"
  have w: "run_state (write_descriptor 3 (replicate 32 7)) ex_os = (EXIT_OK, ?s1)"
    using write_descriptor_calm [OF ex_fields(1) ex_fields(5), of ex_a "replicate 32 7"] by simp
  have "in_disk ?s1 ex_a" by (simp add: fsynced_def in_disk_def write_disk_def region_def)
  then have r: "run_state (read_descriptor 3) ?s1 = (stored_descriptor (region ?s1 ex_a), ?s1)"
    using read_descriptor_calm [of ?s1 3 _ ex_a] by (simp add: fsynced_def)
  have "region ?s1 ex_a = region (write_disk ex_a 8064 (make_descriptor 4096 (replicate 32 7)) ex_os) ex_a"
    by (simp add: fsynced_def region_def)
  also have "\<dots> = patch (length (region ex_os ex_a) - 128)
      (make_descriptor (length (region ex_os ex_a) - 4096) (replicate 32 7)) (region ex_os ex_a)"
    by (simp add: region_write_disk length_region)
  finally have "stored_descriptor (region ?s1 ex_a) = Inr (replicate 32 7)"
    using stored_descriptor_written [of "replicate 32 7" "region ex_os ex_a"] by (simp add: length_region)
  with r w write_read_descriptor [OF w _ _ _ _ r, of ex_a] show ?thesis by simp
qed

subsection \<open>Corrupted descriptors\<close>

definition crc_ok :: "bytes \<Rightarrow> bool" where
  "crc_ok raw \<longleftrightarrow> get_le32 (hash_crc32 (patch 64 (replicate 4 0) raw)) 0 = get_le32 raw 64"

lemma validate_crc: "validate_descriptor raw n = Inr d \<Longrightarrow> crc_ok raw"
  by (auto simp: validate_descriptor_def descriptor_layout crc_ok_def Let_def split: if_splits)

lemma validate_no_crc: "\<not> crc_ok raw \<Longrightarrow> validate_descriptor raw n = Inl EXIT_METADATA_INVALID"
  by (simp add: validate_descriptor_def descriptor_layout crc_ok_def Let_def)

lemma nth_patch:
  assumes "off + length ys \<le> length xs" and "k < length xs"
  shows "patch off ys xs ! k = (if off \<le> k \<and> k < off + length ys then ys ! (k - off) else xs ! k)"
  using assms by (auto simp: patch_def nth_append min_def)

lemma patch_commute:
  assumes "i + length w \<le> j \<or> j + length z \<le> i" and "i + length w \<le> length xs" and "j + length z \<le> length xs"
  shows "patch j z (patch i w xs) = patch i w (patch j z xs)"
proof (rule nth_equalityI)
  show "length (patch j z (patch i w xs)) = length (patch i w (patch j z xs))"
    using assms by simp
  fix k assume "k < length (patch j z (patch i w xs))"
  then show "patch j z (patch i w xs) ! k = patch i w (patch j z xs) ! k"
    using assms by (simp add: nth_patch) linarith
qed

lemma patch_shadow:
  assumes "j \<le> i" "i + length w \<le> j + length z" "j + length z \<le> length xs"
  shows "patch j z (patch i w xs) = patch j z xs"
proof (rule nth_equalityI)
  show "length (patch j z (patch i w xs)) = length (patch j z xs)"
    using assms by simp
  fix k assume "k < length (patch j z (patch i w xs))"
  then show "patch j z (patch i w xs) ! k = patch j z xs ! k"
    using assms by (simp add: nth_patch)
qed

lemma hash_crc32_patch:
  assumes "length w \<le> 4" "i + length w \<le> length xs" "hash_crc32 (patch i w xs) = hash_crc32 xs"
  shows "bslice i (length w) xs = w"
proof -
  have "xs = take i xs @ bslice i (length w) xs @ drop (i + length w) xs"
    using patch_slice_id [OF assms(2)] assms(2) by (simp add: patch_def)
  then have "hash_crc32 (take i xs @ bslice i (length w) xs @ drop (i + length w) xs)
      = hash_crc32 (take i xs @ w @ drop (i + length w) xs)"
    using assms(3) by (simp add: patch_def)
  then show ?thesis
    using assms hash_crc32_window [of "bslice i (length w) xs" w] by auto
qed

lemma hash_crc32_le: "get_le32 (hash_crc32 xs) 0 = get_le32 (hash_crc32 ys) 0 \<Longrightarrow> hash_crc32 xs = hash_crc32 ys"
  using get_le32_inj [of 0 "hash_crc32 xs" "hash_crc32 ys"] by (simp add: bslice_def)

text \<open>
  C23 (corruption is refused).  Take a descriptor that is accepted and overwrite up to four
  consecutive bytes of it, all before the checksum field, all inside it or all after it.  Unless the
  bytes are the ones that were there, the result is refused as invalid metadata, for every device size.
  In particular no single damaged byte goes unnoticed.
\<close>

theorem validate_descriptor_detects:
  assumes "validate_descriptor raw n = Inr d" and "length raw = 128"
    and "length w \<le> 4" and "i + length w \<le> 128" and "bslice i (length w) raw \<noteq> w"
    and "i + length w \<le> 64 \<or> (64 \<le> i \<and> i + length w \<le> 68) \<or> 68 \<le> i"
  shows "validate_descriptor (patch i w raw) m = Inl EXIT_METADATA_INVALID"
proof (rule validate_no_crc)
  let ?z = "replicate 4 (0 :: u8)"
  have ok: "crc_ok raw" using assms(1) by (rule validate_crc)
  show "\<not> crc_ok (patch i w raw)"
  proof (cases "64 \<le> i \<and> i + length w \<le> 68")
    case True
    then have "patch 64 ?z (patch i w raw) = patch 64 ?z raw"
      using assms(2) by (intro patch_shadow) auto
    moreover have "get_le32 (patch i w raw) 64 \<noteq> get_le32 raw 64"
    proof
      assume "get_le32 (patch i w raw) 64 = get_le32 raw 64"
      then have "bslice 64 4 (patch i w raw) = bslice 64 4 raw"
        using assms(2,4) by (intro get_le32_inj) auto
      then have "bslice (i - 64) (length w) (bslice 64 4 (patch i w raw)) =
          bslice (i - 64) (length w) (bslice 64 4 raw)" by simp
      then have "bslice i (length w) (patch i w raw) = bslice i (length w) raw"
        using True slice_slice [of "i - 64" "length w" 4 64 raw]
          slice_slice [of "i - 64" "length w" 4 64 "patch i w raw"] by auto
      then show False using assms by (simp add: slice_patch_same)
    qed
    ultimately show ?thesis using ok by (simp add: crc_ok_def)
  next
    case False
    then have out: "i + length w \<le> 64 \<or> 64 + length ?z \<le> i" using assms(6) by auto
    then have "bslice 64 4 (patch i w raw) = bslice 64 4 raw"
      using assms(2,4) by (auto simp: slice_patch_before slice_patch_after)
    then have same: "get_le32 (patch i w raw) 64 = get_le32 raw 64"
      using get_le32_slice [of 64 raw] get_le32_slice [of 64 "patch i w raw"] assms(2,4) by simp
    have "patch 64 ?z (patch i w raw) = patch i w (patch 64 ?z raw)"
      using out assms(2,4) by (intro patch_commute) auto
    moreover have "bslice i (length w) (patch 64 ?z raw) = bslice i (length w) raw"
      using out assms(2,4) by (auto simp: slice_patch_before slice_patch_after)
    ultimately have "hash_crc32 (patch 64 ?z (patch i w raw)) \<noteq> hash_crc32 (patch 64 ?z raw)"
      using hash_crc32_patch [OF assms(3), of i "patch 64 ?z raw"] assms(2,4,5) by auto
    then show ?thesis
      using ok same hash_crc32_le unfolding crc_ok_def by metis
  qed
qed

theorem validate_descriptor_detects_witness:
  "validate_descriptor (make_descriptor 4096 (replicate 32 5)) 4096 = Inr (replicate 32 5) \<and>
   validate_descriptor (patch 32 [7] (make_descriptor 4096 (replicate 32 5))) 4096 = Inl EXIT_METADATA_INVALID"
proof -
  let ?raw = "make_descriptor 4096 (replicate 32 5)"
  have v: "validate_descriptor ?raw 4096 = Inr (replicate 32 5)"
    by (simp add: validate_make_descriptor)
  have "bslice 32 1 ?raw = bslice 0 1 (bslice 32 32 ?raw)"
    by (simp add: slice_slice)
  also have "\<dots> = bslice 0 1 (replicate 32 5)"
    by (simp only: make_descriptor_field_values(7) [of "replicate 32 5" 4096] length_replicate)
  finally have "bslice 32 (length [7 :: u8]) ?raw \<noteq> [7]"
    by (simp add: bslice_def)
  with v validate_descriptor_detects [OF v, of "[7]" 32 4096] show ?thesis by simp
qed

end
