(* ===== verification/Hash_Ring.thy ===== *)
theory Hash_Ring
  imports Prelude
begin

text \<open>
  The two-thread pipeline of \<^verbatim>\<open>hash_sha256_fd\<close> in \<^verbatim>\<open>hash.c\<close>: \<^verbatim>\<open>producer_thread\<close> reads chunks into a ring of eight
  slots, \<^verbatim>\<open>consumer_thread\<close> feeds them to the digest.  Each thread is a step function over its program
  counter; one step is one access to the shared \<^verbatim>\<open>struct ring\<close>, together with the thread-local work up to
  it.  A run interleaves the steps arbitrarily.

  The outcome of the \<^verbatim>\<open>pread\<close> of each chunk is the argument \<open>ch\<close> (\<open>None\<close> for an error or a short read), and
  the outcome of each OpenSSL call is the boolean argument of the consumer's step.  The bytes given to
  the digest are kept in \<open>acc\<close>.
\<close>

subsection \<open>Definitions\<close>

definition RING_SLOTS :: nat where "RING_SLOTS = 8"

record ring =
  slots :: "bytes list"
  head :: u32
  tail :: u32
  rdone :: bool
  error :: bool

datatype ppc = P_Load_Head | P_Check_Error u32 | P_Read | P_Publish
  | P_Set_Error | P_Error_Done | P_Set_Done | P_End

datatype cpc = C_Init | C_Load_Tail | C_Check_Done u32 | C_Update | C_Publish
  | C_Set_Error | C_Error_Done | C_Finish | C_End

record threads = ring +
  ppc :: ppc
  p_tail :: u32
  p_chunk :: nat
  cpc :: cpc
  c_head :: u32
  c_error :: bool
  acc :: "bytes list"

text \<open>The head of the producer's \<^verbatim>\<open>while\<close> loop: the offset is below the size while chunks are left.\<close>

definition p_loop :: "nat \<Rightarrow> nat \<Rightarrow> ppc" where
  "p_loop n k = (if k < n then P_Load_Head else P_Set_Done)"

definition ring_init :: "nat \<Rightarrow> threads" where
  "ring_init n = \<lparr>slots = replicate RING_SLOTS [], head = 0, tail = 0, rdone = False, error = False,
     ppc = p_loop n 0, p_tail = 0, p_chunk = 0, cpc = C_Init, c_head = 0, c_error = False, acc = []\<rparr>"

fun p_step :: "bytes option list \<Rightarrow> threads \<Rightarrow> threads option" where
  "p_step ch s =
     (case ppc s of
        P_Load_Head \<Rightarrow> Some (s\<lparr>ppc := P_Check_Error (head s)\<rparr>)
      | P_Check_Error h \<Rightarrow>
          Some (if error s then s\<lparr>ppc := P_End\<rparr>
                else if p_tail s - h < of_nat RING_SLOTS then s\<lparr>ppc := P_Read\<rparr>
                else s\<lparr>ppc := P_Load_Head\<rparr>)
      | P_Read \<Rightarrow>
          (case ch ! p_chunk s of
             None \<Rightarrow> Some (s\<lparr>ppc := P_Set_Error\<rparr>)
           | Some bs \<Rightarrow>
               Some (s\<lparr>slots := (slots s)[unat (p_tail s mod of_nat RING_SLOTS) := bs], ppc := P_Publish\<rparr>))
      | P_Publish \<Rightarrow>
          Some (s\<lparr>tail := p_tail s + 1, p_tail := p_tail s + 1, p_chunk := p_chunk s + 1,
                  ppc := p_loop (length ch) (p_chunk s + 1)\<rparr>)
      | P_Set_Error \<Rightarrow> Some (s\<lparr>error := True, ppc := P_Error_Done\<rparr>)
      | P_Error_Done \<Rightarrow> Some (s\<lparr>rdone := True, ppc := P_End\<rparr>)
      | P_Set_Done \<Rightarrow> Some (s\<lparr>rdone := True, ppc := P_End\<rparr>)
      | P_End \<Rightarrow> None)"

fun c_step :: "bool \<Rightarrow> threads \<Rightarrow> threads option" where
  "c_step ok s =
     (case cpc s of
        C_Init \<Rightarrow> Some (if ok then s\<lparr>cpc := C_Load_Tail\<rparr> else s\<lparr>c_error := True, cpc := C_End\<rparr>)
      | C_Load_Tail \<Rightarrow>
          Some (if c_head s < tail s then s\<lparr>cpc := C_Update\<rparr> else s\<lparr>cpc := C_Check_Done (tail s)\<rparr>)
      | C_Check_Done t \<Rightarrow>
          Some (if rdone s \<and> t \<le> c_head s then s\<lparr>cpc := C_Finish\<rparr> else s\<lparr>cpc := C_Load_Tail\<rparr>)
      | C_Update \<Rightarrow>
          Some (if ok
                then s\<lparr>acc := acc s @ [slots s ! unat (c_head s mod of_nat RING_SLOTS)], cpc := C_Publish\<rparr>
                else s\<lparr>c_error := True, cpc := C_Set_Error\<rparr>)
      | C_Publish \<Rightarrow> Some (s\<lparr>c_head := c_head s + 1, head := c_head s + 1, cpc := C_Load_Tail\<rparr>)
      | C_Set_Error \<Rightarrow> Some (s\<lparr>error := True, cpc := C_Error_Done\<rparr>)
      | C_Error_Done \<Rightarrow> Some (s\<lparr>rdone := True, cpc := C_End\<rparr>)
      | C_Finish \<Rightarrow> Some (if \<not> error s \<and> \<not> ok then s\<lparr>c_error := True, cpc := C_End\<rparr> else s\<lparr>cpc := C_End\<rparr>)
      | C_End \<Rightarrow> None)"

inductive rstep :: "bytes option list \<Rightarrow> threads \<Rightarrow> threads \<Rightarrow> bool" for ch where
  producer: "p_step ch s = Some s' \<Longrightarrow> rstep ch s s'"
| consumer: "c_step ok s = Some s' \<Longrightarrow> rstep ch s s'"

text \<open>What \<^verbatim>\<open>hash_sha256_fd\<close> makes of the two threads once both are joined: the digested data, or an error.\<close>

definition finished :: "threads \<Rightarrow> bool" where
  "finished s \<longleftrightarrow> ppc s = P_End \<and> cpc s = C_End"

definition ring_result :: "threads \<Rightarrow> bytes list option" where
  "ring_result s = (if error s \<or> c_error s then None else Some (acc s))"

inductive reachable :: "bytes option list \<Rightarrow> threads \<Rightarrow> bool" for ch where
  start: "reachable ch (ring_init (length ch))"
| step: "reachable ch s \<Longrightarrow> rstep ch s s' \<Longrightarrow> reachable ch s'"

subsection \<open>The invariant\<close>

text \<open>
  With fewer than \<open>2\<^sup>32\<close> chunks the 32-bit counters do not wrap.  \<open>k\<close> is the number of chunks the consumer has
  released; the slots between \<open>k\<close> and the producer's position hold exactly those chunks.
\<close>

definition ring_inv :: "bytes option list \<Rightarrow> nat \<Rightarrow> threads \<Rightarrow> bool" where
  "ring_inv ch k s \<longleftrightarrow>
     p_chunk s \<le> length ch \<and> p_tail s = of_nat (p_chunk s) \<and> tail s = of_nat (p_chunk s) \<and>
     head s = of_nat k \<and> c_head s = of_nat k \<and> k \<le> p_chunk s \<and> p_chunk s \<le> k + 8 \<and>
     length (slots s) = 8 \<and>
     (\<forall>j < p_chunk s. ch ! j \<noteq> None) \<and>
     (\<forall>j. k \<le> j \<and> j < p_chunk s \<longrightarrow> ch ! j = Some (slots s ! (j mod 8))) \<and>
     acc s = map the (take (if cpc s = C_Publish then Suc k else k) ch) \<and>
     (\<forall>h. ppc s = P_Check_Error h \<longrightarrow> (\<exists>h0 \<le> k. h = of_nat h0 \<and> p_chunk s \<le> h0 + 8)) \<and>
     (ppc s = P_Read \<longrightarrow> p_chunk s < k + 8) \<and>
     (ppc s = P_Publish \<longrightarrow> p_chunk s < k + 8 \<and> ch ! p_chunk s = Some (slots s ! (p_chunk s mod 8))) \<and>
     (ppc s \<in> {P_Load_Head, P_Read, P_Publish} \<or> (\<exists>h. ppc s = P_Check_Error h) \<longrightarrow> p_chunk s < length ch) \<and>
     (cpc s = C_Update \<or> cpc s = C_Publish \<longrightarrow> k < p_chunk s) \<and>
     (ppc s = P_Error_Done \<longrightarrow> error s) \<and>
     (\<not> error s \<and> ppc s \<in> {P_Set_Done, P_End} \<longrightarrow> p_chunk s = length ch)"

lemma unat_of_nat32: "n < 2 ^ 32 \<Longrightarrow> unat (of_nat n :: u32) = n"
  by (simp add: unsigned_of_nat take_bit_nat_eq_self)

lemma slot_neq: "a < b \<Longrightarrow> b < a + 8 \<Longrightarrow> a mod 8 \<noteq> b mod (8 :: nat)"
  using mod_eq_dvd_iff_nat [of a b 8] nat_dvd_not_less [of "b - a" 8] by auto

lemma mod_slot: "unat ((of_nat k :: u32) mod of_nat RING_SLOTS) = k mod 8" if "k < 2 ^ 32"
proof -
  have "unat (of_nat k :: u32) = k" using that by (simp add: unat_of_nat32)
  then show ?thesis by (simp add: RING_SLOTS_def unat_mod)
qed

lemma of_nat_diff_less:
  assumes "h \<le> p" "p \<le> h + 8" "p < 2 ^ 32"
  shows "(of_nat p - of_nat h :: u32) < of_nat RING_SLOTS \<longleftrightarrow> p < h + 8"
proof -
  have "of_nat p - of_nat h = (of_nat (p - h) :: u32)" using assms(1) by (simp add: of_nat_diff)
  moreover have "unat (of_nat (p - h) :: u32) = p - h" using assms by (intro unat_of_nat32) simp
  ultimately show ?thesis using assms by (auto simp: RING_SLOTS_def word_less_nat_alt)
qed

lemma of_nat_less32: "a < 2 ^ 32 \<Longrightarrow> b < 2 ^ 32 \<Longrightarrow> (of_nat a :: u32) < of_nat b \<longleftrightarrow> a < b"
  by (simp add: word_less_nat_alt unat_of_nat32)

lemma ring_inv_init: "ring_inv ch 0 (ring_init (length ch))"
  by (simp add: ring_inv_def ring_init_def p_loop_def RING_SLOTS_def)

lemma ring_inv_p_step:
  assumes inv: "ring_inv ch k s" and n: "length ch < 2 ^ 32" and st: "p_step ch s = Some s'"
  shows "ring_inv ch k s'"
proof (cases "ppc s")
  case P_Load_Head
  with st have s': "s' = s\<lparr>ppc := P_Check_Error (head s)\<rparr>" by simp
  show ?thesis using inv P_Load_Head by (auto simp: ring_inv_def s' )
next
  case (P_Check_Error h)
  then obtain h0 where h0: "h = of_nat h0" "h0 \<le> k" "p_chunk s \<le> h0 + 8" using inv by (auto simp: ring_inv_def)
  have i: "p_tail s = of_nat (p_chunk s)" "p_chunk s \<le> length ch" "k \<le> p_chunk s"
    using inv by (simp_all add: ring_inv_def)
  have room: "p_chunk s < k + 8" if "p_tail s - h < of_nat RING_SLOTS"
    using that i n h0 of_nat_diff_less [of h0 "p_chunk s"] by simp
  consider "error s" "s' = s\<lparr>ppc := P_End\<rparr>"
    | "p_tail s - h < of_nat RING_SLOTS" "s' = s\<lparr>ppc := P_Read\<rparr>"
    | "s' = s\<lparr>ppc := P_Load_Head\<rparr>"
    using st P_Check_Error by (auto split: if_splits)
  then show ?thesis
    using inv room P_Check_Error by cases (simp_all add: ring_inv_def)
next
  case P_Read
  then have pk: "p_chunk s < k + 8" "p_chunk s < length ch" "p_tail s = of_nat (p_chunk s)"
    using inv by (auto simp: ring_inv_def)
  then have m: "unat (p_tail s mod of_nat RING_SLOTS) = p_chunk s mod 8" using n by (simp add: mod_slot)
  have other: "j mod 8 \<noteq> p_chunk s mod 8" if "k \<le> j" "j < p_chunk s" for j
    using slot_neq [of j "p_chunk s"] that pk(1) by simp
  consider "s' = s\<lparr>ppc := P_Set_Error\<rparr>"
    | bs where "ch ! p_chunk s = Some bs" "s' = s\<lparr>slots := (slots s)[p_chunk s mod 8 := bs], ppc := P_Publish\<rparr>"
    using st P_Read m by (auto split: option.splits)
  then show ?thesis
  proof cases
    case 1
    with inv P_Read show ?thesis by (simp add: ring_inv_def)
  next
    case 2
    have "ch ! j = Some (slots s' ! (j mod 8))" if "k \<le> j" "j < p_chunk s" for j
      using inv other [OF that] that 2 by (simp add: ring_inv_def)
    with inv P_Read pk 2 show ?thesis by (simp add: ring_inv_def)
  qed
next
  case P_Publish
  then have s': "s' = s\<lparr>tail := p_tail s + 1, p_tail := p_tail s + 1, p_chunk := Suc (p_chunk s),
      ppc := p_loop (length ch) (Suc (p_chunk s))\<rparr>" using st by simp
  have c: "ch ! p_chunk s = Some (slots s ! (p_chunk s mod 8))" using inv P_Publish by (simp add: ring_inv_def)
  have "ch ! j = Some (slots s ! (j mod 8))" if "k \<le> j" "j < Suc (p_chunk s)" for j
    using inv c that by (cases "j = p_chunk s") (simp_all add: ring_inv_def)
  moreover have "ch ! j \<noteq> None" if "j < Suc (p_chunk s)" for j
    using inv c that by (cases "j = p_chunk s") (simp_all add: ring_inv_def)
  moreover have "p_chunk s < k + 8" "p_chunk s < length ch" "acc s' = acc s"
    using inv P_Publish by (simp_all add: ring_inv_def s')
  ultimately show ?thesis
    using inv P_Publish unfolding ring_inv_def s' by (simp add: p_loop_def)
next
  case P_Set_Error
  then have s': "s' = s\<lparr>error := True, ppc := P_Error_Done\<rparr>" using st by simp
  show ?thesis using inv P_Set_Error by (simp add: ring_inv_def s')
next
  case P_Error_Done
  then have s': "s' = s\<lparr>rdone := True, ppc := P_End\<rparr>" using st by simp
  show ?thesis using inv P_Error_Done by (simp add: ring_inv_def s')
next
  case P_Set_Done
  then have s': "s' = s\<lparr>rdone := True, ppc := P_End\<rparr>" using st by simp
  show ?thesis using inv P_Set_Done by (simp add: ring_inv_def s')
next
  case P_End
  then show ?thesis using st by simp
qed

lemma ring_inv_c_step:
  assumes inv: "ring_inv ch k s" and n: "length ch < 2 ^ 32" and st: "c_step ok s = Some s'"
  shows "ring_inv ch (if cpc s = C_Publish then Suc k else k) s'"
proof -
  have i: "k < 2 ^ 32" "p_chunk s < 2 ^ 32" "c_head s = of_nat k" "tail s = of_nat (p_chunk s)"
    using inv n by (simp_all add: ring_inv_def)
  show ?thesis
  proof (cases "cpc s")
    case C_Load_Tail
    then have s': "s' = (if k < p_chunk s then s\<lparr>cpc := C_Update\<rparr> else s\<lparr>cpc := C_Check_Done (tail s)\<rparr>)"
      using st of_nat_less32 [OF i(1,2)] i(3,4) by simp
    show ?thesis using inv C_Load_Tail by (simp add: ring_inv_def s')
  next
    case C_Update
    then have k: "k < p_chunk s" using inv by (simp add: ring_inv_def)
    then have c: "ch ! k = Some (slots s ! (k mod 8))" "k < length ch"
      using inv by (simp_all add: ring_inv_def)
    have "unat (c_head s mod of_nat RING_SLOTS) = k mod 8" using i mod_slot by simp
    then have s': "s' = (if ok then s\<lparr>acc := acc s @ [slots s ! (k mod 8)], cpc := C_Publish\<rparr>
        else s\<lparr>c_error := True, cpc := C_Set_Error\<rparr>)" using st C_Update by auto
    have "map the (take (Suc k) ch) = map the (take k ch) @ [slots s ! (k mod 8)]"
      using c by (simp add: take_Suc_conv_app_nth)
    with inv k C_Update show ?thesis by (simp add: ring_inv_def s')
  next
    case C_Publish
    then have s': "s' = s\<lparr>c_head := c_head s + 1, head := c_head s + 1, cpc := C_Load_Tail\<rparr>" using st by simp
    have "\<exists>h0 \<le> Suc k. h = of_nat h0 \<and> p_chunk s \<le> h0 + 8" if "ppc s = P_Check_Error h" for h
      using inv that by (auto simp: ring_inv_def intro: le_SucI)
    with inv C_Publish show ?thesis by (cases "ppc s") (auto simp add: ring_inv_def s')
  next
    case C_Init
    then have s': "s' = (if ok then s\<lparr>cpc := C_Load_Tail\<rparr> else s\<lparr>c_error := True, cpc := C_End\<rparr>)" using st by simp
    show ?thesis using inv C_Init by (simp add: ring_inv_def s')
  next
    case (C_Check_Done t)
    then have "s' = s\<lparr>cpc := C_Finish\<rparr> \<or> s' = s\<lparr>cpc := C_Load_Tail\<rparr>" using st by (simp split: if_splits)
    with inv C_Check_Done show ?thesis by (elim disjE) (simp_all add: ring_inv_def)
  next
    case C_Set_Error
    then have s': "s' = s\<lparr>error := True, cpc := C_Error_Done\<rparr>" using st by simp
    show ?thesis using inv C_Set_Error by (simp add: ring_inv_def s')
  next
    case C_Error_Done
    then have s': "s' = s\<lparr>rdone := True, cpc := C_End\<rparr>" using st by simp
    show ?thesis using inv C_Error_Done by (simp add: ring_inv_def s')
  next
    case C_Finish
    then have "s' = s\<lparr>c_error := True, cpc := C_End\<rparr> \<or> s' = s\<lparr>cpc := C_End\<rparr>" using st by (simp split: if_splits)
    with inv C_Finish show ?thesis by (elim disjE) (simp_all add: ring_inv_def)
  next
    case C_End
    then show ?thesis using st by simp
  qed
qed

lemma reachable_inv: "reachable ch s \<Longrightarrow> length ch < 2 ^ 32 \<Longrightarrow> \<exists>k. ring_inv ch k s"
proof (induction rule: reachable.induct)
  case start
  then show ?case using ring_inv_init by blast
next
  case (step s s')
  then obtain k where k: "ring_inv ch k s" by blast
  from step.hyps(2) show ?case
  proof cases
    case producer
    then show ?thesis using ring_inv_p_step [OF k step.prems] by blast
  next
    case (consumer ok)
    then show ?thesis using ring_inv_c_step [OF k step.prems] by blast
  qed
qed

subsection \<open>What a run of the pipeline guarantees\<close>

text \<open>A schedule names the thread that moves next; the consumer's library calls succeed.\<close>

fun run_steps :: "bytes option list \<Rightarrow> bool list \<Rightarrow> threads \<Rightarrow> threads option" where
  "run_steps ch [] s = Some s"
| "run_steps ch (p # ps) s =
     (case (if p then p_step ch s else c_step True s) of None \<Rightarrow> None | Some s' \<Rightarrow> run_steps ch ps s')"

lemma run_steps_reachable: "reachable ch s \<Longrightarrow> run_steps ch ps s = Some s' \<Longrightarrow> reachable ch s'"
proof (induction ps arbitrary: s)
  case (Cons p ps)
  then obtain t where t: "(if p then p_step ch s else c_step True s) = Some t" "run_steps ch ps t = Some s'"
    by (auto split: option.splits)
  then have "rstep ch s t" by (auto intro: rstep.intros split: if_splits)
  with Cons t show ?case by (blast intro: reachable.step)
qed simp

text \<open>
  C15 (the threads never meet in a slot).  Under every interleaving, when the producer is about to fill
  a slot and the consumer is about to digest one, the slots are different, and the consumer's slot
  holds the chunk that is due next.
\<close>

theorem ring_no_overwrite:
  assumes "reachable ch s" and "length ch < 2 ^ 32" and "cpc s = C_Update"
  shows "ch ! length (acc s) = Some (slots s ! unat (c_head s mod of_nat RING_SLOTS)) \<and>
    (ppc s = P_Read \<longrightarrow> unat (p_tail s mod of_nat RING_SLOTS) \<noteq> unat (c_head s mod of_nat RING_SLOTS))"
proof -
  obtain k where k: "ring_inv ch k s" using reachable_inv [OF assms(1,2)] ..
  then have b: "k < p_chunk s" "p_chunk s \<le> length ch" "c_head s = of_nat k" "p_tail s = of_nat (p_chunk s)"
      "ch ! k = Some (slots s ! (k mod 8))" "acc s = map the (take k ch)" "ppc s = P_Read \<Longrightarrow> p_chunk s < k + 8"
    using assms(3) by (simp_all add: ring_inv_def)
  have m: "unat (c_head s mod of_nat RING_SLOTS) = k mod 8"
      "unat (p_tail s mod of_nat RING_SLOTS) = p_chunk s mod 8"
    using b assms(2) mod_slot by simp_all
  show ?thesis
    using b slot_neq [OF b(1)] unfolding m by (simp add: eq_commute)
qed

theorem ring_no_overwrite_witness:
  "\<exists>s. run_steps [Some [7]] [True, True, True, True, False, False] (ring_init 1) = Some s \<and>
     [Some [7]] ! length (acc s) = Some (slots s ! unat (c_head s mod of_nat RING_SLOTS))"
proof -
  obtain s where s: "run_steps [Some [7]] [True, True, True, True, False, False] (ring_init 1) = Some s"
      "cpc s = C_Update"
    by (simp add: ring_init_def p_loop_def RING_SLOTS_def)
  have "reachable [Some [7]] s"
    using run_steps_reachable [OF _ s(1)] reachable.start [of "[Some [7]]"] by simp
  from ring_no_overwrite [OF this _ s(2)] s(1) show ?thesis by auto
qed

text \<open>
  C16 (what is digested).  When both threads have ended without an error, every chunk has been read and
  the data given to the digest are the first chunks in order, without repetition or reordering; at
  most the last eight of them are missing.
\<close>

theorem ring_result_prefix:
  assumes "reachable ch s" and "length ch < 2 ^ 32" and "finished s" and "ring_result s = Some xs"
  shows "\<exists>k \<le> length ch. xs = map the (take k ch) \<and> length ch \<le> k + 8 \<and> (\<forall>j < length ch. ch ! j \<noteq> None)"
proof -
  obtain k where k: "ring_inv ch k s" using reachable_inv [OF assms(1,2)] ..
  have "\<not> error s" "ppc s = P_End" "cpc s = C_End" "xs = acc s"
    using assms(3,4) by (auto simp: ring_result_def finished_def split: if_splits)
  with k have "p_chunk s = length ch" "xs = map the (take k ch)" "k \<le> p_chunk s" "p_chunk s \<le> k + 8"
      "\<forall>j < p_chunk s. ch ! j \<noteq> None"
    by (simp_all add: ring_inv_def)
  then show ?thesis by auto
qed

theorem ring_result_prefix_witness:
  "\<exists>s. run_steps [Some [7]] [True, True, True, True, True, False, False, False, False, False, False, False]
      (ring_init 1) = Some s \<and> finished s \<and>
    (\<exists>k \<le> length [Some [7 :: u8]]. the (ring_result s) = map the (take k [Some [7]]))"
proof -
  obtain s where s: "run_steps [Some [7]] [True, True, True, True, True, False, False, False, False, False, False, False]
      (ring_init 1) = Some s" "finished s" "ring_result s = Some [[7]]"
    by (simp add: ring_init_def p_loop_def RING_SLOTS_def finished_def ring_result_def)
  have "reachable [Some [7]] s"
    using run_steps_reachable [OF _ s(1)] reachable.start [of "[Some [7]]"] by simp
  from ring_result_prefix [OF this _ s(2,3)] have "\<exists>k \<le> length [Some [7 :: u8]]. [[7]] = map the (take k [Some [7]])"
    by auto
  with s show ?thesis by (metis option.sel)
qed

subsection \<open>Two schedules the code does not handle\<close>

text \<open>
  C17 (the stale tail).  The consumer loads \<^verbatim>\<open>tail\<close>, the producer publishes the last chunk and sets
  \<^verbatim>\<open>done\<close>, and the consumer, finding \<^verbatim>\<open>done\<close> set, finishes with the tail it loaded before.  Both threads end, no
  error is reported, and the digest covers none of the data.
\<close>

theorem ring_stale_tail:
  "\<exists>s. reachable [Some bs] s \<and> finished s \<and> ring_result s = Some []"
proof -
  let ?sched = "[False, False, True, True, True, True, True, False, False]"
  obtain s where s: "run_steps [Some bs] ?sched (ring_init 1) = Some s" "finished s" "ring_result s = Some []"
    by (simp add: ring_init_def p_loop_def RING_SLOTS_def finished_def ring_result_def)
  have "reachable [Some bs] (ring_init 1)"
    using reachable.start [of "[Some bs]"] by simp
  then have "reachable [Some bs] s"
    using s(1) by (rule run_steps_reachable)
  with s show ?thesis by blast
qed

definition stuck_inv :: "bytes option list \<Rightarrow> threads \<Rightarrow> bool" where
  "stuck_inv ch s \<longleftrightarrow> cpc s = C_End \<and> head s = 0 \<and> \<not> error s \<and> p_chunk s \<le> 8 \<and> p_tail s = of_nat (p_chunk s) \<and>
     (ppc s = P_Load_Head \<or> ppc s = P_Check_Error 0 \<or> (ppc s = P_Read \<or> ppc s = P_Publish) \<and> p_chunk s < 8)"

lemma stuck_inv_step:
  assumes "stuck_inv ch s" and "rstep ch s s'" and "8 < length ch" and "\<forall>c \<in> set ch. c \<noteq> None"
  shows "stuck_inv ch s'"
  using assms(2)
proof cases
  case producer
  have bound: "(of_nat (p_chunk s) :: u32) < of_nat RING_SLOTS \<longleftrightarrow> p_chunk s < 8"
    using of_nat_less32 [of "p_chunk s" 8] assms(1) by (simp add: stuck_inv_def RING_SLOTS_def)
  have chunk: "ch ! p_chunk s \<noteq> None" if "p_chunk s < length ch"
    using assms(4) that nth_mem by blast
  consider "ppc s = P_Load_Head" | "ppc s = P_Check_Error 0" | "ppc s = P_Read" "p_chunk s < 8"
    | "ppc s = P_Publish" "p_chunk s < 8"
    using assms(1) by (auto simp: stuck_inv_def)
  then show ?thesis
    using assms(1,3) producer bound chunk
    by cases (auto simp: stuck_inv_def p_loop_def split: if_splits option.splits)
next
  case (consumer ok)
  then show ?thesis using assms(1) by (simp add: stuck_inv_def)
qed

text \<open>
  C18 (the consumer that never started).  When the digest cannot be initialised the consumer ends
  without telling the ring.  If there are more than eight chunks and all of them can be read, no
  continuation of the run ever ends the producer, so \<^verbatim>\<open>hash_sha256_fd\<close> waits for it forever.
\<close>

theorem ring_init_failure_hangs:
  assumes "8 < length ch" and "\<forall>c \<in> set ch. c \<noteq> None"
    and "c_step False (ring_init (length ch)) = Some s1" and "rtranclp (rstep ch) s1 s"
  shows "\<not> finished s \<and> (\<exists>s'. rstep ch s s')"
proof -
  have "stuck_inv ch s1"
    using assms(1,3) by (auto simp: ring_init_def stuck_inv_def p_loop_def split: if_splits)
  with assms(4) have "stuck_inv ch s"
    by (induction rule: rtranclp_induct) (use stuck_inv_step assms(1,2) in blast)+
  then have "ppc s \<noteq> P_End" by (auto simp: stuck_inv_def)
  then have "p_step ch s \<noteq> None" by (cases "ppc s") (simp_all split: option.split)
  then obtain s' where "p_step ch s = Some s'" by blast
  then have "rstep ch s s'" by (rule rstep.producer)
  then show ?thesis
    using \<open>ppc s \<noteq> P_End\<close> unfolding finished_def by blast
qed

theorem ring_init_failure_hangs_witness:
  "\<exists>s1. c_step False (ring_init 9) = Some s1 \<and> \<not> finished s1"
proof -
  obtain s1 where s1: "c_step False (ring_init 9) = Some s1" by (simp add: ring_init_def)
  then have "c_step False (ring_init (length (replicate 9 (Some [0 :: u8])))) = Some s1" by simp
  from ring_init_failure_hangs [OF _ _ this rtranclp.rtrancl_refl] s1 show ?thesis by auto
qed

end
