(* ===== verification/Hash_Fd.thy ===== *)
theory Hash_Fd
  imports Hash_Ring Example_Os
begin

text \<open>
  \<^verbatim>\<open>hash_sha256\<close> and \<^verbatim>\<open>hash_sha256_fd\<close> of \<^verbatim>\<open>hash.c\<close> as calls of the system model.  The digest itself is the
  parameter \<open>sha\<close>.  The pipeline is run to completion in one go: the chunks are read in order, and
  \<open>surviving\<close> says which of them reach the digest.  The environment may drop the last ones; this
  is what the threads of \<open>Hash_Ring\<close> can do, and the lemma \<open>ring_refines\<close> shows that they can do nothing else if they end without an error.
  When the digest cannot be set up the threads never end (\<open>ring_init_failure_hangs\<close>); such a run of the program does not return and has no
  counterpart here, where every run returns.
\<close>

subsection \<open>Definitions\<close>

definition CHUNK_SIZE :: nat where "CHUNK_SIZE = 8192 * 1024"

definition sha256_result :: "(bytes \<Rightarrow> bytes) \<Rightarrow> bytes \<Rightarrow> errno + bytes" where
  "sha256_result sha data = (if length (sha data) = 32 then Inr (sha data) else Inl EIO)"

definition hash_sha256 :: "(bytes \<Rightarrow> bytes) \<Rightarrow> bytes \<Rightarrow> (os, errno + bytes) state" where
  "hash_sha256 sha data = syscall (or_fail (\<lambda>r s. (sha256_result sha data, s)))"

function hash_chunks :: "nat \<Rightarrow> nat \<Rightarrow> nat \<Rightarrow> (os, errno + bytes list) state" where
  "hash_chunks fd total_size offset =
     (if offset < total_size
      then (let want = (if total_size - offset < CHUNK_SIZE then total_size - offset else CHUNK_SIZE);
                aligned_want = (want + 511) div 512 * 512
            in do {
              r \<leftarrow> sys_pread fd aligned_want offset;
              case r of
                Inl e \<Rightarrow> ret (Inl e)
              | Inr bs \<Rightarrow>
                  if bs = [] \<or> length bs < want then ret (Inl EIO)
                  else do {
                    rest \<leftarrow> hash_chunks fd total_size (offset + want);
                    case rest of
                      Inl e \<Rightarrow> ret (Inl e)
                    | Inr cs \<Rightarrow> ret (Inr (take want bs # cs))
                  }
            })
      else ret (Inr []))"
  by auto
termination
  by (relation "measure (\<lambda>(fd, total_size, offset). total_size - offset)") (auto simp: CHUNK_SIZE_def)

definition surviving :: "reply \<Rightarrow> 'a list \<Rightarrow> 'a list" where
  "surviving r cs = (case r of Lost k \<Rightarrow> take (length cs - min k RING_SLOTS) cs | _ \<Rightarrow> cs)"

definition digest_chunks :: "(bytes \<Rightarrow> bytes) \<Rightarrow> bytes list \<Rightarrow> (os, errno + bytes) state" where
  "digest_chunks sha cs = syscall (or_fail (\<lambda>r s. (sha256_result sha (concat (surviving r cs)), s)))"

definition hash_sha256_fd :: "(bytes \<Rightarrow> bytes) \<Rightarrow> nat \<Rightarrow> nat \<Rightarrow> (os, errno + bytes) state" where
  "hash_sha256_fd sha fd len =
     (if len = 0 then hash_sha256 sha []
      else do {
        buffer \<leftarrow> sys_ok;
        case buffer of
          Inl e \<Rightarrow> ret (Inl e)
        | Inr _ \<Rightarrow> do {
            threads \<leftarrow> sys_ok;
            case threads of
              Inl e \<Rightarrow> ret (Inl e)
            | Inr _ \<Rightarrow> do {
                cs \<leftarrow> hash_chunks fd len 0;
                case cs of
                  Inl e \<Rightarrow> ret (Inl e)
                | Inr chunks \<Rightarrow> digest_chunks sha chunks
              }
          }
      })"

declare hash_chunks.simps [simp del]

subsection \<open>Frames\<close>

context os_frame
begin

lemma keeps_hash_chunks: "keeps R (hash_chunks fd total_size offset)"
proof (induction fd total_size offset rule: hash_chunks.induct)
  case (1 fd total_size offset)
  then show ?case
    by (subst hash_chunks.simps) (auto simp: Let_def intro!: keeps_intros keeps_queries)
qed

lemma keeps_hash_sha256_fd: "keeps R (hash_sha256_fd sha fd len)"
  unfolding hash_sha256_fd_def hash_sha256_def digest_chunks_def
  by (intro keeps_intros keeps_queries keeps_hash_chunks keeps_fallible) (simp_all add: frame_refl)

end

subsection \<open>What is digested\<close>

lemma hash_chunks_correct:
  assumes "run_state (hash_chunks fd total_size offset) s = (Inr cs, s')"
    and "wf_os s" "fd_part s fd = Some p" "quiet s p"
  shows "concat cs = bslice offset (total_size - offset) (region s p) \<and> (offset < total_size \<longrightarrow> total_size \<le> psize p) \<and>
    (\<forall>c \<in> set cs. length c \<le> CHUNK_SIZE)"
  using assms
proof (induction fd total_size offset arbitrary: s cs rule: hash_chunks.induct)
  case (1 fd total_size offset)
  show ?case
  proof (cases "offset < total_size")
    case True
    define want where "want = (if total_size - offset < CHUNK_SIZE then total_size - offset else CHUNK_SIZE)"
    define aw where "aw = (want + 511) div 512 * 512"
    obtain r s1 where r: "run_state (sys_pread fd aw offset) s = (r, s1)" by (cases "run_state (sys_pread fd aw offset) s")
    have "0 < want" "want \<le> total_size - offset" "want \<le> CHUNK_SIZE" using True by (auto simp: want_def CHUNK_SIZE_def)
    from "1.prems"(1) True obtain bs rest where bs: "r = Inr bs" "want \<le> length bs" "cs = take want bs # rest"
        and rest: "run_state (hash_chunks fd total_size (offset + want)) s1 = (Inr rest, s')"
      by (subst (asm) hash_chunks.simps)
        (auto simp: Let_def want_def [symmetric] aw_def [symmetric] r not_less split: sum.splits if_splits prod.splits)
    have rd: "reads s s1" using keepsD [OF rd.keeps_queries(6) r] .
    note i = reads_inv [OF rd "1.prems"(2)]
    have ind: "in_disk s p" using wf_fd_part [OF "1.prems"(2,3)] .
    have same: "region s1 p = region s p" using i(11) ind "1.prems"(4) .
    obtain k where k: "k \<le> psize p - offset" "bs = bslice offset k (region s p)"
      using sys_pread_InrD [of fd aw offset s bs s1] r bs(1) "1.prems"(3) same by auto
    have len: "length bs = k" using k length_region [OF ind] by auto
    have nb: "\<not> (bs = [] \<or> length bs < want)" using bs(2) \<open>0 < want\<close> by auto
    have take: "take want bs = bslice offset want (region s p)"
      using k bs(2) len by (simp add: bslice_def min_def)
    have "concat rest = bslice (offset + want) (total_size - (offset + want)) (region s1 p) \<and>
        (offset + want < total_size \<longrightarrow> total_size \<le> psize p) \<and> (\<forall>c \<in> set rest. length c \<le> CHUNK_SIZE)"
      by (rule "1.IH" [OF True want_def aw_def nb rest]) (use i "1.prems"(3,4) in simp_all)
    note ih = this
    have sum: "want + (total_size - (offset + want)) = total_size - offset"
      using \<open>want \<le> total_size - offset\<close> by simp
    have "concat cs = bslice offset want (region s p) @ bslice (offset + want) (total_size - (offset + want)) (region s p)"
      using ih take same bs(3) by simp
    also have "\<dots> = bslice offset (total_size - offset) (region s p)"
      unfolding slice_append_slice sum ..
    finally show ?thesis
      using ih bs(2,3) len k(1) \<open>0 < want\<close> \<open>want \<le> CHUNK_SIZE\<close> by (cases "offset + want < total_size") auto
  next
    case False
    with "1.prems" show ?thesis by (subst (asm) hash_chunks.simps) simp
  qed
qed

lemma sha256_result_Inr: "sha256_result sha x = Inr d \<longleftrightarrow> d = sha x \<and> length d = 32"
  by (auto simp: sha256_result_def)

text \<open>The most that the pipeline can lose: the chunks in the slots of the ring.\<close>

definition LOST_MAX :: nat where "LOST_MAX = RING_SLOTS * CHUNK_SIZE"

lemma length_concat_le: "\<forall>c \<in> set cs. length c \<le> m \<Longrightarrow> length (concat cs) \<le> length cs * m"
  by (induction cs) auto

lemma surviving_prefix:
  assumes "\<forall>c \<in> set cs. length c \<le> CHUNK_SIZE"
  obtains n where "n \<le> length (concat cs)" "length (concat cs) \<le> n + LOST_MAX" "concat (surviving r cs) = take n (concat cs)"
    "(case r of Lost k \<Rightarrow> False | _ \<Rightarrow> True) \<Longrightarrow> n = length (concat cs)"
proof -
  obtain m where m: "surviving r cs = take m cs" "length cs \<le> m + RING_SLOTS" "(case r of Lost k \<Rightarrow> False | _ \<Rightarrow> True) \<Longrightarrow> m = length cs"
  proof (cases r)
    case (Lost k)
    then show thesis using that [of "length cs - min k RING_SLOTS"] by (simp add: surviving_def)
  qed (use that [of "length cs"] in \<open>simp_all add: surviving_def\<close>)
  have split: "concat cs = concat (take m cs) @ concat (drop m cs)" by (metis append_take_drop_id concat_append)
  have "length (concat (drop m cs)) \<le> length (drop m cs) * CHUNK_SIZE"
    using assms by (intro length_concat_le) (meson in_set_dropD)
  also have "\<dots> \<le> LOST_MAX" unfolding LOST_MAX_def using m(2) by (intro mult_right_mono) simp_all
  finally have d: "length (concat (drop m cs)) \<le> LOST_MAX" .
  show thesis
  proof (rule that [of "length (concat (take m cs))"])
    show "length (concat (take m cs)) \<le> length (concat cs)" "length (concat cs) \<le> length (concat (take m cs)) + LOST_MAX"
      unfolding split using d by simp_all
    show "concat (surviving r cs) = take (length (concat (take m cs))) (concat cs)" unfolding m(1) by (subst split) simp
    show "length (concat (take m cs)) = length (concat cs)" if "case r of Lost k \<Rightarrow> False | _ \<Rightarrow> True" using m(3) [OF that] by simp
  qed
qed

text \<open>The digest that is returned: of the protected bytes when nothing was lost, of a prefix otherwise.\<close>

lemma hash_sha256_fd_correct:
  assumes run: "run_state (hash_sha256_fd sha fd len) s = (Inr d, s')"
    and wf: "wf_os s" and p: "fd_part s fd = Some p" and q: "quiet s p"
  shows "\<exists>n \<le> len. len \<le> n + LOST_MAX \<and> d = sha (bslice 0 n (region s p)) \<and> (no_loss s \<longrightarrow> n = len)" and "length d = 32"
proof -
  have "(\<exists>n \<le> len. len \<le> n + LOST_MAX \<and> d = sha (bslice 0 n (region s p)) \<and> (no_loss s \<longrightarrow> n = len)) \<and> length d = 32"
  proof (cases "len = 0")
    case True
    then show ?thesis
      using run by (auto simp: hash_sha256_fd_def hash_sha256_def sha256_result_Inr dest!: syscall_InrD)
  next
    case False
    obtain s1 where r1: "run_state sys_ok s = (Inr (), s1)"
      using run False by (auto simp: hash_sha256_fd_def split: prod.splits sum.splits)
    obtain s2 where r2: "run_state sys_ok s1 = (Inr (), s2)"
      using run False r1 by (auto simp: hash_sha256_fd_def split: prod.splits sum.splits)
    obtain cs s3 where r3: "run_state (hash_chunks fd len 0) s2 = (Inr cs, s3)"
        and r4: "run_state (digest_chunks sha cs) s3 = (Inr d, s')"
      using run False r1 r2 by (auto simp: hash_sha256_fd_def split: prod.splits sum.splits)
    have rd2: "reads s s2"
      using rd.frame_trans [OF keepsD [OF rd.keeps_queries(9) r1] keepsD [OF rd.keeps_queries(9) r2]] .
    have rd3: "reads s s3"
      using rd.frame_trans [OF rd2 keepsD [OF rd.keeps_hash_chunks r3]] .
    note i2 = reads_inv [OF rd2 wf] and i3 = reads_inv [OF rd3 wf]
    have ind: "in_disk s p" using wf_fd_part [OF wf p] .
    have cs: "concat cs = bslice 0 len (region s2 p)" "len \<le> psize p" "\<forall>c \<in> set cs. length c \<le> CHUNK_SIZE"
      using hash_chunks_correct [OF r3] i2(1-3) p q False by simp_all
    moreover have "region s2 p = region s p" using i2(11) ind q .
    ultimately have all: "concat cs = bslice 0 len (region s p)" "length (concat cs) = len" using length_region [OF ind] by simp_all
    obtain n where n: "n \<le> len" "len \<le> n + LOST_MAX" "concat (surviving (fst (tick s3)) cs) = take n (concat cs)"
        "(case fst (tick s3) of Lost k \<Rightarrow> False | _ \<Rightarrow> True) \<Longrightarrow> n = len"
      using surviving_prefix [OF cs(3), of "fst (tick s3)"] unfolding all(2) by blast
    have "n = len" if "no_loss s"
      by (rule n(4)) (use i3(10) [OF that] in \<open>auto simp: tick_def no_loss_def split: list.split reply.split\<close>)
    moreover have "sha256_result sha (concat (surviving (fst (tick s3)) cs)) = Inr d"
      using r4 by (auto simp: digest_chunks_def dest!: syscall_InrD)
    moreover have "take n (concat cs) = bslice 0 n (region s p)" using n(1) unfolding all(1) by (simp add: bslice_def)
    ultimately show ?thesis using n(1-3) by (auto simp: sha256_result_Inr)
  qed
  then show "\<exists>n \<le> len. len \<le> n + LOST_MAX \<and> d = sha (bslice 0 n (region s p)) \<and> (no_loss s \<longrightarrow> n = len)" "length d = 32" by simp_all
qed

text \<open>
  The threads implement the sequential reading: for every run of them over chunks that can be read that ends without error there is an answer of the
  environment under which \<^const>\<open>digest_chunks\<close> returns the digest of exactly the chunks they hashed.
\<close>

lemma ring_refines:
  assumes "reachable (map Some cs) s" and "length cs < 2 ^ 32" and "finished s" and "ring_result s = Some xs"
  shows "\<exists>k \<le> RING_SLOTS. \<forall>t e. env t = Lost k # e \<longrightarrow> fst (run_state (digest_chunks sha cs) t) = sha256_result sha (concat xs)"
proof -
  obtain k where k: "ring_inv (map Some cs) k s" using reachable_inv [OF assms(1)] assms(2) by auto
  have "\<not> error s" "ppc s = P_End" "cpc s = C_End" "xs = acc s"
    using assms(3,4) by (auto simp: ring_result_def finished_def split: if_splits)
  with k have k: "xs = take k cs" "k \<le> length cs" "length cs \<le> k + 8"
    by (simp_all add: ring_inv_def take_map)
  then have "xs = surviving (Lost (length cs - k)) cs" "length cs - k \<le> RING_SLOTS"
    by (auto simp: surviving_def RING_SLOTS_def min_def)
  moreover from this(1) have "fst (run_state (digest_chunks sha cs) t) = sha256_result sha (concat xs)" if "env t = Lost (length cs - k) # e" for t e
    using that by (simp add: digest_chunks_def syscall_def or_fail_def tick_def)
  ultimately show ?thesis by blast
qed

subsection \<open>On a machine without disturbances\<close>

lemma hash_chunks_calm:
  assumes "env s = []" "fds s fd = Some d" "fd_node d = Blk p" "lsz p dvd 512" "512 dvd total_size" "512 dvd offset"
    "total_size \<le> psize p" "in_disk s p"
  shows "\<exists>cs. run_state (hash_chunks fd total_size offset) s = (Inr cs, s) \<and> concat cs = bslice offset (total_size - offset) (region s p)"
  using assms
proof (induction fd total_size offset rule: hash_chunks.induct)
  case (1 fd total_size offset)
  show ?case
  proof (cases "offset < total_size")
    case True
    define want where "want = (if total_size - offset < CHUNK_SIZE then total_size - offset else CHUNK_SIZE)"
    have w: "512 dvd want" "0 < want" "want \<le> total_size - offset"
      using "1.prems"(5,6) True by (auto simp: want_def CHUNK_SIZE_def)
    then have aw: "(want + 511) div 512 * 512 = want" by (auto elim!: dvdE)
    define bs where "bs = bslice offset want (region s p)"
    have len: "length bs = want"
      using w "1.prems"(7,8) length_region [of s p] True by (auto simp: bs_def)
    have "lsz p dvd want" "lsz p dvd offset"
      using w "1.prems"(4,6) dvd_trans by blast+
    then have "run_state (sys_pread fd want offset) s = (Inr bs, s)"
      using "1.prems" w True by (auto simp: sys_pread_def calm misaligned_def bs_def transfer_def min_def dvd_eq_mod_eq_0)
    moreover obtain cs where cs: "run_state (hash_chunks fd total_size (offset + want)) s = (Inr cs, s)"
        "concat cs = bslice (offset + want) (total_size - (offset + want)) (region s p)"
      using "1.IH" [OF True want_def refl, of bs] "1.prems" w len by auto
    ultimately have "run_state (hash_chunks fd total_size offset) s = (Inr (take want bs # cs), s)"
      using True w len by (subst hash_chunks.simps) (auto simp: Let_def want_def [symmetric] aw)
    moreover have "want + (total_size - (offset + want)) = total_size - offset" using w by simp
    then have "concat (take want bs # cs) = bslice offset (total_size - offset) (region s p)"
      using cs(2) slice_append_slice [of offset want "region s p" "total_size - (offset + want)"] len by (simp add: bs_def)
    ultimately show ?thesis by blast
  next
    case False
    then show ?thesis by (subst hash_chunks.simps) simp
  qed
qed

lemma hash_sha256_fd_calm:
  assumes "env s = []" "fds s fd = Some d" "fd_node d = Blk p" "lsz p dvd 512" "512 dvd len" "0 < len"
    "len \<le> psize p" "wf_os s" "\<And>x. length (sha x) = 32"
  shows "run_state (hash_sha256_fd sha fd len) s = (Inr (sha (bslice 0 len (region s p))), s)"
proof -
  have p: "fd_part s fd = Some p" using assms(2,3) by (simp add: fd_part_def)
  obtain cs where cs: "run_state (hash_chunks fd len 0) s = (Inr cs, s)" "concat cs = bslice 0 len (region s p)"
    using hash_chunks_calm [OF assms(1-5) _ assms(7) wf_fd_part [OF assms(8) p], of 0] by auto
  then show ?thesis
    using assms by (simp add: hash_sha256_fd_def sys_ok_def digest_chunks_def calm sha256_result_def surviving_def)
qed

end
