(* ===== verification/Storage.thy ===== *)
theory Storage
  imports Footer Hash_Fd
begin

text \<open>
  The block-device half of \<^verbatim>\<open>storage.c\<close>: opening a device with its geometry checks, finding the active and
  the peer device of a mountpoint, closing the file system's write gate, sealing a device with its
  digest, verifying it, and copying one device over another.

  A call that returns \<^verbatim>\<open>-1\<close> returns \<open>Inl\<close> with the error number; where the code does not set one the model
  picks \<open>EIO\<close>.  Checks for null arguments and the release of heap memory have no counterpart.
\<close>

subsection \<open>Definitions\<close>

record target =
  tfd :: nat
  tsize :: nat
  logical_size :: nat

definition bad_geometry :: "nat \<Rightarrow> nat \<Rightarrow> bool" where
  "bad_geometry sz logical \<longleftrightarrow>
     sz \<le> FOOTER_AREA_SIZE \<or> 2 ^ 63 - 1 < sz \<or> logical = 0 \<or> FOOTER_AREA_SIZE mod logical \<noteq> 0 \<or> sz mod logical \<noteq> 0"

definition open_target :: "string \<Rightarrow> oflag list \<Rightarrow> (os, errno + target) state" where
  "open_target path flags = do {
     st \<leftarrow> sys_stat path;
     case st of
       Inl e \<Rightarrow> ret (Inl e)
     | Inr buf \<Rightarrow>
         (case st_node buf of
            Blk _ \<Rightarrow> do {
              opened_fd \<leftarrow> sys_open path flags;
              case opened_fd of
                Inl e \<Rightarrow> ret (Inl e)
              | Inr fd \<Rightarrow> do {
                  sz \<leftarrow> get_fd_size fd;
                  case sz of
                    Inl e \<Rightarrow> do { _ \<leftarrow> sys_close fd; ret (Inl e) }
                  | Inr n \<Rightarrow> do {
                      lg \<leftarrow> sys_blksszget fd;
                      case lg of
                        Inl e \<Rightarrow> do { _ \<leftarrow> sys_close fd; ret (Inl e) }
                      | Inr l \<Rightarrow>
                          if bad_geometry n l then do { _ \<leftarrow> sys_close fd; ret (Inl EINVAL) }
                          else ret (Inr \<lparr>tfd = fd, tsize = n, logical_size = l\<rparr>)
                    }
                }
            }
          | _ \<Rightarrow> ret (Inl ENOTBLK))
   }"

definition close_target :: "target \<Rightarrow> (os, unit) state" where
  "close_target t = do { _ \<leftarrow> sys_close (tfd t); ret () }"

definition resolve_active_peer :: "string \<Rightarrow> string \<Rightarrow> string \<Rightarrow> (os, errno + string \<times> string) state" where
  "resolve_active_peer mountpoint device_a device_b = do {
     m \<leftarrow> sys_stat mountpoint;
     case m of
       Inl e \<Rightarrow> ret (Inl e)
     | Inr mount_stat \<Rightarrow> do {
         a \<leftarrow> sys_stat device_a;
         case a of
           Inl e \<Rightarrow> ret (Inl e)
         | Inr a_stat \<Rightarrow> do {
             b \<leftarrow> sys_stat device_b;
             case b of
               Inl e \<Rightarrow> ret (Inl e)
             | Inr b_stat \<Rightarrow>
                 ret (case (st_node a_stat, st_node b_stat) of
                        (Blk pa, Blk pb) \<Rightarrow>
                          if rdev pa = rdev pb then Inl EINVAL
                          else if st_dev mount_stat = rdev pa then Inr (device_a, device_b)
                          else if st_dev mount_stat = rdev pb then Inr (device_b, device_a)
                          else Inl ENODEV
                      | _ \<Rightarrow> Inl EINVAL)
           }
       }
   }"

definition disable_vfat_write :: "string \<Rightarrow> (os, errno + unit) state" where
  "disable_vfat_write mountpoint = do {
     opened_fd \<leftarrow> sys_open mountpoint [O_RDONLY, O_DIRECTORY, O_CLOEXEC];
     case opened_fd of
       Inl e \<Rightarrow> ret (Inl e)
     | Inr fd \<Rightarrow> do {
         r \<leftarrow> sys_fat_disable_write fd;
         case r of
           Inl e \<Rightarrow> do { _ \<leftarrow> sys_close fd; ret (Inl e) }
         | Inr _ \<Rightarrow> sys_close fd
       }
   }"

definition powerctl_seal_block_device :: "(bytes \<Rightarrow> bytes) \<Rightarrow> string \<Rightarrow> (os, errno + bytes \<times> nat) state" where
  "powerctl_seal_block_device sha path = do {
     r \<leftarrow> open_target path [O_RDWR, O_CLOEXEC, O_DIRECT];
     case r of
       Inl e \<Rightarrow> ret (Inl e)
     | Inr t \<Rightarrow> do {
         h \<leftarrow> hash_sha256_fd sha (tfd t) (tsize t - FOOTER_AREA_SIZE);
         case h of
           Inl e \<Rightarrow> do { _ \<leftarrow> close_target t; ret (Inl e) }
         | Inr computed \<Rightarrow> do {
             w \<leftarrow> write_descriptor (tfd t) computed;
             _ \<leftarrow> close_target t;
             ret (if w \<noteq> EXIT_OK then Inl EIO else Inr (computed, tsize t))
           }
       }
   }"

definition buffer_size :: nat where "buffer_size = 1024 * 1024"

function copy_loop :: "nat \<Rightarrow> nat \<Rightarrow> nat \<Rightarrow> nat \<Rightarrow> nat \<Rightarrow> (os, errno + unit) state" where
  "copy_loop src dst source_offset len offset =
     (if offset < len
      then (let count = (if len - offset < buffer_size then len - offset else buffer_size)
            in do {
              rd \<leftarrow> pread_full src count (source_offset + offset);
              case rd of
                Inl e \<Rightarrow> ret (Inl e)
              | Inr buffer \<Rightarrow> do {
                  wr \<leftarrow> pwrite_full dst buffer offset;
                  case wr of
                    Inl e \<Rightarrow> ret (Inl e)
                  | Inr _ \<Rightarrow> copy_loop src dst source_offset len (offset + count)
                }
            })
      else ret (Inr ()))"
  by auto
termination
  by (relation "measure (\<lambda>(src, dst, source_offset, len, offset). len - offset)") (auto simp: buffer_size_def)

text \<open>The part of \<^verbatim>\<open>copy_block_range_from_target\<close> between opening the destination and the label \<^verbatim>\<open>out\<close>.\<close>

definition copy_to_target :: "target \<Rightarrow> nat \<Rightarrow> nat \<Rightarrow> target \<Rightarrow> (os, errno + unit) state" where
  "copy_to_target source_target source_offset len t =
     (if tsize t \<noteq> len \<or> source_offset mod logical_size source_target \<noteq> 0 \<or>
         len mod logical_size source_target \<noteq> 0 \<or> len mod logical_size t \<noteq> 0
      then ret (Inl EINVAL)
      else do {
        buffer \<leftarrow> sys_ok;
        case buffer of
          Inl _ \<Rightarrow> ret (Inl ENOMEM)
        | Inr _ \<Rightarrow> do {
            c \<leftarrow> copy_loop (tfd source_target) (tfd t) source_offset len 0;
            case c of
              Inl e \<Rightarrow> ret (Inl e)
            | Inr _ \<Rightarrow> sys_fsync (tfd t)
          }
      })"

definition copy_block_range_from_target :: "target \<Rightarrow> nat \<Rightarrow> nat \<Rightarrow> string \<Rightarrow> (os, errno + unit) state" where
  "copy_block_range_from_target source_target source_offset len destination =
     (if len = 0 \<or> tsize source_target < source_offset \<or> tsize source_target - source_offset < len
      then ret (Inl EINVAL)
      else do {
        r \<leftarrow> open_target destination [O_RDWR, O_CLOEXEC, O_DIRECT, O_EXCL];
        case r of
          Inl e \<Rightarrow> ret (Inl e)
        | Inr t \<Rightarrow> do {
            result \<leftarrow> copy_to_target source_target source_offset len t;
            _ \<leftarrow> close_target t;
            ret result
          }
      })"

definition copy_block_range :: "string \<Rightarrow> nat \<Rightarrow> nat \<Rightarrow> string \<Rightarrow> (os, errno + unit) state" where
  "copy_block_range source source_offset len destination =
     (if source = destination then ret (Inl EINVAL)
      else do {
        r \<leftarrow> open_target source [O_RDONLY, O_CLOEXEC, O_DIRECT];
        case r of
          Inl e \<Rightarrow> ret (Inl e)
        | Inr t \<Rightarrow> do {
            result \<leftarrow> copy_block_range_from_target t source_offset len destination;
            _ \<leftarrow> close_target t;
            ret result
          }
      })"

definition copy_block_device :: "string \<Rightarrow> string \<Rightarrow> (os, errno + unit) state" where
  "copy_block_device source destination =
     (if source = destination then ret (Inl EINVAL)
      else do {
        r \<leftarrow> open_target source [O_RDONLY, O_CLOEXEC, O_DIRECT];
        case r of
          Inl e \<Rightarrow> ret (Inl e)
        | Inr t \<Rightarrow> do {
            result \<leftarrow> copy_block_range_from_target t 0 (tsize t) destination;
            _ \<leftarrow> close_target t;
            ret result
          }
      })"

definition powerctl_verify_path_digest :: "(bytes \<Rightarrow> bytes) \<Rightarrow> string \<Rightarrow> (os, exit_code + bytes) state" where
  "powerctl_verify_path_digest sha path = do {
     r \<leftarrow> open_target path [O_RDONLY, O_CLOEXEC, O_DIRECT];
     case r of
       Inl e \<Rightarrow> ret (Inl EXIT_IO_ERROR)
     | Inr t \<Rightarrow> do {
         d \<leftarrow> read_descriptor (tfd t);
         case d of
           Inl result \<Rightarrow> do { _ \<leftarrow> close_target t; ret (Inl result) }
         | Inr expected \<Rightarrow> do {
             h \<leftarrow> hash_sha256_fd sha (tfd t) (tsize t - FOOTER_AREA_SIZE);
             case h of
               Inl e \<Rightarrow> do { _ \<leftarrow> close_target t; ret (Inl EXIT_IO_ERROR) }
             | Inr actual \<Rightarrow> do {
                 _ \<leftarrow> close_target t;
                 ret (if actual \<noteq> expected then Inl EXIT_HASH_MISMATCH else Inr actual)
               }
           }
       }
   }"

declare copy_loop.simps [simp del]

subsection \<open>Opening a device\<close>

lemma sys_open_opened:
  assumes "run_state (sys_open path flags) s = (Inr fd, s')" and wf: "wf_os s" and "nodes s path = Some (Blk p)"
  shows "opened {} fd p s s' \<and> (O_EXCL \<in> set flags \<longrightarrow> \<not> is_mounted s (rdev p))"
  using assms(1) wf
proof (cases rule: sys_open_spec)
  case (2 fd' nd)
  moreover have "fds s (next_fd s) = None" using wf by (simp add: wf_os_def)
  ultimately show ?thesis
    using assms(3) by (auto simp: opened_def fd_part_def)
qed simp

lemma sys_blksszget_correct:
  assumes "run_state (sys_blksszget fd) s = (Inr n, s')" and "fd_part s fd = Some p"
  shows "n = lsz p"
  using assms unfolding sys_blksszget_def by (elim with_fd_InrD) (auto simp: fd_part_Some)

lemma sys_stat_run:
  assumes "run_state (sys_stat path) s = (Inr buf, s')"
  shows "nodes s path = Some (st_node buf)"
    and "st_dev buf = (case map_of (mounts s) path of Some p \<Rightarrow> rdev p | None \<Rightarrow> home_dev s path)"
  using syscall_InrD [OF assms [unfolded sys_stat_def]] by (auto split: option.splits)

lemma open_target_spec:
  assumes run: "run_state (open_target path flags) s = (r, s')" and wf: "wf_os s"
  obtains (fail) e where "r = Inl e" "reads s s'"
  | (ok) t p where "r = Inr t" "nodes s path = Some (Blk p)" "opened {} (tfd t) p s s'" "tsize t = psize p"
      "logical_size t = lsz p" "\<not> bad_geometry (psize p) (lsz p)" "O_EXCL \<in> set flags \<Longrightarrow> \<not> is_mounted s (rdev p)"
proof -
  obtain st s1 where r1: "run_state (sys_stat path) s = (st, s1)" by (cases "run_state (sys_stat path) s")
  have rd1: "reads s s1" using keepsD [OF rd.keeps_queries(1) r1] .
  note i1 = reads_inv [OF rd1 wf]
  show thesis
  proof (cases "\<exists>buf p. st = Inr buf \<and> st_node buf = Blk p")
    case False
    then have "(\<exists>e. r = Inl e) \<and> s' = s1"
      using run by (auto simp: open_target_def r1 split: sum.splits node.splits)
    then show thesis using rd1 fail by blast
  next
    case True
    then obtain buf p where st: "st = Inr buf" "st_node buf = Blk p" by blast
    then have node: "nodes s path = Some (Blk p)" using sys_stat_run(1) r1 by force
    obtain o2 s2 where r2: "run_state (sys_open path flags) s1 = (o2, s2)" by (cases "run_state (sys_open path flags) s1")
    show thesis
    proof (cases o2)
      case (Inl e)
      then have "reads s1 s2" using r2 i1(1) by (auto elim!: sys_open_spec)
      then have "reads s s2" by (rule rd.frame_trans [OF rd1])
      then show thesis
        using run Inl fail by (auto simp: open_target_def r1 r2 st)
    next
      case (Inr fd)
      have op: "opened {} fd p s1 s2" and ex: "O_EXCL \<in> set flags \<longrightarrow> \<not> is_mounted s1 (rdev p)"
        using sys_open_opened [of path flags s1 fd s2 p] r2 Inr i1 node by simp_all
      have nfd: "fds s fd = None"
        using op fd_frame_dom rd1 by (auto simp: opened_def reads_def)
      have op: "opened {} fd p s s2"
        using op rd1 nfd world_trans by (auto simp: opened_def reads_def fd_frame_def)
      obtain sz s3 where r3: "run_state (get_fd_size fd) s2 = (sz, s3)" by (cases "run_state (get_fd_size fd) s2")
      have op3: "opened {} fd p s s3" using opened_reads [OF op keepsD [OF rd.keeps_get_fd_size r3]] .
      have closing: "reads s u" if "opened {} fd p s t" "run_state (sys_close fd) t = (x, u)" for t u x
        using opened_close [OF that] by (simp add: reads_def)
      show thesis
      proof (cases sz)
        case Sz: (Inl e)
        then show thesis
          using run Inr fail closing [OF op3]
          by (auto simp: open_target_def r1 r2 r3 st split: prod.splits)
      next
        case Sz: (Inr n)
        then have n: "n = psize p" using get_fd_size_correct r3 opened_inv(2) [OF op wf] by blast
        obtain lg s4 where r4: "run_state (sys_blksszget fd) s3 = (lg, s4)" by (cases "run_state (sys_blksszget fd) s3")
        have op4: "opened {} fd p s s4" using opened_reads [OF op3 keepsD [OF rd.keeps_queries(4) r4]] .
        have lg: "l = lsz p" if "lg = Inr l" for l
          using sys_blksszget_correct r4 opened_inv(2) [OF op3 wf] that by blast
        consider (a) e where "r = Inl e" "\<exists>x. run_state (sys_close fd) s4 = (x, s')"
          | (b) l where "lg = Inr l" "\<not> bad_geometry n l" "r = Inr \<lparr>tfd = fd, tsize = n, logical_size = l\<rparr>" "s' = s4"
          using run Inr Sz
          by (cases lg) (auto simp: open_target_def r1 r2 r3 r4 st split: prod.splits if_splits)
        then show thesis
        proof cases
          case a
          then show thesis using fail closing [OF op4] by blast
        next
          case b
          then show thesis
            using op4 lg n node ex i1(6) by (intro ok) (auto simp: is_mounted_def)
        qed
      qed
    qed
  qed
qed

lemma close_target_spec:
  assumes "run_state (close_target t) s1 = (x, s2)" and "opened W (tfd t) p s s1"
  shows "world W s s2 \<and> fd_frame s s2"
  using assms opened_close by (auto simp: close_target_def split: prod.splits)

lemma close_target_world:
  assumes "run_state (close_target t) s = (x, s')"
  shows "world W s s'"
proof -
  obtain r where "run_state (sys_close (tfd t)) s = (r, s')"
    using assms by (auto simp: close_target_def split: prod.splits)
  then have "s' = (snd (tick s))\<lparr>fds := (fds (snd (tick s)))(tfd t := None)\<rparr>"
    using sys_close_run by simp
  then show ?thesis using world_trans [OF world_tick world_close] by simp
qed

lemma close_target_region:
  assumes "run_state (close_target t) s = (x, s')" "wf_os s" "in_disk s p" "quiet s p"
  shows "region s' p = region s p" "stable_region s' p = stable_region s p"
  using world_region [OF close_target_world [OF assms(1), of "{}"] assms(2-4)]
    world_stable_region [OF close_target_world [OF assms(1), of "{}"] assms(2-4)] by simp_all

subsection \<open>Verifying and sealing\<close>

text \<open>What the descriptor of a device promises about its contents.\<close>

definition sealed :: "(bytes \<Rightarrow> bytes) \<Rightarrow> bytes \<Rightarrow> bytes \<Rightarrow> bool" where
  "sealed sha dev d \<longleftrightarrow> 4096 < length dev \<and> stored_descriptor dev = Inr d \<and>
     d = sha (bslice 0 (length dev - 4096) dev) \<and> length d = 32"

text \<open>
  What is left of this when the pipeline loses the tail of the device: the digest is that of a prefix of the protected range.  \<open>attested complete\<close> is the exact promise when
  \<open>complete\<close> holds and this weaker one in any case.
\<close>

definition prefix_sealed :: "(bytes \<Rightarrow> bytes) \<Rightarrow> bytes \<Rightarrow> bytes \<Rightarrow> bool" where
  "prefix_sealed sha dev d \<longleftrightarrow> 4096 < length dev \<and> stored_descriptor dev = Inr d \<and> length d = 32 \<and>
     (\<exists>n \<le> length dev - 4096. length dev - 4096 \<le> n + LOST_MAX \<and> d = sha (bslice 0 n dev))"

definition attested :: "bool \<Rightarrow> (bytes \<Rightarrow> bytes) \<Rightarrow> bytes \<Rightarrow> bytes \<Rightarrow> bool" where
  "attested complete sha dev d \<longleftrightarrow> prefix_sealed sha dev d \<and> (complete \<longrightarrow> sealed sha dev d)"

lemma attested_mono: "attested c sha dev d \<Longrightarrow> (c' \<Longrightarrow> c) \<Longrightarrow> attested c' sha dev d"
  by (simp add: attested_def)

lemma attestedI:
  assumes "4096 < length dev" and "stored_descriptor dev = Inr d" and "length d = 32" and "n \<le> length dev - 4096" and "length dev - 4096 \<le> n + LOST_MAX"
    and "d = sha (bslice 0 n dev)" and "complete \<Longrightarrow> n = length dev - 4096"
  shows "attested complete sha dev d"
  using assms by (auto simp: attested_def prefix_sealed_def sealed_def)

lemma verify_spec:
  assumes run: "run_state (powerctl_verify_path_digest sha path) s = (r, s')" and wf: "wf_os s"
  shows "reads s s' \<and> (\<forall>d. r = Inr d \<longrightarrow> (\<exists>p. nodes s path = Some (Blk p) \<and>
    (quiet s p \<longrightarrow> attested (no_loss s) sha (region s p) d)))"
proof -
  let ?flags = "[O_RDONLY, O_CLOEXEC, O_DIRECT]"
  obtain o1 s1 where r1: "run_state (open_target path ?flags) s = (o1, s1)" by (cases "run_state (open_target path ?flags) s")
  show ?thesis
    using r1 wf
  proof (cases rule: open_target_spec)
    case (fail e)
    then show ?thesis using run by (auto simp: powerctl_verify_path_digest_def r1)
  next
    case (ok t p)
    note i1 = opened_inv [OF ok(3) wf]
    have closing: "reads s u" if "opened {} (tfd t) p s v" "run_state (close_target t) v = (x, u)" for v x u
      using close_target_spec [OF that(2,1)] by (simp add: reads_def)
    obtain d2 s2 where r2: "run_state (read_descriptor (tfd t)) s1 = (d2, s2)"
      by (cases "run_state (read_descriptor (tfd t)) s1")
    have op2: "opened {} (tfd t) p s s2" using opened_reads [OF ok(3) keepsD [OF rd.keeps_read_descriptor r2]] .
    note i2 = opened_inv [OF op2 wf]
    show ?thesis
    proof (cases d2)
      case (Inl e)
      then show ?thesis
        using run ok(1) closing [OF op2] by (auto simp: powerctl_verify_path_digest_def r1 r2 split: prod.splits)
    next
      case D: (Inr expected)
      let ?hash = "hash_sha256_fd sha (tfd t) (tsize t - FOOTER_AREA_SIZE)"
      obtain h s3 where r3: "run_state ?hash s2 = (h, s3)" by (cases "run_state ?hash s2")
      have op3: "opened {} (tfd t) p s s3" using opened_reads [OF op2 keepsD [OF rd.keeps_hash_sha256_fd r3]] .
      obtain x s4 where r4: "run_state (close_target t) s3 = (x, s4)" by (cases "run_state (close_target t) s3")
      have s': "s' = s4" and r: "r = (case h of Inl e \<Rightarrow> Inl EXIT_IO_ERROR
          | Inr actual \<Rightarrow> if actual \<noteq> expected then Inl EXIT_HASH_MISMATCH else Inr actual)"
        using run ok(1) D by (auto simp: powerctl_verify_path_digest_def r1 r2 r3 r4 split: sum.splits)
      have "attested (no_loss s) sha (region s p) d" if d: "r = Inr d" and q: "quiet s p" for d
      proof -
        have h: "h = Inr d" "expected = d" using d r by (auto split: sum.splits if_splits)
        have reg: "region s1 p = region s p" "region s2 p = region s p"
          using i1(10) i2(10) i1(8) q by auto
        have "4096 < psize p \<and> stored_descriptor (region s1 p) = Inr d"
          using read_descriptor_result [OF r2] D h(2) i1(1-3) q by simp
        moreover obtain n where "n \<le> psize p - 4096" "psize p - 4096 \<le> n + LOST_MAX" "d = sha (bslice 0 n (region s p))" "length d = 32"
            "no_loss s \<Longrightarrow> n = psize p - 4096"
          using hash_sha256_fd_correct [OF r3 [unfolded h(1)] i2(1,2)] i2(3,9) q reg(2) ok(4) by (auto simp: FOOTER_AREA_SIZE_def)
        ultimately show ?thesis
          using reg length_region [OF i1(8)] by (intro attestedI [where n = n]) simp_all
      qed
      with ok(2) closing [OF op3 r4] s' show ?thesis by blast
    qed
  qed
qed

lemma seal_spec:
  assumes run: "run_state (powerctl_seal_block_device sha path) s = (r, s')" and wf: "wf_os s"
    and node: "nodes s path = Some (Blk p)"
  shows "writes p s s' \<and> (\<forall>x. r = Inr x \<longrightarrow> quiet s p \<longrightarrow>
    attested (no_loss s) sha (region s' p) (fst x) \<and> stable_region s' p = region s' p \<and> snd x = psize p \<and>
    bslice 0 (psize p - 4096) (region s' p) = bslice 0 (psize p - 4096) (region s p))"
proof -
  let ?flags = "[O_RDWR, O_CLOEXEC, O_DIRECT]"
  obtain o1 s1 where r1: "run_state (open_target path ?flags) s = (o1, s1)" by (cases "run_state (open_target path ?flags) s")
  show ?thesis
    using r1 wf
  proof (cases rule: open_target_spec)
    case (fail e)
    then show ?thesis using run reads_writes by (auto simp: powerctl_seal_block_device_def r1)
  next
    case (ok t p')
    then have [simp]: "p' = p" using node by simp
    have op1: "opened {p} (tfd t) p s s1" using opened_mono [OF ok(3), of "{p}"] by simp
    note i1 = opened_inv [OF ok(3) wf]
    have closing: "writes p s u" if "opened {p} (tfd t) p s v" "run_state (close_target t) v = (x, u)" for v x u
      using close_target_spec [OF that(2,1)] by (simp add: writes_def)
    let ?hash = "hash_sha256_fd sha (tfd t) (tsize t - FOOTER_AREA_SIZE)"
    obtain h s2 where r2: "run_state ?hash s1 = (h, s2)" by (cases "run_state ?hash s1")
    have rd2: "reads s1 s2" using keepsD [OF rd.keeps_hash_sha256_fd r2] .
    have op2: "opened {p} (tfd t) p s s2" using opened_reads [OF op1 rd2] .
    have op2': "opened {} (tfd t) p s s2" using opened_reads [OF ok(3) rd2] by simp
    note i2 = opened_inv [OF op2' wf]
    show ?thesis
    proof (cases h)
      case (Inl e)
      then show ?thesis
        using run ok(1) closing [OF op2] by (auto simp: powerctl_seal_block_device_def r1 r2 split: prod.splits)
    next
      case H: (Inr d)
      obtain w s3 where r3: "run_state (write_descriptor (tfd t) d) s2 = (w, s3)"
        by (cases "run_state (write_descriptor (tfd t) d) s2")
      have op3: "opened {p} (tfd t) p s s3"
        using opened_writes [OF op2 write_descriptor_frame [OF r3 i2(1,2)]] by simp
      obtain x s4 where r4: "run_state (close_target t) s3 = (x, s4)" by (cases "run_state (close_target t) s3")
      have s': "s' = s4" and r: "r = (if w \<noteq> EXIT_OK then Inl EIO else Inr (d, tsize t))"
        using run ok(1) H by (simp_all add: powerctl_seal_block_device_def r1 r2 r3 r4)
      have "attested (no_loss s) sha (region s4 p) d \<and> stable_region s4 p = region s4 p \<and>
          bslice 0 (psize p - 4096) (region s4 p) = bslice 0 (psize p - 4096) (region s p)"
        if w: "w = EXIT_OK" and q: "quiet s p"
      proof -
        note len = length_region [OF i1(8), simplified]
        have reg: "region s1 p = region s p" "region s2 p = region s p"
          using i1(10) i2(10) i1(8) q by auto
        obtain n where n: "n \<le> psize p - 4096" "psize p - 4096 \<le> n + LOST_MAX" "d = sha (bslice 0 n (region s p))" "no_loss s \<Longrightarrow> n = psize p - 4096"
          and d: "length d = 32"
          using hash_sha256_fd_correct [OF r2 [unfolded H] i1(1,2)] i1(3,9) q reg ok(4) by (auto simp: FOOTER_AREA_SIZE_def)
        note wd = write_descriptor_correct [OF r3 [unfolded w] d i2(1,2), simplified, OF i2(3) [THEN iffD2, OF q]]
        have reg3: "region s3 p = patch (psize p - 128) (make_descriptor (psize p - 4096) d) (region s p)"
          using wd(3) reg(2) by simp
        note i3 = opened_inv [OF op3 wf]
        have reg4: "region s4 p = region s3 p" "stable_region s4 p = stable_region s3 p"
          using close_target_region [OF r4 i3(1)] i3(3,4,8) q by simp_all
        have "stored_descriptor (region s3 p) = Inr d"
          using stored_descriptor_written [OF d, of "region s p"] reg3 wd(1) len by simp
        moreover have keep: "bslice 0 m (region s3 p) = bslice 0 m (region s p)" if "m \<le> psize p - 4096" for m
          unfolding reg3 using that wd(1) len by (intro slice_patch_before) auto
        moreover have "length (region s3 p) = psize p"
          using length_region i3(4,8) by blast
        ultimately have "attested (no_loss s) sha (region s4 p) d"
          using reg4 d wd(1) n keep [OF n(1)] by (intro attestedI [where n = n]) simp_all
        then show ?thesis using reg4 wd(2) keep [of "psize p - 4096"] by simp
      qed
      with ok(4) closing [OF op3 r4] s' r show ?thesis by auto
    qed
  qed
qed

subsection \<open>Copying\<close>

lemma opened_other: "opened W fd p s t \<Longrightarrow> fd_part s x = Some q \<Longrightarrow> fd_part t x = Some q"
  unfolding opened_def fd_part_core by (metis fd_part_core fd_part_def option.simps(3) option.simps(4))

lemma writer_copy_loop: "pres (writer dst p s) (copy_loop src dst source_offset len offset)"
proof (induction src dst source_offset len offset rule: copy_loop.induct)
  case (1 src dst source_offset len offset)
  then show ?case
    by (subst copy_loop.simps)
      (auto simp: Let_def intro!: pres_intros writer_pwrite_full writer_keeps [OF wr.keeps_pread_full])
qed

lemma copy_loop_correct:
  assumes "run_state (copy_loop src dst source_offset len offset) s = (Inr (), s')"
    and "wf_os s" "fd_part s src = Some q" "fd_part s dst = Some p" "quiet s q" "quiet s p" "apart q p"
  shows "(offset < len \<longrightarrow> len \<le> psize p) \<and>
    region s' p = patch offset (bslice (source_offset + offset) (len - offset) (region s q)) (region s p)"
  using assms
proof (induction src dst source_offset len offset arbitrary: s rule: copy_loop.induct)
  case (1 src dst source_offset len offset)
  note pre = "1.prems"(2-7)
  show ?case
  proof (cases "offset < len")
    case True
    define count where "count = (if len - offset < buffer_size then len - offset else buffer_size)"
    have cnt: "0 < count" "count \<le> len - offset" using True by (auto simp: count_def buffer_size_def)
    from "1.prems"(1) True obtain buf s1 s2
      where r1: "run_state (pread_full src count (source_offset + offset)) s = (Inr buf, s1)"
        and r2: "run_state (pwrite_full dst buf offset) s1 = (Inr (), s2)"
        and r3: "run_state (copy_loop src dst source_offset len (offset + count)) s2 = (Inr (), s')"
      by (subst (asm) copy_loop.simps) (auto simp: Let_def count_def [symmetric] split: sum.splits prod.splits)
    note i1 = reads_inv [OF keepsD [OF rd.keeps_pread_full r1] pre(1)]
    have ind: "in_disk s p" "in_disk s q" using wf_fd_part pre by blast+
    have buf: "length buf = count" "buf = bslice (source_offset + offset) count (region s q)"
      using pread_full_correct [OF r1 pre(1,2,4)] by blast+
    have p1: "fd_part s1 dst = Some p" "quiet s1 p" "region s1 p = region s p" "region s1 q = region s q"
      using i1 pre ind by simp_all
    have w2: "writes p s1 s2" using pwrite_full_frame [OF r2 p1(1) i1(1)] by (simp add: writes_def)
    note i2 = writes_inv [OF w2 i1(1)]
    have reg2: "region s2 p = patch offset buf (region s p)" "offset + count \<le> psize p"
      using pwrite_full_correct [OF r2 p1(1) i1(1) p1(2)] p1(3) buf(1) cnt(1) by auto
    have q2: "region s2 q = region s q"
      using world_region [of "{p}" s1 s2 q] w2 i1 ind pre(4,6) p1(4) by (simp add: writes_def)
    have ih: "(offset + count < len \<longrightarrow> len \<le> psize p) \<and> region s' p =
        patch (offset + count) (bslice (source_offset + (offset + count)) (len - (offset + count)) (region s2 q)) (region s2 p)"
      by (rule "1.IH" [OF True count_def r3]) (use i1 i2 pre in simp_all)
    have "region s' p = patch (offset + count)
        (bslice (source_offset + offset + count) (len - (offset + count)) (region s q)) (patch offset buf (region s p))"
      using ih q2 reg2(1) by (simp add: add.assoc)
    also have "\<dots> = patch offset (buf @ bslice (source_offset + offset + count) (len - (offset + count)) (region s q)) (region s p)"
      using buf(1) reg2(2) length_region [OF ind(1)] by (intro patch_patch_adjacent) auto
    also have "buf @ bslice (source_offset + offset + count) (len - (offset + count)) (region s q) =
        bslice (source_offset + offset) (len - offset) (region s q)"
      unfolding buf(2) slice_append_slice using cnt by simp
    finally show ?thesis
      using ih reg2(2) cnt by (cases "offset + count < len") auto
  next
    case False
    with "1.prems" show ?thesis by (subst (asm) copy_loop.simps) simp
  qed
qed

lemma patch_whole: "length ys = length xs \<Longrightarrow> patch 0 ys xs = ys"
  by (simp add: patch_def)

lemma copy_from_target_spec:
  assumes run: "run_state (copy_block_range_from_target src source_offset len dest) s = (r, s')"
    and wf: "wf_os s" and node: "nodes s dest = Some (Blk p)"
    and src: "fd_part s (tfd src) = Some q" "tsize src = psize q"
  shows "writes p s s' \<and> (r = Inr () \<longrightarrow> psize p = len \<and> source_offset + len \<le> psize q \<and> \<not> is_mounted s (rdev p) \<and>
    (quiet s p \<longrightarrow> stable_region s' p = region s' p) \<and>
    (quiet s p \<longrightarrow> quiet s q \<longrightarrow> apart q p \<longrightarrow> region s' p = bslice source_offset len (region s q)))"
proof (cases "len = 0 \<or> tsize src < source_offset \<or> tsize src - source_offset < len")
  case True
  then show ?thesis using run by (auto simp: copy_block_range_from_target_def writes_refl)
next
  case rng: False
  let ?flags = "[O_RDWR, O_CLOEXEC, O_DIRECT, O_EXCL]"
  obtain o1 s1 where r1: "run_state (open_target dest ?flags) s = (o1, s1)" by (cases "run_state (open_target dest ?flags) s")
  show ?thesis
    using r1 wf
  proof (cases rule: open_target_spec)
    case (fail e)
    then show ?thesis using run rng reads_writes by (auto simp: copy_block_range_from_target_def r1)
  next
    case (ok t p')
    then have [simp]: "p' = p" using node by simp
    note i1 = opened_inv [OF ok(3) wf]
    obtain s2 x where r2: "run_state (copy_to_target src source_offset len t) s1 = (r, s2)" and r3: "run_state (close_target t) s2 = (x, s')"
      using run rng ok(1) by (auto simp: copy_block_range_from_target_def r1 split: prod.splits)
    have w: "pres (writer (tfd t) p s1) (copy_to_target src source_offset len t)"
      unfolding copy_to_target_def
      by (intro pres_intros writer_copy_loop writer_fsync writer_keeps [OF wr.keeps_queries(9)])
    have "writer (tfd t) p s1 s1" using writer_start i1(1,2) by simp
    then have w2: "writes p s1 s2"
      using presD [OF w r2] by (simp add: writer_def)
    have op2: "opened {p} (tfd t) p s s2"
      using opened_writes [OF opened_mono [OF ok(3), of "{p}"] w2] by simp
    note i2 = opened_inv [OF op2 wf]
    have w3: "writes p s s'"
      using close_target_spec [OF r3 op2] by (simp add: writes_def)
    have good: "psize p = len \<and> (quiet s p \<longrightarrow> stable_region s' p = region s' p) \<and>
        (quiet s p \<longrightarrow> quiet s q \<longrightarrow> apart q p \<longrightarrow> region s' p = bslice source_offset len (region s q))"
      if r: "r = Inr ()"
    proof -
      obtain s3 s4 where b1: "run_state sys_ok s1 = (Inr (), s3)"
          and b2: "run_state (copy_loop (tfd src) (tfd t) source_offset len 0) s3 = (Inr (), s4)"
          and b3: "run_state (sys_fsync (tfd t)) s4 = (Inr (), s2)" and len: "psize p = len"
        using r2 r ok(4) by (auto simp: copy_to_target_def split: if_splits prod.splits sum.splits)
      have rd3: "reads s1 s3" using keepsD [OF rd.keeps_queries(9) b1] .
      note i3 = reads_inv [OF rd3 i1(1)]
      have p3: "fd_part s3 (tfd t) = Some p" using i3(2) i1(2) by simp
      have w4: "writes p s3 s4"
        using presD [OF writer_copy_loop b2 writer_start [OF i3(1) p3]] by (simp add: writer_def)
      note i4 = writes_inv [OF w4 i3(1)]
      have p4: "fd_part s4 (tfd t) = Some p" using i4(2) p3 by simp
      have quiet: "quiet s4 p = quiet s p" "quiet s3 p = quiet s p" "quiet s3 q = quiet s q" "quiet s2 p = quiet s p"
        using i1(3) i2(3) i3(3) i4(3) by simp_all
      have stable: "stable_region s' p = region s' p \<and> region s' p = region s4 p" if "quiet s p"
        using sys_fsync_spec(2,3) [OF b3 p4 i4(1)] close_target_region [OF r3 i2(1)] i2(4,8) quiet that by auto
      have "region s' p = bslice source_offset len (region s q)" if q: "quiet s p" "quiet s q" "apart q p"
      proof -
        have q3: "fd_part s3 (tfd src) = Some q" using i3(2) opened_other [OF ok(3) src(1)] by simp
        have "in_disk s q" using wf_fd_part [OF wf src(1)] .
        then have reg: "region s3 q = region s q" "length (region s q) = psize q"
          using i1(10) [of q] i3(11) [of q] i1(3,4) q length_region by auto
        have "region s4 p = patch 0 (bslice source_offset len (region s q)) (region s3 p)"
          using copy_loop_correct [OF b2 i3(1) q3 p3] quiet q reg by simp
        also have "\<dots> = bslice source_offset len (region s q)"
          using rng src(2) reg(2) len length_region [of s3 p] i1(4,8) i3(4) by (intro patch_whole) auto
        finally show ?thesis using stable q by simp
      qed
      with stable len show ?thesis by blast
    qed
    show ?thesis using w3 good ok(7) rng src(2) by auto
  qed
qed

lemma copy_bracket:
  assumes run: "run_state (do {
        r \<leftarrow> open_target source flags;
        case r of
          Inl e \<Rightarrow> ret (Inl e)
        | Inr t \<Rightarrow> do {
            result \<leftarrow> copy_block_range_from_target t (off t) (len t) dest;
            _ \<leftarrow> close_target t;
            ret result
          }
      }) s = (r, s')"
    and wf: "wf_os s" and dest: "nodes s dest = Some (Blk p)"
  obtains (fail) e where "r = Inl e" "writes p s s'"
  | (ok) q t where "r = Inr ()" "writes p s s'" "nodes s source = Some (Blk q)" "tsize t = psize q"
      "psize p = len t" "off t + len t \<le> psize q"
      "\<not> is_mounted s (rdev p)" "quiet s p \<Longrightarrow> stable_region s' p = region s' p"
      "quiet s p \<Longrightarrow> quiet s q \<Longrightarrow> apart q p \<Longrightarrow> region s' p = bslice (off t) (len t) (region s q)"
proof -
  obtain o1 s1 where r1: "run_state (open_target source flags) s = (o1, s1)" by (cases "run_state (open_target source flags) s")
  show thesis
    using r1 wf
  proof (cases rule: open_target_spec)
    case F: (fail e)
    then show thesis using run fail reads_writes by (auto simp: r1)
  next
    case O: (ok t q)
    note i1 = opened_inv [OF O(3) wf]
    obtain s2 x where r2: "run_state (copy_block_range_from_target t (off t) (len t) dest) s1 = (r, s2)"
        and r3: "run_state (close_target t) s2 = (x, s')"
      using run O(1) by (auto simp: r1 split: prod.splits)
    note c = copy_from_target_spec [OF r2 i1(1) _ i1(2) O(4), of p]
    have w: "writes p s1 s2" using c dest i1(5) by simp
    have op2: "opened {p} (tfd t) q s s2"
      using opened_writes [OF opened_mono [OF O(3), of "{p}"] w] by simp
    note i2 = opened_inv [OF op2 wf]
    have w': "writes p s s'" using close_target_spec [OF r3 op2] by (simp add: writes_def)
    show thesis
    proof (cases r)
      case (Inl e)
      then show thesis using fail w' by blast
    next
      case (Inr u)
      then have r: "r = Inr ()" by simp
      have p: "in_disk s p" using wf_node [OF wf dest] .
      have reg: "region s' p = region s2 p" "stable_region s' p = stable_region s2 p" if "quiet s p"
        using close_target_region [OF r3 i2(1)] i2(3,4) p that by simp_all
      have "region s1 q = region s q" if "quiet s q" using i1(10) i1(8) that by simp
      then show thesis
        using c r dest i1(3,5,6) reg O(2,4) w' by (intro ok [of q t]) (auto simp: is_mounted_def)
    qed
  qed
qed

lemma copy_block_device_spec:
  assumes run: "run_state (copy_block_device source dest) s = (r, s')"
    and wf: "wf_os s" and dest: "nodes s dest = Some (Blk p)" and src: "nodes s source = Some (Blk q)"
  shows "writes p s s' \<and> (r = Inr () \<longrightarrow> psize p = psize q \<and> \<not> is_mounted s (rdev p) \<and>
    (quiet s p \<longrightarrow> stable_region s' p = region s' p) \<and>
    (quiet s p \<longrightarrow> quiet s q \<longrightarrow> apart q p \<longrightarrow> region s' p = region s q))"
proof (cases "source = dest")
  case True
  then show ?thesis using run by (auto simp: copy_block_device_def writes_refl)
next
  case False
  have q: "bslice 0 (psize q) (region s q) = region s q"
    using length_region [OF wf_node [OF wf src]] by (metis slice_all)
  have "run_state (do {
        r \<leftarrow> open_target source [O_RDONLY, O_CLOEXEC, O_DIRECT];
        case r of
          Inl e \<Rightarrow> ret (Inl e)
        | Inr t \<Rightarrow> do {
            result \<leftarrow> copy_block_range_from_target t 0 (tsize t) dest;
            _ \<leftarrow> close_target t;
            ret result
          }
      }) s = (r, s')"
    using run False by (simp add: copy_block_device_def)
  then show ?thesis
    using wf dest by (cases rule: copy_bracket) (use q src in auto)
qed

lemma copy_block_range_spec:
  assumes run: "run_state (copy_block_range source off len dest) s = (r, s')"
    and wf: "wf_os s" and dest: "nodes s dest = Some (Blk p)"
  shows "writes p s s' \<and> (r = Inr () \<longrightarrow> psize p = len \<and> \<not> is_mounted s (rdev p) \<and>
    (quiet s p \<longrightarrow> stable_region s' p = region s' p) \<and>
    (\<exists>q. nodes s source = Some (Blk q) \<and> off + len \<le> psize q \<and>
      (quiet s p \<longrightarrow> quiet s q \<longrightarrow> apart q p \<longrightarrow> region s' p = bslice off len (region s q))))"
proof (cases "source = dest")
  case True
  then show ?thesis using run by (auto simp: copy_block_range_def writes_refl)
next
  case False
  have "run_state (do {
        r \<leftarrow> open_target source [O_RDONLY, O_CLOEXEC, O_DIRECT];
        case r of
          Inl e \<Rightarrow> ret (Inl e)
        | Inr t \<Rightarrow> do {
            result \<leftarrow> copy_block_range_from_target t off len dest;
            _ \<leftarrow> close_target t;
            ret result
          }
      }) s = (r, s')"
    using run False by (simp add: copy_block_range_def)
  then show ?thesis
    using wf dest by (cases rule: copy_bracket) auto
qed

subsection \<open>The active device and the gate\<close>

context os_frame
begin

lemma keeps_resolve_active_peer: "keeps R (resolve_active_peer mp a b)"
  unfolding resolve_active_peer_def by (intro keeps_intros keeps_queries)

end

lemma resolve_active_peer_spec:
  assumes run: "run_state (resolve_active_peer mp a b) s = (r, s')" and wf: "wf_os s"
  shows "reads s s' \<and> (\<forall>x y. r = Inr (x, y) \<longrightarrow> (\<exists>pa pb p. nodes s a = Some (Blk pa) \<and> nodes s b = Some (Blk pb) \<and>
    rdev pa \<noteq> rdev pb \<and> {x, y} = {a, b} \<and> nodes s x = Some (Blk p) \<and>
    rdev p = (case map_of (mounts s) mp of Some m \<Rightarrow> rdev m | None \<Rightarrow> home_dev s mp)))"
proof
  show "reads s s'"
    using rd.keeps_resolve_active_peer run by (rule keepsD)
  show "\<forall>x y. r = Inr (x, y) \<longrightarrow> (\<exists>pa pb p. nodes s a = Some (Blk pa) \<and> nodes s b = Some (Blk pb) \<and>
    rdev pa \<noteq> rdev pb \<and> {x, y} = {a, b} \<and> nodes s x = Some (Blk p) \<and>
    rdev p = (case map_of (mounts s) mp of Some m \<Rightarrow> rdev m | None \<Rightarrow> home_dev s mp))"
  proof (intro allI impI)
    fix x y
    assume r: "r = Inr (x, y)"
    obtain m s1 where r1: "run_state (sys_stat mp) s = (Inr m, s1)"
      using run r by (auto simp: resolve_active_peer_def split: prod.splits sum.splits)
    obtain sa s2 where r2: "run_state (sys_stat a) s1 = (Inr sa, s2)"
      using run r r1 by (auto simp: resolve_active_peer_def split: prod.splits sum.splits)
    obtain sb where r3: "run_state (sys_stat b) s2 = (Inr sb, s')"
      using run r r1 r2 by (auto simp: resolve_active_peer_def split: prod.splits sum.splits)
    have n: "nodes s1 = nodes s" "nodes s2 = nodes s"
      using reads_inv(5) keepsD [OF rd.keeps_queries(1)] r1 r2 wf reads_inv(1) by metis+
    obtain pa pb where p: "st_node sa = Blk pa" "st_node sb = Blk pb" "rdev pa \<noteq> rdev pb"
      using run r r1 r2 r3 by (auto simp: resolve_active_peer_def split: node.splits if_splits)
    then have nn: "nodes s a = Some (Blk pa)" "nodes s b = Some (Blk pb)"
      using sys_stat_run(1) [OF r2] sys_stat_run(1) [OF r3] n by simp_all
    have "(x, y) = (a, b) \<and> st_dev m = rdev pa \<or> (x, y) = (b, a) \<and> st_dev m = rdev pb"
      using run r r1 r2 r3 p by (auto simp: resolve_active_peer_def split: if_splits)
    then show "\<exists>pa pb p. nodes s a = Some (Blk pa) \<and> nodes s b = Some (Blk pb) \<and>
      rdev pa \<noteq> rdev pb \<and> {x, y} = {a, b} \<and> nodes s x = Some (Blk p) \<and>
      rdev p = (case map_of (mounts s) mp of Some m \<Rightarrow> rdev m | None \<Rightarrow> home_dev s mp)"
      using nn p(3) sys_stat_run(2) [OF r1] by auto
  qed
qed

text \<open>What a state keeps when the gate of one mountpoint may have moved.\<close>

definition gate_step :: "string \<Rightarrow> os \<Rightarrow> os \<Rightarrow> bool" where
  "gate_step mp s t \<longleftrightarrow> (wf_os s \<longrightarrow> wf_os t \<and> (no_loss s \<longrightarrow> no_loss t) \<and>
     statics (t\<lparr>gate := gate s\<rparr>) = statics s \<and> (\<forall>m. m \<noteq> mp \<longrightarrow> gate t m = gate s m) \<and>
     (\<forall>q. in_disk t q = in_disk s q))"

lemma gate_step_trans: "gate_step mp s t \<Longrightarrow> gate_step mp t u \<Longrightarrow> gate_step mp s u"
  by (auto simp: gate_step_def statics_def)

lemma gate_step_world: "world {} s t \<Longrightarrow> gate_step mp s t"
  unfolding gate_step_def
  using world_statics [of "{}" s t] by (auto simp: world_wf world_no_loss world_in_disk statics_def)

lemma gate_step_gate: "gate_step mp s (s\<lparr>gate := (gate s)(mp := g)\<rparr>)"
  by (auto simp: gate_step_def statics_def wf_os_def in_disk_def no_loss_def)

lemma gate_step_inv:
  assumes "gate_step mp s t" and "wf_os s"
  shows "wf_os t" "nodes t = nodes s" "mounts t = mounts s" "numfiles t = numfiles s" "home_dev t = home_dev s"
    "in_disk t q = in_disk s q" "no_loss s \<Longrightarrow> no_loss t" "m \<noteq> mp \<Longrightarrow> gate t m = gate s m"
    "leaky t = leaky s"
  using assms by (auto simp: gate_step_def statics_def)

lemma disable_vfat_write_spec:
  assumes run: "run_state (disable_vfat_write mp) s = (r, s')" and wf: "wf_os s"
  shows "gate_step mp s s' \<and> fd_frame s s' \<and> (r = Inr () \<longrightarrow> gate s' mp)"
proof -
  let ?flags = "[O_RDONLY, O_DIRECTORY, O_CLOEXEC]"
  obtain o1 s1 where r1: "run_state (sys_open mp ?flags) s = (o1, s1)" by (cases "run_state (sys_open mp ?flags) s")
  show ?thesis
    using r1 wf
  proof (cases rule: sys_open_spec)
    case (1 e)
    then have "s' = s1" "r = Inl e" using run by (simp_all add: disable_vfat_write_def r1)
    then show ?thesis using 1 by (simp add: gate_step_world reads_def)
  next
    case (2 fd nd)
    obtain o2 s2 where r2: "run_state (sys_fat_disable_write fd) s1 = (o2, s2)" by (cases "run_state (sys_fat_disable_write fd) s1")
    obtain x where r3: "run_state (sys_close fd) s2 = (x, s')" and r: "r = Inr () \<Longrightarrow> o2 = Inr ()"
      using run 2(1) by (cases o2) (auto simp: disable_vfat_write_def r1 r2 split: prod.splits)
    obtain rp t where tick: "tick s1 = (rp, t)" by (cases "tick s1")
    have t: "world {} s1 t" "fds t = fds s1" "next_fd t = next_fd s1"
      using world_tick [of "{}" s1] tick_run [OF tick] by (simp_all add: tick)
    obtain g where g: "s2 = t \<and> o2 \<noteq> Inr () \<or> s2 = t\<lparr>gate := (gate t)(mp := g)\<rparr> \<and> (o2 = Inr () \<longrightarrow> g)"
      using r2 2(6) t(2)
      by (auto simp: sys_fat_disable_write_def sys_defs tick split: option.splits reply.splits)
    have s': "s' = (snd (tick s2))\<lparr>fds := (fds (snd (tick s2)))(fd := None)\<rparr>" using sys_close_run [OF r3] by simp
    have "gate_step mp t s2" using g gate_step_gate gate_step_world [OF world_refl] by auto
    moreover have "gate_step mp s2 s'"
      unfolding s' by (rule gate_step_world [OF world_trans [OF world_tick world_close]])
    ultimately have "gate_step mp s s'"
      using gate_step_trans [OF gate_step_world [OF world_trans [OF 2(3) t(1)]]] gate_step_trans by blast
    moreover have "fds s2 = fds s1" "next_fd s2 = next_fd s1" using g t by auto
    then have "fds s' = fds s" "next_fd s' = Suc (next_fd s)"
      using s' 2(4-6) wf by (auto simp: wf_os_def fun_upd_idem)
    then have "fd_frame s s'" by (simp add: fd_frame_def)
    moreover have "gate s' mp" if "r = Inr ()" using s' g r [OF that] by auto
    ultimately show ?thesis by blast
  qed
qed

end
