(* ===== verification/Dirty_Settings.thy ===== *)
theory Dirty_Settings
  imports Example_Os
begin

text \<open>
  The page-cache profile of \<^verbatim>\<open>storage.c\<close>: \<^verbatim>\<open>read_sysctl_u32\<close>, \<^verbatim>\<open>write_sysctl_u32\<close> and the functions on
  \<^verbatim>\<open>struct dirty_settings\<close> built from them.  The static \<^verbatim>\<open>original\<close> of the source is passed along explicitly.
  A second frame relation, \<open>calmly\<close>, covers the calls that touch pseudo files and services but no
  device.
\<close>

subsection \<open>Definitions\<close>

record dirty_settings =
  writeback_centisecs :: u32
  background_ratio :: u32
  dirty_ratio :: u32

definition WRITEBACK_PATH :: string where
  "WRITEBACK_PATH = ''/proc/sys/vm/dirty_writeback_centisecs''"

definition BACKGROUND_PATH :: string where
  "BACKGROUND_PATH = ''/proc/sys/vm/dirty_background_ratio''"

definition RATIO_PATH :: string where
  "RATIO_PATH = ''/proc/sys/vm/dirty_ratio''"

definition read_sysctl_u32 :: "string \<Rightarrow> (os, errno + u32) state" where
  "read_sysctl_u32 path = do {
     file \<leftarrow> sys_fopen path;
     case file of
       Inl e \<Rightarrow> ret (Inl e)
     | Inr _ \<Rightarrow> do {
         v \<leftarrow> sys_fscanf path;
         c \<leftarrow> sys_ok;
         ret (case v of
                Inl _ \<Rightarrow> Inl EIO
              | Inr n \<Rightarrow> (case c of Inl e \<Rightarrow> Inl e | Inr _ \<Rightarrow> Inr (of_nat n)))
       }
   }"

definition write_sysctl_u32 :: "string \<Rightarrow> u32 \<Rightarrow> (os, errno + unit) state" where
  "write_sysctl_u32 path v = do {
     file \<leftarrow> sys_fopen path;
     case file of
       Inl e \<Rightarrow> ret (Inl e)
     | Inr _ \<Rightarrow> do {
         p \<leftarrow> sys_ok;
         c \<leftarrow> sys_fclose_write path (case p of Inl _ \<Rightarrow> None | Inr _ \<Rightarrow> Some (unat v));
         ret (case c of Inl e \<Rightarrow> Inl e | Inr _ \<Rightarrow> p)
       }
   }"

text \<open>The three reads stop at the first failure; the fields read before it have been stored.\<close>

definition read_dirty_settings :: "dirty_settings \<Rightarrow> (os, (errno + unit) \<times> dirty_settings) state" where
  "read_dirty_settings settings = do {
     w \<leftarrow> read_sysctl_u32 WRITEBACK_PATH;
     case w of
       Inl e \<Rightarrow> ret (Inl e, settings)
     | Inr v1 \<Rightarrow> do {
         b \<leftarrow> read_sysctl_u32 BACKGROUND_PATH;
         case b of
           Inl e \<Rightarrow> ret (Inl e, settings\<lparr>writeback_centisecs := v1\<rparr>)
         | Inr v2 \<Rightarrow> do {
             d \<leftarrow> read_sysctl_u32 RATIO_PATH;
             case d of
               Inl e \<Rightarrow> ret (Inl e, settings\<lparr>writeback_centisecs := v1, background_ratio := v2\<rparr>)
             | Inr v3 \<Rightarrow>
                 ret (Inr (), settings\<lparr>writeback_centisecs := v1, background_ratio := v2, dirty_ratio := v3\<rparr>)
           }
       }
   }"

text \<open>All three writes are attempted; the first error is reported.\<close>

definition write_dirty_settings :: "dirty_settings \<Rightarrow> (os, errno + unit) state" where
  "write_dirty_settings settings = do {
     w \<leftarrow> write_sysctl_u32 WRITEBACK_PATH (writeback_centisecs settings);
     b \<leftarrow> write_sysctl_u32 BACKGROUND_PATH (background_ratio settings);
     d \<leftarrow> write_sysctl_u32 RATIO_PATH (dirty_ratio settings);
     ret (case w of
            Inl e \<Rightarrow> Inl e
          | Inr _ \<Rightarrow> (case b of Inl e \<Rightarrow> Inl e | Inr _ \<Rightarrow> d))
   }"

definition delayed :: dirty_settings where
  "delayed = \<lparr>writeback_centisecs = 6000, background_ratio = 80, dirty_ratio = 90\<rparr>"

definition enable_pagecache_delay :: "(os, errno + unit) state" where
  "enable_pagecache_delay = write_dirty_settings delayed"

text \<open>The same limits in bytes, which the program neither saves nor restores.\<close>

definition bytes_files :: "string set" where
  "bytes_files = {''/proc/sys/vm/dirty_background_bytes'', ''/proc/sys/vm/dirty_bytes''}"

subsection \<open>Calls that touch no device\<close>

definition like :: "os \<Rightarrow> os \<Rightarrow> os" where
  "like s t = t\<lparr>numfiles := numfiles s, signalled := signalled s, ready := ready s\<rparr>"

definition calmly :: "part set \<Rightarrow> os \<Rightarrow> os \<Rightarrow> bool" where
  "calmly W s t \<longleftrightarrow> world W s (like s t) \<and> fd_frame s t"

lemma wf_like [simp]: "wf_os (like s t) = wf_os t"
  by (simp add: wf_os_def like_def in_disk_def)

lemma like_fields [simp]:
  "nodes (like s t) = nodes t" "mounts (like s t) = mounts t" "gate (like s t) = gate t" "env (like s t) = env t"
  "home_dev (like s t) = home_dev t" "links (like s t) = links t" "disks (like s t) = disks t"
  "stable (like s t) = stable t" "now (like s t) = now t" "unit_state (like s t) = unit_state t" "leaky (like s t) = leaky t" "shut (like s t) = shut t"
  by (simp_all add: like_def shut_def fun_eq_iff)

lemma region_like [simp]: "region (like s t) p = region t p" "stable_region (like s t) p = stable_region t p"
  "in_disk (like s t) p = in_disk t p" "quiet (like s t) p = quiet t p"
  by (simp_all add: region_def stable_region_def in_disk_def quiet_def)

lemma statics_like: "statics (like s t) = statics s \<longleftrightarrow> nodes t = nodes s \<and> mounts t = mounts s \<and> gate t = gate s \<and>
    home_dev t = home_dev s \<and> links t = links s \<and> unit_state t = unit_state s \<and> leaky t = leaky s"
  by (auto simp: statics_def like_def)

lemma world_like: "world W s (like s t) \<longleftrightarrow> (wf_os s \<longrightarrow> wf_os t \<and> nodes t = nodes s \<and> mounts t = mounts s \<and> gate t = gate s \<and>
     home_dev t = home_dev s \<and> links t = links s \<and> unit_state t = unit_state s \<and> leaky t = leaky s \<and> now s \<le> now t \<and>
     (\<exists>k. env t = drop k (env s)) \<and>
     (\<forall>d. length (disks t d) = length (disks s d) \<and> length (stable t d) = length (stable s d)) \<and>
     (\<forall>p. in_disk s p \<and> quiet s p \<and> (\<forall>q \<in> W. apart p q) \<longrightarrow>
        region t p = region s p \<and> stable_region t p = stable_region s p))"
  unfolding world_def statics_like by auto

lemma world_worldlike: "world W s t \<Longrightarrow> world W s (like s t)"
  unfolding world_like by (auto simp: world_def statics_def)

lemma calmly_trans:
  assumes "calmly W s t" and "calmly W t u"
  shows "calmly W s u"
proof -
  define a where "a = like s t"
  define b where "b = like s u"
  have "world W a b"
    using assms(2) unfolding calmly_def world_like a_def b_def
    by (auto simp: world_def statics_def like_def wf_os_def in_disk_def quiet_def shut_def region_def stable_region_def)
  with assms show ?thesis
    unfolding calmly_def a_def b_def using world_trans fd_frame_trans by blast
qed

interpretation cm: os_io "calmly W" for W
proof
  show "calmly W s s" for s
    by (simp add: calmly_def world_worldlike world_refl fd_frame_refl)
  show "calmly W s u" if "calmly W s t" "calmly W t u" for s t u
    using that by (rule calmly_trans)
  show "calmly W s (snd (tick s))" for s
    by (simp add: calmly_def world_worldlike world_tick fd_frame_tick)
  show "calmly W s (s\<lparr>fds := (fds s)(fd \<mapsto> d\<lparr>fd_direct := b\<rparr>)\<rparr>)" if "fds s fd = Some d" for s fd d b
    using that by (simp add: calmly_def world_worldlike world_setfl fd_frame_setfl)
qed

lemma reads_calmly: "reads s t \<Longrightarrow> calmly W s t"
  unfolding reads_def calmly_def by (blast intro: world_worldlike world_mono)

lemma writes_calmly: "writes p s t \<Longrightarrow> p \<in> W \<Longrightarrow> calmly W s t"
  unfolding writes_def calmly_def by (blast intro: world_worldlike world_mono)

lemma calmly_mono: "calmly W s t \<Longrightarrow> W \<subseteq> V \<Longrightarrow> calmly V s t"
  unfolding calmly_def by (blast intro: world_mono)

lemma calmly_inv:
  assumes "calmly W s t" "wf_os s"
  shows "wf_os t" "fd_part t fd = fd_part s fd" "quiet t q = quiet s q" "in_disk t q = in_disk s q"
    "nodes t = nodes s" "mounts t = mounts s" "gate t = gate s" "links t = links s" "no_loss s \<Longrightarrow> no_loss t"
    "in_disk s q \<Longrightarrow> quiet s q \<Longrightarrow> (\<And>w. w \<in> W \<Longrightarrow> apart q w) \<Longrightarrow> region t q = region s q"
    "in_disk s q \<Longrightarrow> quiet s q \<Longrightarrow> (\<And>w. w \<in> W \<Longrightarrow> apart q w) \<Longrightarrow> stable_region t q = stable_region s q"
    "fd_frame s t" "leaky t = leaky s"
proof -
  have w: "world W s (like s t)" and f: "fd_frame s t" using assms(1) by (simp_all add: calmly_def)
  note c = w [unfolded world_like] assms(2)
  show "wf_os t" "nodes t = nodes s" "mounts t = mounts s" "gate t = gate s" "links t = links s" "leaky t = leaky s"
    using c by auto
  show "fd_part t fd = fd_part s fd" using fd_frame_part [OF f] .
  show "quiet t q = quiet s q" "in_disk t q = in_disk s q"
    using world_quiet [OF w assms(2), of q] world_in_disk [OF w assms(2), of q] by simp_all
  show "no_loss t" if "no_loss s"
    using world_no_loss [OF w assms(2) that] by (simp add: no_loss_def)
  show "region t q = region s q" "stable_region t q = stable_region s q"
    if "in_disk s q" "quiet s q" "\<And>w. w \<in> W \<Longrightarrow> apart q w"
    using world_region [OF w assms(2) that] world_stable_region [OF w assms(2) that] by simp_all
  show "fd_frame s t" by (rule f)
qed

lemma calmly_update:
  "calmly W s (s\<lparr>numfiles := f\<rparr>)" "calmly W s (s\<lparr>signalled := g\<rparr>)" "calmly W s (s\<lparr>ready := b\<rparr>)"
  by (auto simp: calmly_def world_like wf_os_def in_disk_def region_def stable_region_def fd_frame_same intro: exI [of _ 0])

lemma keeps_services:
  "keeps (calmly W) (sys_fclose_write path b)" "keeps (calmly W) (bus_kill_unit u)" "keeps (calmly W) sd_notify_ready"
  unfolding sys_fclose_write_def bus_kill_unit_def sd_notify_ready_def
  by (auto intro!: cm.keeps_fallible simp: calmly_update cm.frame_refl split: option.split)

lemma keeps_sysctl:
  "keeps (calmly W) (read_sysctl_u32 path)" "keeps (calmly W) (write_sysctl_u32 path v)"
  "keeps (calmly W) (read_dirty_settings st)" "keeps (calmly W) (write_dirty_settings st)"
  "keeps (calmly W) enable_pagecache_delay"
  unfolding read_dirty_settings_def write_dirty_settings_def read_sysctl_u32_def write_sysctl_u32_def enable_pagecache_delay_def
  by (intro cm.keeps_intros cm.keeps_queries keeps_services)+

subsection \<open>The profile is saved and restored\<close>

lemma dirty_paths_distinct [simp]:
  "WRITEBACK_PATH \<noteq> BACKGROUND_PATH" "WRITEBACK_PATH \<noteq> RATIO_PATH" "BACKGROUND_PATH \<noteq> RATIO_PATH"
  "BACKGROUND_PATH \<noteq> WRITEBACK_PATH" "RATIO_PATH \<noteq> WRITEBACK_PATH" "RATIO_PATH \<noteq> BACKGROUND_PATH"
  by (simp_all add: WRITEBACK_PATH_def BACKGROUND_PATH_def RATIO_PATH_def)

lemma tick_files: "tick s = (r, t) \<Longrightarrow> numfiles t = numfiles s" "tick s = (r, t) \<Longrightarrow> signalled t = signalled s"
  by (metis snd_conv tick_fields(4,7))+

text \<open>Queries leave every field but the script, the clock and written-back file data.\<close>

lemma numfiles_query:
  "run_state (sys_fopen path) s = (r, s') \<Longrightarrow> numfiles s' = numfiles s"
  "run_state (sys_fscanf path) s = (v, s') \<Longrightarrow> numfiles s' = numfiles s"
  "run_state sys_ok s = (r, s') \<Longrightarrow> numfiles s' = numfiles s"
  by (auto simp: sys_fopen_def sys_fscanf_def sys_ok_def syscall_def or_fail_def dest: tick_files
      split: prod.splits reply.splits)

lemma sys_fclose_write_files:
  assumes "run_state (sys_fclose_write path b) s = (r, s')"
  shows "r = Inr () \<and> numfiles s' = (case b of None \<Rightarrow> numfiles s | Some n \<Rightarrow> set_number path n (numfiles s)) \<or>
    (\<exists>e. r = Inl e) \<and> numfiles s' = numfiles s"
  using assms
  by (auto simp: sys_fclose_write_def syscall_def or_fail_def tick_files
      split: prod.splits reply.splits option.splits)

lemma write_sysctl_files:
  assumes "run_state (write_sysctl_u32 path v) s = (r, s')"
  shows "(r = Inr () \<longrightarrow> numfiles s' = set_number path (unat v) (numfiles s)) \<and>
    (numfiles s' = numfiles s \<or> numfiles s' = set_number path (unat v) (numfiles s))"
proof -
  obtain f s1 where r1: "run_state (sys_fopen path) s = (f, s1)" by (cases "run_state (sys_fopen path) s")
  show ?thesis
  proof (cases f)
    case (Inl e)
    then show ?thesis using assms numfiles_query(1) [OF r1] by (auto simp: write_sysctl_u32_def r1)
  next
    case (Inr u)
    obtain q s2 where r2: "run_state sys_ok s1 = (q, s2)" by (cases "run_state sys_ok s1")
    obtain c s3 where r3: "run_state (sys_fclose_write path (case q of Inl _ \<Rightarrow> None | Inr _ \<Rightarrow> Some (unat v))) s2 = (c, s3)"
      by (cases "run_state (sys_fclose_write path (case q of Inl _ \<Rightarrow> None | Inr _ \<Rightarrow> Some (unat v))) s2")
    have "s' = s3" "r = (case c of Inl e \<Rightarrow> Inl e | Inr _ \<Rightarrow> q)"
      using assms Inr by (simp_all add: write_sysctl_u32_def r1 r2 r3)
    then show ?thesis
      using sys_fclose_write_files [OF r3] numfiles_query(1) [OF r1] numfiles_query(3) [OF r2] by (cases q) auto
  qed
qed

lemma read_sysctl_files:
  assumes "run_state (read_sysctl_u32 path) s = (r, s')"
  shows "numfiles s' = numfiles s \<and> (\<forall>v. r = Inr v \<longrightarrow> (\<exists>n. numfiles s path = Some n \<and> v = of_nat n))"
proof -
  obtain f s1 where r1: "run_state (sys_fopen path) s = (f, s1)" by (cases "run_state (sys_fopen path) s")
  obtain v s2 where r2: "run_state (sys_fscanf path) s1 = (v, s2)" by (cases "run_state (sys_fscanf path) s1")
  obtain c s3 where r3: "run_state sys_ok s2 = (c, s3)" by (cases "run_state sys_ok s2")
  have v: "numfiles s1 path = Some n" if "v = Inr n" for n
    using syscall_InrD [OF r2 [unfolded sys_fscanf_def that]] by (auto split: option.splits)
  show ?thesis
    using assms v numfiles_query(1) [OF r1] numfiles_query(2) [OF r2] numfiles_query(3) [OF r3]
    by (cases f; cases v) (auto simp: read_sysctl_u32_def r1 r2 r3 split: sum.splits)
qed

definition applied :: "dirty_settings \<Rightarrow> os \<Rightarrow> (string \<Rightarrow> nat option)" where
  "applied st s = set_number RATIO_PATH (unat (dirty_ratio st)) (set_number BACKGROUND_PATH (unat (background_ratio st))
     (set_number WRITEBACK_PATH (unat (writeback_centisecs st)) (numfiles s)))"

lemma counterparts:
  "counterpart WRITEBACK_PATH = None" "counterpart BACKGROUND_PATH = Some ''/proc/sys/vm/dirty_background_bytes''"
  "counterpart RATIO_PATH = Some ''/proc/sys/vm/dirty_bytes''"
  by (simp_all add: counterpart_def WRITEBACK_PATH_def BACKGROUND_PATH_def RATIO_PATH_def)

lemma bytes_files_paths: "WRITEBACK_PATH \<notin> bytes_files" "BACKGROUND_PATH \<notin> bytes_files" "RATIO_PATH \<notin> bytes_files"
  by (simp_all add: bytes_files_def WRITEBACK_PATH_def BACKGROUND_PATH_def RATIO_PATH_def)

text \<open>Setting one of the three numbers: the file itself, the same limit in bytes, and the rest.\<close>

lemma set_number_own [simp]: "set_number path n m path = Some n"
  by (simp add: set_number_def)

lemma set_number_other:
  assumes "p \<in> {WRITEBACK_PATH, BACKGROUND_PATH, RATIO_PATH}" and "path \<noteq> p" and "path \<notin> bytes_files"
  shows "set_number p n m path = m path"
  using assms by (auto simp: set_number_def counterparts bytes_files_def split: option.split)

lemma set_number_bytes:
  assumes "p \<in> {WRITEBACK_PATH, BACKGROUND_PATH, RATIO_PATH}" and "q \<in> bytes_files"
  shows "set_number p n m q = (if counterpart p = Some q then map_option (\<lambda>_. 0) (m q) else m q)"
proof -
  have "q \<noteq> p" using assms bytes_files_paths by auto
  then show ?thesis using assms(1) by (auto simp: set_number_def counterparts split: option.split)
qed

lemma zeroed_twice [simp]: "map_option (\<lambda>_. 0 :: nat) (map_option (\<lambda>_. 0 :: nat) x) = map_option (\<lambda>_. 0) x"
  by (cases x) simp_all

lemma applied_at:
  "applied st s WRITEBACK_PATH = Some (unat (writeback_centisecs st))" "applied st s BACKGROUND_PATH = Some (unat (background_ratio st))"
  "applied st s RATIO_PATH = Some (unat (dirty_ratio st))" "q \<in> bytes_files \<Longrightarrow> applied st s q = map_option (\<lambda>_. 0) (numfiles s q)"
  "path \<notin> {WRITEBACK_PATH, BACKGROUND_PATH, RATIO_PATH} \<Longrightarrow> path \<notin> bytes_files \<Longrightarrow> applied st s path = numfiles s path"
proof -
  show "applied st s q = map_option (\<lambda>_. 0) (numfiles s q)" if q: "q \<in> bytes_files"
    using q by (simp add: applied_def set_number_bytes counterparts) (auto simp: bytes_files_def)
qed (simp_all add: applied_def set_number_other bytes_files_paths)

lemma applied_elsewhere:
  "path \<notin> {WRITEBACK_PATH, BACKGROUND_PATH, RATIO_PATH} \<Longrightarrow>
     applied st s path = numfiles s path \<or> path \<in> bytes_files \<and> applied st s path = map_option (\<lambda>_. 0) (numfiles s path)"
  using applied_at(4,5) [of path st s] by blast

lemma write_dirty_settings_files:
  assumes "run_state (write_dirty_settings st) s = (r, s')"
  shows "(r = Inr () \<longrightarrow> numfiles s' = applied st s) \<and>
    (\<forall>path. path \<notin> {WRITEBACK_PATH, BACKGROUND_PATH, RATIO_PATH} \<longrightarrow>
       numfiles s' path = numfiles s path \<or> path \<in> bytes_files \<and> numfiles s' path = map_option (\<lambda>_. 0) (numfiles s path))"
proof -
  let ?w = "write_sysctl_u32 WRITEBACK_PATH (writeback_centisecs st)"
  let ?b = "write_sysctl_u32 BACKGROUND_PATH (background_ratio st)"
  let ?d = "write_sysctl_u32 RATIO_PATH (dirty_ratio st)"
  obtain w s1 where r1: "run_state ?w s = (w, s1)" by (cases "run_state ?w s")
  obtain b s2 where r2: "run_state ?b s1 = (b, s2)" by (cases "run_state ?b s1")
  obtain d s3 where r3: "run_state ?d s2 = (d, s3)" by (cases "run_state ?d s2")
  have "s' = s3" and "r = (case w of Inl e \<Rightarrow> Inl e | Inr _ \<Rightarrow> (case b of Inl e \<Rightarrow> Inl e | Inr _ \<Rightarrow> d))"
    using assms by (simp_all add: write_dirty_settings_def r1 r2 r3)
  moreover note f = write_sysctl_files [OF r1] write_sysctl_files [OF r2] write_sysctl_files [OF r3]
  ultimately have "r = Inr () \<longrightarrow> numfiles s' = applied st s" by (auto simp: applied_def split: sum.splits)
  moreover have "numfiles s' path = numfiles s path \<or> path \<in> bytes_files \<and> numfiles s' path = map_option (\<lambda>_. 0) (numfiles s path)"
    if "path \<notin> {WRITEBACK_PATH, BACKGROUND_PATH, RATIO_PATH}" for path
  proof -
    have step: "m' path = m path \<or> path \<in> bytes_files \<and> m' path = map_option (\<lambda>_. 0) (m path)"
      if p: "p \<in> {WRITEBACK_PATH, BACKGROUND_PATH, RATIO_PATH}" and m: "m' = m \<or> m' = set_number p n m" for p n m m'
    proof (cases "path \<in> bytes_files")
      case True
      then show ?thesis using m set_number_bytes [OF p True] by (auto split: if_splits)
    next
      case False
      have "path \<noteq> p" using p \<open>path \<notin> {WRITEBACK_PATH, BACKGROUND_PATH, RATIO_PATH}\<close> by auto
      then show ?thesis using m set_number_other [OF p _ False] by auto
    qed
    have "numfiles s1 path = numfiles s path \<or> path \<in> bytes_files \<and> numfiles s1 path = map_option (\<lambda>_. 0) (numfiles s path)"
      by (rule step [OF _ conjunct2 [OF f(1)]]) simp
    moreover have "numfiles s2 path = numfiles s1 path \<or> path \<in> bytes_files \<and> numfiles s2 path = map_option (\<lambda>_. 0) (numfiles s1 path)"
      by (rule step [OF _ conjunct2 [OF f(2)]]) simp
    moreover have "numfiles s3 path = numfiles s2 path \<or> path \<in> bytes_files \<and> numfiles s3 path = map_option (\<lambda>_. 0) (numfiles s2 path)"
      by (rule step [OF _ conjunct2 [OF f(3)]]) simp
    ultimately show ?thesis using \<open>s' = s3\<close> by auto
  qed
  ultimately show ?thesis by blast
qed

lemma read_dirty_settings_files:
  assumes "run_state (read_dirty_settings st) s = ((r, st'), s')"
  shows "numfiles s' = numfiles s \<and> (r = Inr () \<longrightarrow> (\<exists>a b c. numfiles s WRITEBACK_PATH = Some a \<and>
    numfiles s BACKGROUND_PATH = Some b \<and> numfiles s RATIO_PATH = Some c \<and>
    writeback_centisecs st' = of_nat a \<and> background_ratio st' = of_nat b \<and> dirty_ratio st' = of_nat c))"
proof -
  obtain w s1 where r1: "run_state (read_sysctl_u32 WRITEBACK_PATH) s = (w, s1)"
    by (cases "run_state (read_sysctl_u32 WRITEBACK_PATH) s")
  obtain b s2 where r2: "run_state (read_sysctl_u32 BACKGROUND_PATH) s1 = (b, s2)"
    by (cases "run_state (read_sysctl_u32 BACKGROUND_PATH) s1")
  obtain d s3 where r3: "run_state (read_sysctl_u32 RATIO_PATH) s2 = (d, s3)"
    by (cases "run_state (read_sysctl_u32 RATIO_PATH) s2")
  note f = read_sysctl_files [OF r1] read_sysctl_files [OF r2] read_sysctl_files [OF r3]
  show ?thesis
    using assms f by (cases w; cases b; cases d) (auto simp: read_dirty_settings_def r1 r2 r3)
qed

text \<open>
  The settings are back: every pseudo file holds what it held, except that a limit that was set in bytes may be lost.
\<close>

definition settings_back :: "(string \<Rightarrow> nat option) \<Rightarrow> (string \<Rightarrow> nat option) \<Rightarrow> bool" where
  "settings_back m m' \<longleftrightarrow> (\<forall>path. path \<notin> bytes_files \<or> m path \<in> {None, Some 0} \<longrightarrow> m' path = m path)"

text \<open>The settings \<open>original\<close> are those of \<open>s\<close>.\<close>

definition saved :: "dirty_settings \<Rightarrow> os \<Rightarrow> bool" where
  "saved original s \<longleftrightarrow> numfiles s WRITEBACK_PATH = Some (unat (writeback_centisecs original)) \<and>
     numfiles s BACKGROUND_PATH = Some (unat (background_ratio original)) \<and> numfiles s RATIO_PATH = Some (unat (dirty_ratio original))"

text \<open>The saved numbers fit in 32 bits.\<close>

definition settings_fit :: "os \<Rightarrow> bool" where
  "settings_fit s \<longleftrightarrow> (\<forall>path \<in> {WRITEBACK_PATH, BACKGROUND_PATH, RATIO_PATH}.
     case numfiles s path of None \<Rightarrow> True | Some n \<Rightarrow> n < 2 ^ 32)"

lemma read_dirty_settings_saved:
  assumes "run_state (read_dirty_settings st0) s = ((Inr (), original), s1)"
    and "settings_fit s"
  shows "saved original s"
proof -
  obtain a b c where f: "numfiles s WRITEBACK_PATH = Some a" "numfiles s BACKGROUND_PATH = Some b" "numfiles s RATIO_PATH = Some c"
      "writeback_centisecs original = of_nat a" "background_ratio original = of_nat b" "dirty_ratio original = of_nat c"
    using read_dirty_settings_files [OF assms(1)] by blast
  have u: "unat (of_nat n :: u32) = n" if "n < 2 ^ 32" for n
    using that by (simp add: unsigned_of_nat take_bit_nat_eq_self)
  show ?thesis
    using f u [of a] u [of b] u [of c] assms(2) by (simp add: saved_def settings_fit_def)
qed

text \<open>Writing the saved settings over a state in which at most these files, and limits in bytes, have changed.\<close>

lemma applied_saved:
  assumes "saved original s"
    and "\<And>path. path \<notin> {WRITEBACK_PATH, BACKGROUND_PATH, RATIO_PATH} \<Longrightarrow>
      numfiles u path = numfiles s path \<or> path \<in> bytes_files \<and> numfiles u path = map_option (\<lambda>_. 0) (numfiles s path)"
  shows "settings_back (numfiles s) (applied original u)" and "q \<in> bytes_files \<Longrightarrow> applied original u q = map_option (\<lambda>_. 0) (numfiles s q)"
proof -
  show b: "applied original u q = map_option (\<lambda>_. 0) (numfiles s q)" if "q \<in> bytes_files" for q
  proof -
    have "q \<notin> {WRITEBACK_PATH, BACKGROUND_PATH, RATIO_PATH}" using that bytes_files_paths by auto
    from assms(2) [OF this] show ?thesis using applied_at(4) [OF that] by auto
  qed
  have "applied original u path = numfiles s path" if "path \<notin> bytes_files" for path
  proof (cases "path \<in> {WRITEBACK_PATH, BACKGROUND_PATH, RATIO_PATH}")
    case True
    then show ?thesis using assms(1) applied_at(1-3) by (auto simp: saved_def)
  next
    case False
    then show ?thesis using assms(2) [OF False] applied_at(5) [OF False that] that by auto
  qed
  note n = this
  have "applied original u path = numfiles s path" if "path \<notin> bytes_files \<or> numfiles s path \<in> {None, Some 0}" for path
    using n [of path] b [of path] that by (cases "path \<in> bytes_files") auto
  then show "settings_back (numfiles s) (applied original u)" by (simp add: settings_back_def)
qed

text \<open>
  C19 (the profile comes back).  Read the settings, switch to the delayed profile, whatever comes of
  that, and write the saved settings: if the read and the last write succeed, the three files that are saved, and
  every other pseudo file, hold what they held at the beginning.  The exception are the two files with the same limits in bytes: the kernel
  resets such a limit when the ratio is written, and it is not restored.  If the switch succeeded, both hold zero at the end.  The saved values must fit in 32 bits, as the
  kernel's do.
\<close>

theorem dirty_settings_restored:
  assumes "run_state (read_dirty_settings st0) s = ((Inr (), original), s1)"
    and "run_state enable_pagecache_delay s1 = (r, s2)"
    and "run_state (write_dirty_settings original) s2 = (Inr (), s3)"
    and "settings_fit s"
  shows "settings_back (numfiles s) (numfiles s3) \<and>
    (r = Inr () \<longrightarrow> (\<forall>q \<in> bytes_files. numfiles s3 q = map_option (\<lambda>_. 0) (numfiles s q)))"
proof -
  have sv: "saved original s" using read_dirty_settings_saved [OF assms(1,4)] .
  have f: "numfiles s1 = numfiles s" "numfiles s3 = applied original s2"
    using read_dirty_settings_files [OF assms(1)] write_dirty_settings_files [OF assms(3)] by simp_all
  have "numfiles s2 path = numfiles s path \<or> path \<in> bytes_files \<and> numfiles s2 path = map_option (\<lambda>_. 0) (numfiles s path)"
    if "path \<notin> {WRITEBACK_PATH, BACKGROUND_PATH, RATIO_PATH}" for path
    using write_dirty_settings_files [OF assms(2) [unfolded enable_pagecache_delay_def]] f(1) that by simp
  from applied_saved [OF sv this] show ?thesis unfolding f(2) by blast
qed

lemma sysctl_calm [calm]:
  "env s = [] \<Longrightarrow> numfiles s path = Some n \<Longrightarrow> run_state (read_sysctl_u32 path) s = (Inr (of_nat n), s)"
  "env s = [] \<Longrightarrow> numfiles s path = Some n \<Longrightarrow>
     run_state (write_sysctl_u32 path v) s = (Inr (), s\<lparr>numfiles := set_number path (unat v) (numfiles s)\<rparr>)"
  by (simp_all add: read_sysctl_u32_def write_sysctl_u32_def sys_fopen_def sys_fscanf_def sys_ok_def
      sys_fclose_write_def calm)

lemma write_dirty_settings_calm [calm]:
  assumes "env s = []" "numfiles s WRITEBACK_PATH = Some a" "numfiles s BACKGROUND_PATH = Some b" "numfiles s RATIO_PATH = Some c"
  shows "run_state (write_dirty_settings st) s = (Inr (), s\<lparr>numfiles := applied st s\<rparr>)"
  using assms by (simp add: write_dirty_settings_def sysctl_calm applied_def set_number_other bytes_files_paths)

lemma ex_files [simp]:
  "numfiles ex_os WRITEBACK_PATH = Some 500" "numfiles ex_os BACKGROUND_PATH = Some 10" "numfiles ex_os RATIO_PATH = Some 20"
  by (simp_all add: ex_os_def WRITEBACK_PATH_def BACKGROUND_PATH_def RATIO_PATH_def)

lemma ex_fit: "settings_fit ex_os"
  by (simp add: settings_fit_def)

theorem dirty_settings_restored_witness:
  "\<exists>original s2 s3. run_state (read_dirty_settings delayed) ex_os = ((Inr (), original), ex_os) \<and>
     run_state enable_pagecache_delay ex_os = (Inr (), s2) \<and> numfiles s2 RATIO_PATH = Some 90 \<and>
     run_state (write_dirty_settings original) s2 = (Inr (), s3) \<and> settings_back (numfiles ex_os) (numfiles s3) \<and>
     numfiles s3 ''/proc/sys/vm/dirty_bytes'' = Some 0"
proof -
  let ?o = "\<lparr>writeback_centisecs = 500, background_ratio = 10, dirty_ratio = 20\<rparr> :: dirty_settings"
  let ?s2 = "ex_os\<lparr>numfiles := applied delayed ex_os\<rparr>"
  let ?s3 = "?s2\<lparr>numfiles := applied ?o ?s2\<rparr>"
  have r1: "run_state (read_dirty_settings delayed) ex_os = ((Inr (), ?o), ex_os)"
    by (simp add: read_dirty_settings_def sysctl_calm(1) [OF _ ex_files(1)] sysctl_calm(1) [OF _ ex_files(2)]
        sysctl_calm(1) [OF _ ex_files(3)] delayed_def)
  have r2: "run_state enable_pagecache_delay ex_os = (Inr (), ?s2)"
    unfolding enable_pagecache_delay_def by (rule write_dirty_settings_calm) simp_all
  have r3: "run_state (write_dirty_settings ?o) ?s2 = (Inr (), ?s3)"
    by (rule write_dirty_settings_calm) (simp_all add: applied_at)
  note all = dirty_settings_restored [OF r1 r2 r3 ex_fit]
  have q: "''/proc/sys/vm/dirty_bytes'' \<in> bytes_files" by (simp add: bytes_files_def)
  have z: "numfiles ex_os ''/proc/sys/vm/dirty_bytes'' = Some 0" by (simp add: ex_os_def)
  have "numfiles ?s3 ''/proc/sys/vm/dirty_bytes'' = map_option (\<lambda>_. 0) (numfiles ex_os ''/proc/sys/vm/dirty_bytes'')"
    using conjunct2 [OF all] q by blast
  then have "numfiles ?s3 ''/proc/sys/vm/dirty_bytes'' = Some 0" unfolding z by simp
  moreover have "numfiles ?s2 RATIO_PATH = Some 90" by (simp add: applied_at delayed_def)
  ultimately show ?thesis using r1 r2 r3 conjunct1 [OF all] by blast
qed

end
