(* ===== verification/Poll_Clock.thy ===== *)
theory Poll_Clock
  imports Dirty_Settings
begin

text \<open>
  The two polling loops: \<^verbatim>\<open>release_app_services\<close> of \<^verbatim>\<open>storage.c\<close>, which opens the gates of the application
  services, and \<^verbatim>\<open>wait_mount_recovery_complete\<close> of \<^verbatim>\<open>hb_powerctl_demo.c\<close>.  Both ask the service manager every
  100 ms and give up after 60 s by a clock computation on unsigned 64-bit microseconds.  The loops are
  total functions: an iteration either uses up an entry of the environment's script or adds 100000
  to an elapsed time that is below the limit.
\<close>

subsection \<open>Elapsed time\<close>

record timespec =
  tv_sec :: int
  tv_nsec :: int

definition timespec_of :: "nat \<Rightarrow> timespec" where
  "timespec_of ns = \<lparr>tv_sec = int ns div 1000000000, tv_nsec = int ns mod 1000000000\<rparr>"

definition elapsed_usec :: "timespec \<Rightarrow> timespec \<Rightarrow> u64" where
  "elapsed_usec start_time now_time =
     (let elapsed = of_int (tv_sec now_time - tv_sec start_time) * 1000000
      in if tv_nsec start_time \<le> tv_nsec now_time
         then elapsed + of_int (tv_nsec now_time - tv_nsec start_time) div 1000
         else elapsed - 1000000 + of_int (1000000000 + tv_nsec now_time - tv_nsec start_time) div 1000)"

definition TIMEOUT_USEC :: u64 where
  "TIMEOUT_USEC = 60 * 1000000"

lemma of_int_div_1000:
  assumes "0 \<le> x" "x < 2 ^ 63"
  shows "(of_int x :: u64) div 1000 = of_int (x div 1000)"
proof -
  have "uint (of_int x :: u64) = x" "uint (of_int (x div 1000) :: u64) = x div 1000"
    using assms by (simp_all add: unsigned_of_int take_bit_int_eq_self)
  then show ?thesis
    by (simp add: word_uint_eq_iff uint_div)
qed

lemma elapsed_usec_int:
  "elapsed_usec (timespec_of a) (timespec_of b) = of_int ((int b - int a) div 1000)"
proof -
  define q r where "q = int a div 1000000000" and "r = int a mod 1000000000"
  define q' r' where "q' = int b div 1000000000" and "r' = int b mod 1000000000"
  have a: "int a = q * 1000000000 + r" "0 \<le> r" "r < 1000000000" by (simp_all add: q_def r_def)
  have b: "int b = q' * 1000000000 + r'" "0 \<le> r'" "r' < 1000000000" by (simp_all add: q'_def r'_def)
  show ?thesis
  proof (cases "r \<le> r'")
    case True
    have "(int b - int a) div 1000 = (q' - q) * 1000000 + (r' - r) div 1000"
      using a b by (simp add: algebra_simps)
    then show ?thesis
      using True a b of_int_div_1000 [of "r' - r"]
      by (simp add: elapsed_usec_def timespec_of_def Let_def flip: q_def r_def q'_def r'_def)
  next
    case False
    have "(int b - int a) div 1000 = (q' - q) * 1000000 - 1000000 + (1000000000 + r' - r) div 1000"
      using a b by (simp add: algebra_simps)
    then show ?thesis
      using False a b of_int_div_1000 [of "1000000000 + r' - r"]
      by (simp add: elapsed_usec_def timespec_of_def Let_def flip: q_def r_def q'_def r'_def)
  qed
qed

lemma elapsed_usec_step:
  "elapsed_usec (timespec_of a) (timespec_of (b + 100000 * 1000)) = elapsed_usec (timespec_of a) (timespec_of b) + 100000"
proof -
  have "(int (b + 100000 * 1000) - int a) div 1000 = (int b - int a) div 1000 + 100000"
    by (simp add: algebra_simps)
  then show ?thesis by (simp add: elapsed_usec_int)
qed

lemma elapsed_below_limit:
  assumes "(e :: u64) < TIMEOUT_USEC"
  shows "60000000 - unat (e + 100000) < 60000000 - unat e"
proof -
  have e: "unat e < 60000000" using assms by (simp add: TIMEOUT_USEC_def word_less_nat_alt)
  then have "unat (e + 100000) = unat e + 100000"
    by (simp add: unat_word_ariths)
  with e show ?thesis by simp
qed

text \<open>
  C20 (the timeout is the time that passed).  As long as less than \<open>2\<^sup>64\<close> microseconds have passed, the
  unsigned computation of both polling loops, borrow included, yields the whole microseconds between
  the two readings of the clock, and the limit is reached exactly when 60 seconds have passed.
\<close>

theorem elapsed_usec_exact:
  assumes "a \<le> b" and "(b - a) div 1000 < 2 ^ 64"
  shows "unat (elapsed_usec (timespec_of a) (timespec_of b)) = (b - a) div 1000 \<and>
    (TIMEOUT_USEC \<le> elapsed_usec (timespec_of a) (timespec_of b) \<longleftrightarrow> 60 * 1000000000 \<le> b - a)"
proof -
  have "(int b - int a) div 1000 = int ((b - a) div 1000)"
    using assms(1) by (simp add: of_nat_diff zdiv_int)
  then have "elapsed_usec (timespec_of a) (timespec_of b) = of_nat ((b - a) div 1000)"
    by (simp add: elapsed_usec_int)
  then have u: "unat (elapsed_usec (timespec_of a) (timespec_of b)) = (b - a) div 1000"
    using assms(2) by (simp add: unsigned_of_nat take_bit_nat_eq_self)
  then show ?thesis
    by (simp add: TIMEOUT_USEC_def word_le_nat_alt) linarith
qed

theorem elapsed_usec_exact_witness:
  "unat (elapsed_usec (timespec_of 1900000000) (timespec_of 62100000999)) = 60200000"
  using elapsed_usec_exact [of 1900000000 62100000999] by simp

subsection \<open>Releasing the applications\<close>

definition app_services :: "string list" where
  "app_services = [''sensor_center.service'', ''video_functions.service'']"

definition get_unit_active_state :: "string \<Rightarrow> (os, errno + string) state" where
  "get_unit_active_state u = do {
     called \<leftarrow> sys_ok;
     case called of
       Inl e \<Rightarrow> ret (Inl e)
     | Inr _ \<Rightarrow> do {
         parsed \<leftarrow> sys_ok;
         case parsed of
           Inl e \<Rightarrow> ret (Inl e)
         | Inr _ \<Rightarrow> bus_unit_property u ''ActiveState''
       }
   }"

text \<open>One round over the services with their \<^verbatim>\<open>completed\<close> flags; a failing \<^verbatim>\<open>KillUnit\<close> ends the function.\<close>

fun release_pass :: "(string \<times> bool) list \<Rightarrow> (os, errno + (string \<times> bool) list) state" where
  "release_pass [] = ret (Inr [])"
| "release_pass ((u, completed) # us) = do {
     me \<leftarrow>
       (if completed then ret (Inr True)
        else do {
          st \<leftarrow> get_unit_active_state u;
          case st of
            Inl e \<Rightarrow> ret (Inr False)
          | Inr active_state \<Rightarrow>
              if active_state = ''failed'' \<or> active_state = ''inactive'' then ret (Inr True)
              else if active_state = ''active''
              then do {
                k \<leftarrow> bus_kill_unit u;
                case k of Inl e \<Rightarrow> ret (Inl e) | Inr _ \<Rightarrow> ret (Inr True)
              }
              else ret (Inr False)
        });
     case me of
       Inl e \<Rightarrow> ret (Inl e)
     | Inr c \<Rightarrow> do {
         rest \<leftarrow> release_pass us;
         case rest of
           Inl e \<Rightarrow> ret (Inl e)
         | Inr cs \<Rightarrow> ret (Inr ((u, c) # cs))
       }
   }"

context os_frame
begin

lemma keeps_get_unit_active_state: "keeps R (get_unit_active_state u)"
  unfolding get_unit_active_state_def by (intro keeps_intros keeps_queries)

lemma keeps_release_pass:
  assumes "\<And>u. keeps R (bus_kill_unit u)"
  shows "keeps R (release_pass cs)"
proof (induction cs rule: release_pass.induct)
  case (2 u completed us)
  then show ?case
    unfolding release_pass.simps by (intro keeps_intros keeps_get_unit_active_state assms)
qed (simp add: keeps_ret)

end

text \<open>What every query does to script and clock.\<close>

definition spends :: "os \<Rightarrow> os \<Rightarrow> bool" where
  "spends s t \<longleftrightarrow> length (env t) \<le> length (env s) \<and> (env s = [] \<longrightarrow> now t = now s)"

interpretation sp: os_io spends
  by unfold_locales (auto simp: spends_def tick_def split: list.split reply.split)

lemma sp_bus_kill_unit: "keeps spends (bus_kill_unit u)"
  unfolding bus_kill_unit_def by (rule sp.keeps_fallible) (simp add: spends_def)

lemmas sp_release_pass = sp.keeps_release_pass [OF sp_bus_kill_unit]

lemma sys_usleep_run:
  assumes "run_state (sys_usleep us) s = (x, t)"
  shows "env s \<noteq> [] \<longrightarrow> length (env t) < length (env s)" "env s = [] \<longrightarrow> env t = [] \<and> now t = now s + us * 1000"
  using assms by (auto simp: sys_usleep_def syscall_def tick_def split: list.splits reply.splits)

lemma sys_clock_run: "run_state sys_clock s = (Inr n, t) \<Longrightarrow> n = now t"
  by (auto simp: sys_clock_def dest!: syscall_InrD)

lemma poll_decreases:
  assumes "spends s s2" and "run_state (sys_usleep 100000) s2 = (x, s3)"
    and "\<not> TIMEOUT_USEC \<le> elapsed_usec (timespec_of a) (timespec_of (now s2))"
  shows "length (env s3) < length (env s) \<or> length (env s3) = length (env s) \<and>
    60000000 - unat (elapsed_usec (timespec_of a) (timespec_of (now s3))) <
    60000000 - unat (elapsed_usec (timespec_of a) (timespec_of (now s)))"
proof (cases "env s = []")
  case True
  then have "env s2 = []" "now s2 = now s" using assms(1) by (auto simp: spends_def)
  then show ?thesis
    using sys_usleep_run [OF assms(2)] assms(3) True elapsed_usec_step [of a "now s"]
      elapsed_below_limit [of "elapsed_usec (timespec_of a) (timespec_of (now s))"] by auto
next
  case False
  then show ?thesis
    using sys_usleep_run [OF assms(2)] assms(1) by (cases "env s2 = []") (auto simp: spends_def)
qed

function release_loop :: "nat \<Rightarrow> (string \<times> bool) list \<Rightarrow> os \<Rightarrow> (errno + unit) \<times> os" where
  "release_loop start cs s =
     (case run_state (release_pass cs) s of
        (Inl e, s1) \<Rightarrow> (Inl e, s1)
      | (Inr cs', s1) \<Rightarrow>
          if list_all snd cs' then (Inr (), s1)
          else (case run_state sys_clock s1 of
                  (Inl e, s2) \<Rightarrow> (Inl e, s2)
                | (Inr n, s2) \<Rightarrow>
                    if TIMEOUT_USEC \<le> elapsed_usec (timespec_of start) (timespec_of n) then (Inr (), s2)
                    else (case run_state (sys_usleep 100000) s2 of (x, s3) \<Rightarrow> release_loop start cs' s3)))"
  by auto
termination
proof (relation "measures [\<lambda>(start, cs, s). length (env s),
    \<lambda>(start, cs, s). 60000000 - unat (elapsed_usec (timespec_of start) (timespec_of (now s)))]", goal_cases)
  case 1
  show ?case by simp
next
  case (2 start cs s x1 s1 cs' x2 s2 n x3 s3)
  then have "spends s s2"
    using sp.frame_trans keepsD [OF sp_release_pass, of cs s] keepsD [OF sp.keeps_queries(12), of s1] by metis
  then show ?case
    using 2 poll_decreases [of s s2 x3 s3 start] sys_clock_run [of s1 n s2] by auto
qed

definition release_app_services :: "(os, errno + unit) state" where
  "release_app_services = do {
     bus \<leftarrow> sys_ok;
     case bus of
       Inl e \<Rightarrow> ret (Inl e)
     | Inr _ \<Rightarrow> do {
         c \<leftarrow> sys_clock;
         case c of
           Inl e \<Rightarrow> ret (Inl e)
         | Inr start \<Rightarrow> State (release_loop start (map (\<lambda>u. (u, False)) app_services))
       }
   }"

declare release_loop.simps [simp del]

subsection \<open>Waiting for the recovery to finish\<close>

definition APP_PARAM_MOUNT_SERVICE :: string where
  "APP_PARAM_MOUNT_SERVICE = ''app_param-mount.service''"

definition get_unit_substate :: "string \<Rightarrow> (os, errno + string) state" where
  "get_unit_substate u = do {
     called \<leftarrow> sys_ok;
     case called of
       Inl e \<Rightarrow> ret (Inl e)
     | Inr _ \<Rightarrow> do {
         parsed \<leftarrow> sys_ok;
         case parsed of
           Inl e \<Rightarrow> ret (Inl e)
         | Inr _ \<Rightarrow> bus_unit_property u ''SubState''
       }
   }"

definition waitable :: "string \<Rightarrow> bool" where
  "waitable substate \<longleftrightarrow> substate \<in> {''start-pre'', ''start'', ''start-post'', ''running''}"

context os_frame
begin

lemma keeps_get_unit_substate: "keeps R (get_unit_substate u)"
  unfolding get_unit_substate_def by (intro keeps_intros keeps_queries)

end

function wait_loop :: "nat \<Rightarrow> os \<Rightarrow> (errno + unit) \<times> os" where
  "wait_loop start s =
     (case run_state (get_unit_substate APP_PARAM_MOUNT_SERVICE) s of
        (Inl e, s1) \<Rightarrow> (Inl e, s1)
      | (Inr substate, s1) \<Rightarrow>
          if substate = ''exited'' then (Inr (), s1)
          else if \<not> waitable substate then (Inl EIO, s1)
          else (case run_state sys_clock s1 of
                  (Inl e, s2) \<Rightarrow> (Inl e, s2)
                | (Inr n, s2) \<Rightarrow>
                    if TIMEOUT_USEC \<le> elapsed_usec (timespec_of start) (timespec_of n) then (Inl ETIMEDOUT, s2)
                    else (case run_state (sys_usleep 100000) s2 of (x, s3) \<Rightarrow> wait_loop start s3)))"
  by auto
termination
proof (relation "measures [\<lambda>(start, s). length (env s),
    \<lambda>(start, s). 60000000 - unat (elapsed_usec (timespec_of start) (timespec_of (now s)))]", goal_cases)
  case 1
  show ?case by simp
next
  case (2 start s x1 s1 substate x2 s2 n x3 s3)
  then have "spends s s2"
    using sp.frame_trans keepsD [OF sp.keeps_get_unit_substate, of _ s] keepsD [OF sp.keeps_queries(12), of s1] by metis
  then show ?case
    using 2 poll_decreases [of s s2 x3 s3 start] sys_clock_run [of s1 n s2] by auto
qed

definition wait_mount_recovery_complete :: "(os, errno + unit) state" where
  "wait_mount_recovery_complete = do {
     bus \<leftarrow> sys_ok;
     case bus of
       Inl e \<Rightarrow> ret (Inl e)
     | Inr _ \<Rightarrow> do {
         c \<leftarrow> sys_clock;
         case c of
           Inl e \<Rightarrow> ret (Inl e)
         | Inr start \<Rightarrow> State (wait_loop start)
       }
   }"

declare wait_loop.simps [simp del]

subsection \<open>What the loops leave alone\<close>

text \<open>A frame that signals and sleeping respect is respected by the loops.\<close>

locale os_poll = os_frame R for R :: "os \<Rightarrow> os \<Rightarrow> bool" +
  assumes kill_frame: "keeps R (bus_kill_unit u)"
    and usleep_frame: "keeps R (sys_usleep us)"
begin

lemma release_loop_frame: "R s (snd (release_loop start cs s))"
proof (induction start cs s rule: release_loop.induct)
  case (1 start cs s)
  obtain r1 s1 where r1: "run_state (release_pass cs) s = (r1, s1)" by (cases "run_state (release_pass cs) s")
  obtain r2 s2 where r2: "run_state sys_clock s1 = (r2, s2)" by (cases "run_state sys_clock s1")
  obtain r3 s3 where r3: "run_state (sys_usleep 100000) s2 = (r3, s3)" by (cases "run_state (sys_usleep 100000) s2")
  have c: "R s s1" "R s s2" "R s s3"
    using keepsD [OF keeps_release_pass [OF kill_frame] r1] keepsD [OF keeps_queries(12) r2] keepsD [OF usleep_frame r3]
    by (blast intro: frame_trans)+
  show ?case
    using 1 c by (subst release_loop.simps) (auto simp: r1 r2 r3 split: sum.split intro: frame_trans)
qed

lemma keeps_release_app_services: "keeps R release_app_services"
  unfolding release_app_services_def
  by (intro keeps_intros keeps_queries) (simp add: keeps_def release_loop_frame)

lemma wait_loop_frame: "R s (snd (wait_loop start s))"
proof (induction start s rule: wait_loop.induct)
  case (1 start s)
  let ?q = "get_unit_substate APP_PARAM_MOUNT_SERVICE"
  obtain r1 s1 where r1: "run_state ?q s = (r1, s1)" by (cases "run_state ?q s")
  obtain r2 s2 where r2: "run_state sys_clock s1 = (r2, s2)" by (cases "run_state sys_clock s1")
  obtain r3 s3 where r3: "run_state (sys_usleep 100000) s2 = (r3, s3)" by (cases "run_state (sys_usleep 100000) s2")
  have c: "R s s1" "R s s2" "R s s3"
    using keepsD [OF keeps_get_unit_substate r1] keepsD [OF keeps_queries(12) r2] keepsD [OF usleep_frame r3]
    by (blast intro: frame_trans)+
  show ?case
    using 1 c by (subst wait_loop.simps) (auto simp: r1 r2 r3 split: sum.split intro: frame_trans)
qed

lemma keeps_wait_mount_recovery_complete: "keeps R wait_mount_recovery_complete"
  unfolding wait_mount_recovery_complete_def
  by (intro keeps_intros keeps_queries) (simp add: keeps_def wait_loop_frame)

end

lemma calmly_usleep: "keeps (calmly W) (sys_usleep us)"
  unfolding sys_usleep_def
  by (rule cm.keeps_syscall)
    (auto simp: calmly_def world_like wf_os_def in_disk_def region_def stable_region_def fd_frame_same intro: exI [of _ 0])

interpretation cmp: os_poll "calmly W" for W
  by unfold_locales (rule keeps_services(2) calmly_usleep)+

lemmas calmly_release_app_services = cmp.keeps_release_app_services
lemmas calmly_wait_mount_recovery_complete = cmp.keeps_wait_mount_recovery_complete

text \<open>The pseudo files and the readiness of the service are left alone as well.\<close>

definition same_files :: "os \<Rightarrow> os \<Rightarrow> bool" where
  "same_files s t \<longleftrightarrow> numfiles t = numfiles s \<and> ready t = ready s"

interpretation sfp: os_poll same_files
proof
  show "same_files s s" "same_files s (snd (tick s))" for s by (simp_all add: same_files_def)
  show "same_files s u" if "same_files s t" "same_files t u" for s t u using that by (simp add: same_files_def)
  have fr: "os_frame same_files" by unfold_locales (simp_all add: same_files_def)
  show "keeps same_files (bus_kill_unit u)" for u
    unfolding bus_kill_unit_def by (rule os_frame.keeps_fallible [OF fr]) (simp add: same_files_def)
  show "keeps same_files (sys_usleep us)" for us
    unfolding sys_usleep_def by (rule os_frame.keeps_syscall [OF fr]) (simp add: same_files_def)
qed

subsection \<open>Each service is signalled at most once\<close>

definition no_signal :: "os \<Rightarrow> os \<Rightarrow> bool" where
  "no_signal s t \<longleftrightarrow> signalled t = signalled s \<and> ready t = ready s"

interpretation ns: os_io no_signal
  by unfold_locales (auto simp: no_signal_def)

lemma bus_kill_unit_signal:
  assumes "run_state (bus_kill_unit u) s = (r, t)"
  shows "signalled t = signalled s @ (case r of Inl _ \<Rightarrow> [] | Inr _ \<Rightarrow> [u])"
proof -
  obtain x s1 where tick: "tick s = (x, s1)" by (cases "tick s")
  then have "signalled s1 = signalled s" using tick_fields(7) [of s] by simp
  then show ?thesis
    using assms tick by (auto simp: bus_kill_unit_def sys_defs split: reply.splits)
qed

text \<open>
  What a round may have signalled: services that were pending before it, each once, and, if the round
  ended normally, recorded as completed.
\<close>

definition pass_ok :: "(string \<times> bool) list \<Rightarrow> errno + (string \<times> bool) list \<Rightarrow> string list \<Rightarrow> bool" where
  "pass_ok cs r xs \<longleftrightarrow> distinct xs \<and> set xs \<subseteq> {u. (u, False) \<in> set cs} \<and>
     (\<forall>cs'. r = Inr cs' \<longrightarrow> map fst cs' = map fst cs \<and>
        {u. (u, False) \<in> set cs'} \<subseteq> {u. (u, False) \<in> set cs} - set xs)"

lemma pass_ok_Cons:
  assumes "pass_ok us q ys" and "\<And>b. (u, b) \<notin> set us" and "r = (case q of Inl e \<Rightarrow> Inl e | Inr cs \<Rightarrow> Inr ((u, c) # cs))"
  shows "completed \<longrightarrow> c \<Longrightarrow> pass_ok ((u, completed) # us) r ys"
    and "\<not> completed \<Longrightarrow> c \<Longrightarrow> pass_ok ((u, completed) # us) r (u # ys)"
proof -
  note p = assms(1) [unfolded pass_ok_def]
  have u: "u \<notin> set ys" using p assms(2) by blast
  show "pass_ok ((u, completed) # us) r ys" if "completed \<longrightarrow> c"
    using p assms(2) that unfolding pass_ok_def assms(3) by (cases q) (simp, blast, simp, blast)
  show "pass_ok ((u, completed) # us) r (u # ys)" if "\<not> completed" c
    using p u assms(2) that unfolding pass_ok_def assms(3) by (cases q) (simp, blast, simp, blast)
qed

lemma release_pass_signals:
  assumes "run_state (release_pass cs) s = (r, t)" and "distinct (map fst cs)"
  shows "\<exists>xs. signalled t = signalled s @ xs \<and> pass_ok cs r xs"
  using assms
proof (induction cs arbitrary: s r t rule: release_pass.induct)
  case 1
  then show ?case by (auto simp: pass_ok_def)
next
  case (2 u completed us)
  let ?me = "if completed then ret (Inr True) else do {
          st \<leftarrow> get_unit_active_state u;
          case st of
            Inl e \<Rightarrow> ret (Inr False)
          | Inr active_state \<Rightarrow>
              if active_state = ''failed'' \<or> active_state = ''inactive'' then ret (Inr True)
              else if active_state = ''active''
              then do {
                k \<leftarrow> bus_kill_unit u;
                case k of Inl e \<Rightarrow> ret (Inl e) | Inr _ \<Rightarrow> ret (Inr True)
              }
              else ret (Inr False)
        }"
  obtain m s1 where m: "run_state ?me s = (m, s1)" by (cases "run_state ?me s")
  have own: "signalled s1 = signalled s \<and> (completed \<longrightarrow> m = Inr True) \<or>
      signalled s1 = signalled s @ [u] \<and> \<not> completed \<and> m = Inr True"
  proof (cases completed)
    case False
    obtain q s0 where q: "run_state (get_unit_active_state u) s = (q, s0)"
      by (cases "run_state (get_unit_active_state u) s")
    have "signalled s0 = signalled s" using keepsD [OF ns.keeps_get_unit_active_state q] by (simp add: no_signal_def)
    moreover obtain k sk where k: "run_state (bus_kill_unit u) s0 = (k, sk)"
      by (cases "run_state (bus_kill_unit u) s0")
    ultimately show ?thesis
      using m q False bus_kill_unit_signal [OF k] by (auto split: sum.splits if_splits)
  qed (use m in simp)
  show ?case
  proof (cases m)
    case (Inl e)
    then have "r = Inl e \<and> t = s1" using 2(2) m by simp
    then show ?thesis using own Inl by (auto simp: pass_ok_def)
  next
    case (Inr c)
    obtain q s2 where q: "run_state (release_pass us) s1 = (q, s2)" by (cases "run_state (release_pass us) s1")
    then obtain ys where ys: "signalled s2 = signalled s1 @ ys" "pass_ok us q ys"
      using 2(1) [OF q] 2(3) by auto
    have rt: "t = s2" "r = (case q of Inl e \<Rightarrow> Inl e | Inr cs \<Rightarrow> Inr ((u, c) # cs))"
      using 2(2) m q Inr by (auto split: sum.splits)
    have fresh: "(u, b) \<notin> set us" for b using 2(3) by force
    note p = pass_ok_Cons [OF ys(2) fresh rt(2)]
    from own consider "signalled s1 = signalled s" "completed \<longrightarrow> c" | "signalled s1 = signalled s @ [u]" "\<not> completed" c
      using Inr by auto
    then show ?thesis
    proof cases
      case 1
      then show ?thesis using ys(1) rt(1) p(1) by auto
    next
      case 2
      then have "signalled t = signalled s @ (u # ys)" using ys(1) rt(1) by simp
      then show ?thesis using p(2) [OF 2(2,3)] by blast
    qed
  qed
qed

lemma release_loop_signals:
  assumes "distinct (map fst cs)"
  shows "\<exists>xs. signalled (snd (release_loop start cs s)) = signalled s @ xs \<and> distinct xs \<and>
    set xs \<subseteq> {u. (u, False) \<in> set cs}"
  using assms
proof (induction start cs s rule: release_loop.induct)
  case (1 start cs s)
  obtain r1 s1 where r1: "run_state (release_pass cs) s = (r1, s1)" by (cases "run_state (release_pass cs) s")
  obtain r2 s2 where r2: "run_state sys_clock s1 = (r2, s2)" by (cases "run_state sys_clock s1")
  obtain r3 s3 where r3: "run_state (sys_usleep 100000) s2 = (r3, s3)" by (cases "run_state (sys_usleep 100000) s2")
  obtain xs where xs: "signalled s1 = signalled s @ xs" "pass_ok cs r1 xs"
    using release_pass_signals [OF r1 1(2)] by blast
  have s2: "signalled s2 = signalled s1"
    using keepsD [OF ns.keeps_queries(12) r2] by (simp add: no_signal_def)
  have s3: "signalled s3 = signalled s2"
  proof -
    obtain x s0 where tick: "tick s2 = (x, s0)" by (cases "tick s2")
    then have "signalled s0 = signalled s2" using tick_fields(7) [of s2] by simp
    then show ?thesis using r3 tick by (auto simp: sys_usleep_def sys_defs)
  qed
  show ?case
  proof (cases "\<exists>cs' n. r1 = Inr cs' \<and> \<not> list_all snd cs' \<and> r2 = Inr n \<and>
      \<not> TIMEOUT_USEC \<le> elapsed_usec (timespec_of start) (timespec_of n)")
    case True
    then obtain cs' n where c: "r1 = Inr cs'" "\<not> list_all snd cs'" "r2 = Inr n"
      "\<not> TIMEOUT_USEC \<le> elapsed_usec (timespec_of start) (timespec_of n)" by blast
    have "distinct (map fst cs')" using xs(2) c(1) 1(2) by (simp add: pass_ok_def)
    then obtain ys where "signalled (snd (release_loop start cs' s3)) = signalled s3 @ ys" "distinct ys"
      "set ys \<subseteq> {u. (u, False) \<in> set cs'}"
      using 1(1) [OF r1 [symmetric] c(1) c(2) r2 [symmetric] c(3,4) r3 [symmetric]] by blast
    moreover have "release_loop start cs s = release_loop start cs' s3"
      by (subst release_loop.simps) (simp add: r1 r2 r3 c)
    ultimately show ?thesis
      using xs c(1) s2 s3 by (intro exI [of _ "xs @ ys"]) (auto simp: pass_ok_def)
  next
    case False
    then have "signalled (snd (release_loop start cs s)) = signalled s1"
      by (subst release_loop.simps) (auto simp: r1 r2 s2 split: sum.split)
    then show ?thesis using xs by (auto simp: pass_ok_def)
  qed
qed

text \<open>
  C21 (no application is released twice).  Whatever the service manager answers, however often the loop
  polls and however it ends, releasing the applications adds to the signals sent only names of the two
  application services, each at most once.
\<close>

theorem release_at_most_once:
  "\<exists>xs. signalled (snd (run_state release_app_services s)) = signalled s @ xs \<and> distinct xs \<and>
     set xs \<subseteq> set app_services"
proof -
  obtain r1 s1 where r1: "run_state sys_ok s = (r1, s1)" by (cases "run_state sys_ok s")
  obtain r2 s2 where r2: "run_state sys_clock s1 = (r2, s2)" by (cases "run_state sys_clock s1")
  have "signalled s2 = signalled s" "signalled s1 = signalled s"
    using keepsD [OF ns.keeps_queries(12) r2] keepsD [OF ns.keeps_queries(9) r1] by (simp_all add: no_signal_def)
  then show ?thesis
    using release_loop_signals [of "map (\<lambda>u. (u, False)) app_services" _ s2]
    by (force simp: release_app_services_def r1 r2 app_services_def split: sum.split)
qed

end
