(* ===== verification/Recovery.thy ===== *)
theory Recovery
  imports Storage Poll_Clock
begin

text \<open>
  The three top-level operations of \<^verbatim>\<open>storage.c\<close>: \<^verbatim>\<open>mount_partition\<close> picks the first of two devices whose
  contents match their descriptor and mounts it, \<^verbatim>\<open>recover_app_param\<close> brings the other device to the same
  contents and releases the applications, and \<^verbatim>\<open>umount_partition\<close> closes the file system's write gate,
  seals the active device and copies it over its peer.  The static \<^verbatim>\<open>original\<close> is an argument and, where it
  is assigned, a result.  Mount flags and options are fixed strings the model does not interpret.
\<close>

subsection \<open>Definitions\<close>

record app_param_state =
  mounted_dev :: "string option"
  other_dev :: "string option"
  mounted_digest :: bytes

definition split_devices :: "string \<Rightarrow> (os, errno + string \<times> string) state" where
  "split_devices spec =
     (let first = takeWhile (\<lambda>c. c \<noteq> CHR '':'') spec; separator = drop (length first) spec
      in if separator = [] \<or> first = [] \<or> tl separator = [] then ret (Inl EINVAL)
         else do {
           a \<leftarrow> sys_ok;
           b \<leftarrow> sys_ok;
           ret (case (a, b) of (Inr _, Inr _) \<Rightarrow> Inr (first, tl separator) | _ \<Rightarrow> Inl ENOMEM)
         })"

text \<open>\<^verbatim>\<open>%u\<close> of \<^verbatim>\<open>snprintf\<close>, and \<^verbatim>\<open>major\<close> and \<^verbatim>\<open>minor\<close> of a device number as the C library splits it.\<close>

fun decimal :: "nat \<Rightarrow> string" where
  "decimal n = (if n < 10 then [char_of (48 + n)] else decimal (n div 10) @ [char_of (48 + n mod 10)])"

declare decimal.simps [simp del]

definition dev_major :: "u64 \<Rightarrow> u32" where
  "dev_major d = ucast (drop_bit 8 d AND 0xfff OR drop_bit 32 d AND NOT 0xfff)"

definition dev_minor :: "u64 \<Rightarrow> u32" where
  "dev_minor d = ucast (d AND 0xff OR drop_bit 12 d AND NOT 0xff)"

definition strrchr :: "string \<Rightarrow> char \<Rightarrow> nat option" where
  "strrchr s c = (if c \<in> set s then Some (length s - 1 - length (takeWhile (\<lambda>x. x \<noteq> c) (rev s))) else None)"

definition PATH_MAX :: nat where "PATH_MAX = 4096"

definition parent_path :: "string \<Rightarrow> errno + string" where
  "parent_path resolved =
     (case strrchr resolved CHR ''/'' of
        None \<Rightarrow> Inl EINVAL
      | Some slash \<Rightarrow>
          if slash = 0 then Inl EINVAL
          else (case strrchr (take slash resolved) CHR ''/'' of
                  None \<Rightarrow> Inl EINVAL
                | Some i \<Rightarrow>
                    (let parent_name = drop (i + 1) (take slash resolved); parent = ''/dev/'' @ parent_name
                     in if parent_name = [] then Inl EINVAL
                        else if PATH_MAX \<le> length parent then Inl ENAMETOOLONG
                        else Inr parent)))"

definition resolve_partition_source :: "string \<Rightarrow> (os, errno + string \<times> nat \<times> nat) state" where
  "resolve_partition_source part_dev = do {
     st \<leftarrow> sys_stat part_dev;
     case st of
       Inl e \<Rightarrow> ret (Inl e)
     | Inr buf \<Rightarrow>
         (case st_node buf of
            Blk p \<Rightarrow>
              (let d = of_nat (rdev p);
                   sys_path = ''/sys/dev/block/'' @ decimal (unat (dev_major d)) @ '':'' @ decimal (unat (dev_minor d));
                   start_path = sys_path @ ''/start''
               in if PATH_MAX \<le> length sys_path then ret (Inl EINVAL)
                  else do {
                    rp \<leftarrow> sys_realpath sys_path;
                    case rp of
                      Inl e \<Rightarrow> ret (Inl e)
                    | Inr resolved \<Rightarrow>
                        (case parent_path resolved of
                           Inl e \<Rightarrow> ret (Inl e)
                         | Inr parent \<Rightarrow>
                             if PATH_MAX \<le> length start_path then ret (Inl ENAMETOOLONG)
                             else do {
                               file \<leftarrow> sys_fopen start_path;
                               case file of
                                 Inl e \<Rightarrow> ret (Inl e)
                               | Inr _ \<Rightarrow> do {
                                   v \<leftarrow> sys_fscanf start_path;
                                   _ \<leftarrow> sys_ok;
                                   case v of
                                     Inl _ \<Rightarrow> ret (Inl EINVAL)
                                   | Inr start_sector \<Rightarrow> do {
                                       t \<leftarrow> open_target part_dev [O_RDONLY, O_CLOEXEC];
                                       case t of
                                         Inl e \<Rightarrow> ret (Inl e)
                                       | Inr target \<Rightarrow> do {
                                           _ \<leftarrow> close_target target;
                                           ret (if (2 ^ 64 - 1) div 512 < start_sector then Inl EOVERFLOW
                                                else Inr (parent, start_sector * 512, tsize target))
                                         }
                                     }
                                 }
                             })
                  })
          | _ \<Rightarrow> ret (Inl ENOTBLK))
   }"

text \<open>The candidate loop of \<^verbatim>\<open>mount_partition\<close>; the flag tells whether the exit goes through \<^verbatim>\<open>fail_unmount\<close>.\<close>

fun mount_candidates :: "(bytes \<Rightarrow> bytes) \<Rightarrow> string \<Rightarrow> app_param_state \<Rightarrow> (string \<times> string) list \<Rightarrow>
    (os, exit_code \<times> bool \<times> app_param_state) state" where
  "mount_candidates sha mountpoint st [] = ret (EXIT_METADATA_INVALID, False, st)"
| "mount_candidates sha mountpoint st ((candidate, other) # cs) = do {
     v \<leftarrow> powerctl_verify_path_digest sha candidate;
     case v of
       Inl _ \<Rightarrow> mount_candidates sha mountpoint st cs
     | Inr digest \<Rightarrow> do {
         m \<leftarrow> sys_mount candidate mountpoint;
         case m of
           Inl _ \<Rightarrow> mount_candidates sha mountpoint (st\<lparr>mounted_digest := digest\<rparr>) cs
         | Inr _ \<Rightarrow> do {
             a \<leftarrow> sys_ok;
             b \<leftarrow> sys_ok;
             case (a, b) of
               (Inr _, Inr _) \<Rightarrow> do {
                 n \<leftarrow> sd_notify_ready;
                 case n of
                   Inl _ \<Rightarrow> ret (EXIT_IO_ERROR, True, st\<lparr>mounted_dev := None, other_dev := None, mounted_digest := digest\<rparr>)
                 | Inr _ \<Rightarrow> ret (EXIT_OK, False, \<lparr>mounted_dev = Some candidate, other_dev = Some other, mounted_digest = digest\<rparr>)
               }
             | _ \<Rightarrow> ret (EXIT_NOMEM, True, st\<lparr>mounted_dev := None, other_dev := None, mounted_digest := digest\<rparr>)
           }
       }
   }"

definition mount_partition :: "(bytes \<Rightarrow> bytes) \<Rightarrow> app_param_state \<Rightarrow> dirty_settings \<Rightarrow> string \<Rightarrow> string \<Rightarrow>
    (os, exit_code \<times> app_param_state \<times> dirty_settings) state" where
  "mount_partition sha st original0 devices mountpoint = do {
     sp \<leftarrow> split_devices devices;
     case sp of
       Inl _ \<Rightarrow> ret (EXIT_UNSUPPORTED_LAYOUT, st, original0)
     | Inr (device_a, device_b) \<Rightarrow> do {
         (rd, original) \<leftarrow> read_dirty_settings original0;
         case rd of
           Inl _ \<Rightarrow> ret (EXIT_IO_ERROR, st, original)
         | Inr _ \<Rightarrow> do {
             en \<leftarrow> enable_pagecache_delay;
             case en of
               Inl _ \<Rightarrow> do { _ \<leftarrow> write_dirty_settings original; ret (EXIT_IO_ERROR, st, original) }
             | Inr _ \<Rightarrow> do {
                 mk \<leftarrow> sys_mkdir mountpoint;
                 if mk \<noteq> Inr () \<and> mk \<noteq> Inl EEXIST
                 then do { _ \<leftarrow> write_dirty_settings original; ret (EXIT_IO_ERROR, st, original) }
                 else do {
                   (result, unmount, st') \<leftarrow> mount_candidates sha mountpoint st [(device_a, device_b), (device_b, device_a)];
                   if result = EXIT_OK then ret (EXIT_OK, st', original)
                   else do {
                     _ \<leftarrow> (if unmount then sys_umount2 mountpoint else ret (Inr ()));
                     _ \<leftarrow> write_dirty_settings original;
                     ret (result, st', original)
                   }
                 }
               }
           }
       }
   }"

definition umount_partition :: "(bytes \<Rightarrow> bytes) \<Rightarrow> string \<Rightarrow> string \<Rightarrow> (os, exit_code) state" where
  "umount_partition sha devices mountpoint = do {
     sp \<leftarrow> split_devices devices;
     case sp of
       Inl _ \<Rightarrow> ret EXIT_UNSUPPORTED_LAYOUT
     | Inr (device_a, device_b) \<Rightarrow> do {
         ap \<leftarrow> resolve_active_peer mountpoint device_a device_b;
         case ap of
           Inl _ \<Rightarrow> ret EXIT_IO_ERROR
         | Inr (active, peer) \<Rightarrow> do {
             dw \<leftarrow> disable_vfat_write mountpoint;
             case dw of
               Inl _ \<Rightarrow> ret EXIT_IO_ERROR
             | Inr _ \<Rightarrow> do {
                 se \<leftarrow> powerctl_seal_block_device sha active;
                 case se of
                   Inl _ \<Rightarrow> ret EXIT_IO_ERROR
                 | Inr _ \<Rightarrow> do {
                     cp \<leftarrow> copy_block_device active peer;
                     ret (case cp of Inl _ \<Rightarrow> EXIT_IO_ERROR | Inr _ \<Rightarrow> EXIT_OK)
                   }
               }
           }
       }
   }"

text \<open>The part of \<^verbatim>\<open>recover_app_param\<close> before the label \<^verbatim>\<open>out_restore\<close>, in the two steps the source has.\<close>

definition recover_peer :: "(bytes \<Rightarrow> bytes) \<Rightarrow> string \<Rightarrow> string \<Rightarrow> bytes \<Rightarrow> (os, exit_code) state" where
  "recover_peer sha mounted other digest = do {
     v \<leftarrow> powerctl_verify_path_digest sha other;
     if v = Inr digest then ret EXIT_OK
     else do {
       rs \<leftarrow> resolve_partition_source mounted;
       case rs of
         Inl _ \<Rightarrow> ret EXIT_IO_ERROR
       | Inr (parent, source_offset, partition_size) \<Rightarrow> do {
           cp \<leftarrow> copy_block_range parent source_offset partition_size other;
           case cp of
             Inl _ \<Rightarrow> ret EXIT_IO_ERROR
           | Inr _ \<Rightarrow> do {
               v' \<leftarrow> powerctl_verify_path_digest sha other;
               ret (case v' of
                      Inl other_result \<Rightarrow> other_result
                    | Inr other_digest \<Rightarrow> if digest \<noteq> other_digest then EXIT_HASH_MISMATCH else EXIT_OK)
             }
         }
     }
   }"

definition recover_app_param :: "(bytes \<Rightarrow> bytes) \<Rightarrow> app_param_state \<Rightarrow> dirty_settings \<Rightarrow> (os, exit_code) state" where
  "recover_app_param sha st original =
     (case (mounted_dev st, other_dev st) of
        (Some mounted, Some other) \<Rightarrow> do {
          result0 \<leftarrow> recover_peer sha mounted other (mounted_digest st);
          result \<leftarrow>
            (if result0 \<noteq> EXIT_OK then ret result0
             else do {
               rel \<leftarrow> release_app_services;
               ret (case rel of Inl _ \<Rightarrow> EXIT_IO_ERROR | Inr _ \<Rightarrow> EXIT_OK)
             });
          w \<leftarrow> write_dirty_settings original;
          ret (case w of Inl _ \<Rightarrow> if result = EXIT_OK then EXIT_IO_ERROR else result | Inr _ \<Rightarrow> result)
        }
      | _ \<Rightarrow> ret EXIT_IO_ERROR)"

subsection \<open>Splitting the specification\<close>

lemma reads_split_devices: "keeps reads (split_devices spec)"
  unfolding split_devices_def Let_def
  by (intro rd.keeps_intros rd.keeps_queries)

lemma split_devices_run:
  assumes "run_state (split_devices spec) s = (Inr (a, b), s')"
  shows "spec = a @ '':'' @ b \<and> CHR '':'' \<notin> set a \<and> a \<noteq> [] \<and> b \<noteq> []"
proof -
  define first where "first = takeWhile (\<lambda>c. c \<noteq> CHR '':'') spec"
  define rest where "rest = dropWhile (\<lambda>c. c \<noteq> CHR '':'') spec"
  have r: "drop (length first) spec = rest"
    unfolding first_def rest_def by (metis append_eq_conv_conj takeWhile_dropWhile_id)
  have s: "spec = first @ rest" by (simp add: first_def rest_def)
  have "a = first" "b = tl rest" "rest \<noteq> []" "first \<noteq> []" "tl rest \<noteq> []"
    using assms by (auto simp: split_devices_def r simp flip: first_def split: if_splits prod.splits sum.splits)
  moreover have "hd rest = CHR '':''" if "rest \<noteq> []"
    using hd_dropWhile [of "\<lambda>c. c \<noteq> CHR '':''" spec] that by (simp add: rest_def)
  moreover have "CHR '':'' \<notin> set first"
    unfolding first_def by (metis set_takeWhileD)
  ultimately show ?thesis
    using s by (cases rest) auto
qed

lemma split_unique:
  assumes "a @ [c] @ b = a' @ [c] @ b'" and "c \<notin> set a" and "c \<notin> set a'"
  shows "a = a' \<and> b = b'"
  using assms
proof (induction a arbitrary: a')
  case Nil
  then show ?case by (cases a') auto
next
  case (Cons x xs)
  then show ?case by (cases a') auto
qed

subsection \<open>The recovery\<close>

lemma resolve_partition_source_reads:
  assumes "run_state (resolve_partition_source part_dev) s = (r, s')" and wf: "wf_os s"
  shows "reads s s'"
proof -
  let ?closing = "\<lambda>f. do { t \<leftarrow> open_target part_dev [O_RDONLY, O_CLOEXEC];
     case t of Inl e \<Rightarrow> ret (Inl e) | Inr target \<Rightarrow> do { _ \<leftarrow> close_target target; ret (f target) } }"
  define safe where "safe = (\<lambda>s t. wf_os s \<longrightarrow> reads s t)"
  have fr: "os_io safe"
    by unfold_locales
      (auto simp: safe_def rd.frame_refl rd.frame_tick rd.frame_setfl dest: reads_inv(1) intro: rd.frame_trans)
  note fi = os_frame.keeps_queries [OF os_io.axioms(1) [OF fr]]
    frame_relation.keeps_intros [OF os_frame.axioms(1) [OF os_io.axioms(1) [OF fr]]]
  have c: "keeps safe (?closing f)" for f :: "target \<Rightarrow> errno + string \<times> nat \<times> nat"
  proof (rule keepsI, unfold safe_def, rule impI)
    fix s r s'
    assume run: "run_state (?closing f) s = (r, s')" and wf: "wf_os s"
    obtain o1 s1 where r1: "run_state (open_target part_dev [O_RDONLY, O_CLOEXEC]) s = (o1, s1)"
      by (cases "run_state (open_target part_dev [O_RDONLY, O_CLOEXEC]) s")
    from r1 wf show "reads s s'"
    proof (cases rule: open_target_spec)
      case (ok t p)
      then show ?thesis
        using run close_target_spec [of t s1 _ s' "{}" p s] by (auto simp: r1 reads_def split: prod.splits)
    qed (use run in \<open>simp add: r1\<close>)
  qed
  have "keeps safe (resolve_partition_source part_dev)"
    unfolding resolve_partition_source_def Let_def
    by (intro fi c conjI impI allI | split node.split)+
  then show ?thesis using assms by (auto simp: safe_def dest: keepsD)
qed

lemma validate_descriptor_failure: "validate_descriptor raw n \<noteq> Inl EXIT_OK"
  by (simp add: validate_descriptor_def Let_def)

lemma read_descriptor_failure: "run_state (read_descriptor fd) s \<noteq> (Inl EXIT_OK, s')"
  by (auto simp: read_descriptor_def validate_descriptor_failure split: prod.splits sum.splits)

lemma verify_failure: "run_state (powerctl_verify_path_digest sha path) s \<noteq> (Inl EXIT_OK, s')"
  by (auto simp: powerctl_verify_path_digest_def read_descriptor_failure split: prod.splits sum.splits)

lemma recover_peer_spec:
  assumes run: "run_state (recover_peer sha mounted other digest) s = (r, s')" and wf: "wf_os s"
    and node: "nodes s other = Some (Blk pb)"
  shows "writes pb s s' \<and> (r = EXIT_OK \<longrightarrow> quiet s pb \<longrightarrow> attested (no_loss s) sha (region s' pb) digest)"
proof -
  let ?verify = "powerctl_verify_path_digest sha other"
  obtain v s1 where r1: "run_state ?verify s = (v, s1)" by (cases "run_state ?verify s")
  note v1 = verify_spec [OF r1 wf]
  note i1 = reads_inv [OF conjunct1 [OF v1] wf]
  have w1: "writes pb s s1" using v1 reads_writes by blast
  have pb: "in_disk s pb" using wf_node [OF wf node] .
  show ?thesis
  proof (cases "v = Inr digest")
    case True
    then have "r = EXIT_OK" "s' = s1" using run by (simp_all add: recover_peer_def r1)
    then show ?thesis using v1 True node w1 i1(11) [OF pb] by auto
  next
    case False
    obtain rs s2 where r2: "run_state (resolve_partition_source mounted) s1 = (rs, s2)"
      by (cases "run_state (resolve_partition_source mounted) s1")
    have rd2: "reads s s2" using rd.frame_trans [OF conjunct1 [OF v1] resolve_partition_source_reads [OF r2 i1(1)]] .
    note i2 = reads_inv [OF rd2 wf]
    show ?thesis
    proof (cases rs)
      case (Inl e)
      then have "r = EXIT_IO_ERROR" "s' = s2" using run False by (simp_all add: recover_peer_def r1 r2)
      then show ?thesis using rd2 reads_writes by simp
    next
      case (Inr x)
      obtain parent off sz where x: "x = (parent, off, sz)" by (cases x)
      let ?copy = "copy_block_range parent off sz other"
      obtain cp s3 where r3: "run_state ?copy s2 = (cp, s3)" by (cases "run_state ?copy s2")
      have w3: "writes pb s s3"
        using copy_block_range_spec [OF r3 i2(1), of pb] node i2(5) writes_trans [OF reads_writes [OF rd2]] by simp
      note i3 = writes_inv [OF w3 wf]
      show ?thesis
      proof (cases cp)
        case (Inl e)
        then have "r = EXIT_IO_ERROR" "s' = s3"
          using run False Inr x by (simp_all add: recover_peer_def r1 r2 r3)
        then show ?thesis using w3 by simp
      next
        case C: (Inr u)
        obtain v' s4 where r4: "run_state ?verify s3 = (v', s4)" by (cases "run_state ?verify s3")
        note v4 = verify_spec [OF r4 i3(1)]
        have ok: "v' \<noteq> Inl EXIT_OK" using verify_failure r4 by metis
        have s': "s' = s4" and r: "r = EXIT_OK \<Longrightarrow> v' = Inr digest"
          using run False Inr x C ok
          by (auto simp: recover_peer_def r1 r2 r3 r4 split: sum.splits if_splits)
        have "writes pb s s4" using writes_trans [OF w3 reads_writes] v4 by blast
        moreover have "attested (no_loss s) sha (region s4 pb) digest" if "r = EXIT_OK" "quiet s pb"
        proof -
          have "attested (no_loss s3) sha (region s3 pb) digest" using v4 r [OF that(1)] that(2) i3(3,5) node by auto
          moreover have "region s4 pb = region s3 pb" using reads_inv(11) [OF conjunct1 [OF v4] i3(1), of pb] that(2) i3(3,4) pb by simp
          ultimately show ?thesis using i3(10) by (auto intro: attested_mono)
        qed
        ultimately show ?thesis using s' by blast
      qed
    qed
  qed
qed

lemma ns_write_dirty_settings: "keeps no_signal (write_dirty_settings st)"
proof -
  have "keeps no_signal (sys_fclose_write path b)" for path b
    unfolding sys_fclose_write_def by (rule ns.keeps_fallible) (simp add: no_signal_def split: option.split)
  then show ?thesis
    unfolding write_dirty_settings_def write_sysctl_u32_def
    by (intro ns.keeps_intros ns.keeps_queries)
qed

lemma recover_app_param_spec:
  assumes run: "run_state (recover_app_param sha st original) s = (r, s')" and wf: "wf_os s"
    and other: "other_dev st = Some other" and node: "nodes s other = Some (Blk pb)"
  shows "calmly {pb} s s' \<and> ready s' = ready s \<and> (r = EXIT_OK \<longrightarrow> numfiles s' = applied original s) \<and>
    (r = EXIT_OK \<or> signalled s' \<noteq> signalled s \<longrightarrow> quiet s pb \<longrightarrow>
       attested (no_loss s) sha (region s' pb) (mounted_digest st))"
proof (cases "mounted_dev st")
  case None
  then show ?thesis using run other by (simp add: recover_app_param_def cm.frame_refl)
next
  case (Some mounted)
  let ?peer = "recover_peer sha mounted other (mounted_digest st)"
  let ?rel = "\<lambda>r0. if r0 \<noteq> EXIT_OK then ret r0 else do {
               rel \<leftarrow> release_app_services;
               ret (case rel of Inl _ \<Rightarrow> EXIT_IO_ERROR | Inr _ \<Rightarrow> EXIT_OK)
             }"
  obtain r0 s1 where r1: "run_state ?peer s = (r0, s1)" by (cases "run_state ?peer s")
  note p = recover_peer_spec [OF r1 wf node]
  obtain r2 s2 where r2: "run_state (?rel r0) s1 = (r2, s2)" by (cases "run_state (?rel r0) s1")
  obtain w s3 where r3: "run_state (write_dirty_settings original) s2 = (w, s3)"
    by (cases "run_state (write_dirty_settings original) s2")
  have s': "s' = s3" and r: "r = (case w of Inl _ \<Rightarrow> if r2 = EXIT_OK then EXIT_IO_ERROR else r2 | Inr _ \<Rightarrow> r2)"
    using run Some other by (simp_all add: recover_app_param_def r1 r2 r3)
  have "keeps (calmly {}) (?rel r0)"
    by (intro cm.keeps_intros calmly_release_app_services)
  then have "calmly {} s1 s2" using r2 by (rule keepsD)
  then have c2: "calmly {} s1 s3" using keepsD [OF keeps_sysctl(4) r3] by (rule calmly_trans)
  have c1: "calmly {pb} s s1" using writes_calmly [OF conjunct1 [OF p]] by simp
  have c: "calmly {pb} s s3" using calmly_trans [OF c1 calmly_mono [OF c2]] by simp
  note i1 = calmly_inv [OF c1 wf] and i = calmly_inv [OF c2]
  have rf: "same_files s1 s2"
    using r2 keepsD [of same_files "?rel r0" s1 r2 s2] by (auto intro: sfp.keeps_intros sfp.keeps_release_app_services)
  have rs: "no_signal s2 s3" using keepsD [OF ns_write_dirty_settings r3] .
  have "ready s3 = ready s" using rf rs writes_inv(11) [OF conjunct1 [OF p] wf] by (simp add: same_files_def no_signal_def)
  moreover have "attested (no_loss s) sha (region s3 pb) (mounted_digest st)" if "r0 = EXIT_OK" "quiet s pb"
    using p that i1(1,3,4) wf_node [OF wf node] i(10) [of pb] by simp
  moreover have "r0 = EXIT_OK" if "r = EXIT_OK"
    using that r r2 by (auto split: sum.splits if_splits)
  moreover have "r0 = EXIT_OK" if "signalled s3 \<noteq> signalled s"
  proof (rule ccontr)
    assume "r0 \<noteq> EXIT_OK"
    then have "s2 = s1" using r2 by simp
    moreover have "signalled s1 = signalled s" using p writes_inv(9) wf by blast
    moreover have "signalled s3 = signalled s2" using rs by (simp add: no_signal_def)
    ultimately show False using that by simp
  qed
  moreover have "numfiles s3 = applied original s" if "r = EXIT_OK"
  proof -
    have "numfiles s2 = numfiles s1" using rf by (simp add: same_files_def)
    moreover have "numfiles s1 = numfiles s" using p writes_inv(8) wf by blast
    ultimately show ?thesis
      using that r write_dirty_settings_files [OF r3] by (auto simp: applied_def split: sum.splits if_splits)
  qed
  ultimately show ?thesis using s' c by blast
qed

subsection \<open>The shutdown\<close>

text \<open>No other mount writes to the part: each is closed for good or lies elsewhere.\<close>

definition settled :: "os \<Rightarrow> string \<Rightarrow> part \<Rightarrow> bool" where
  "settled s mp p \<longleftrightarrow> (\<forall>(m, q) \<in> set (mounts s). m = mp \<or> shut s m \<or> apart p q)"

lemma settled_quiet:
  assumes "settled s mp p" and "gate_step mp s t" and "wf_os s" and "gate t mp" and "\<not> leaky s mp"
  shows "quiet t p"
proof -
  note i = gate_step_inv(3,8,9) [OF assms(2,3)]
  have "shut t m" if "m = mp \<or> shut s m" for m using that i(2) [of m] i(3) assms(4,5) by (cases "m = mp") (simp_all add: shut_def)
  then show ?thesis using assms(1) i(1) by (fastforce simp: settled_def quiet_def)
qed

lemma umount_partition_spec:
  assumes run: "run_state (umount_partition sha (a @ '':'' @ b) mp) s = (EXIT_OK, s')"
    and wf: "wf_os s" and colon: "CHR '':'' \<notin> set a"
    and na: "nodes s a = Some (Blk pa)" and nb: "nodes s b = Some (Blk pb)" and ap: "apart pa pb"
    and se: "settled s mp pa" "settled s mp pb" and lk: "\<not> leaky s mp"
  shows "gate s' mp \<and> (\<exists>d. attested (no_loss s) sha (region s' pa) d) \<and> region s' pb = region s' pa \<and>
    stable_region s' pa = region s' pa \<and> stable_region s' pb = region s' pb"
proof -
  define spec where "spec = a @ '':'' @ b"
  note run = run [folded spec_def]
  obtain x s1 where r1: "run_state (split_devices spec) s = (Inr x, s1)"
    using run by (auto simp: umount_partition_def split: prod.splits sum.splits)
  have rd1: "reads s s1" using keepsD [OF reads_split_devices r1] .
  note i1 = reads_inv [OF rd1 wf]
  obtain u v where x: "x = (u, v)" by (cases x)
  have uv: "a @ '':'' @ b = u @ '':'' @ v \<and> CHR '':'' \<notin> set u"
    using split_devices_run [OF r1 [unfolded x]] unfolding spec_def by blast
  have "a = u \<and> b = v"
    using split_unique [OF conjunct1 [OF uv] colon conjunct2 [OF uv]] .
  then have x: "x = (a, b)" using x by simp
  obtain y s2 where r2: "run_state (resolve_active_peer mp a b) s1 = (Inr y, s2)"
    using run x by (auto simp: umount_partition_def r1 split: prod.splits sum.splits)
  obtain act peer where y: "y = (act, peer)" by (cases y)
  note ra = resolve_active_peer_spec [OF r2 i1(1)]
  have rd2: "reads s s2" using rd.frame_trans [OF rd1 conjunct1 [OF ra]] .
  note i2 = reads_inv [OF rd2 wf]
  obtain s3 where r3: "run_state (disable_vfat_write mp) s2 = (Inr (), s3)"
    using run x y by (auto simp: umount_partition_def r1 r2 split: prod.splits sum.splits)
  note dw = disable_vfat_write_spec [OF r3 i2(1)]
  note i3 = gate_step_inv [OF conjunct1 [OF dw] i2(1)]
  obtain z s4 where r4: "run_state (powerctl_seal_block_device sha act) s3 = (Inr z, s4)"
    using run x y by (auto simp: umount_partition_def r1 r2 r3 split: prod.splits sum.splits)
  have r5: "run_state (copy_block_device act peer) s4 = (Inr (), s')"
    using run x y by (auto simp: umount_partition_def r1 r2 r3 r4 split: prod.splits sum.splits)
  have "\<exists>pp q. {pp, q} = {pa, pb} \<and> nodes s act = Some (Blk pp) \<and> nodes s peer = Some (Blk q)"
    using ra y na nb i1(5) by (auto simp: doubleton_eq_iff)
  then obtain pp q where pq: "{pp, q} = {pa, pb}" "nodes s act = Some (Blk pp)" "nodes s peer = Some (Blk q)" by blast
  have qt: "quiet s3 pa" "quiet s3 pb" "apart pp q"
    using settled_quiet [OF _ conjunct1 [OF dw] i2(1)] dw se i2(6,7,14) lk pq(1) ap apart_sym
    by (auto simp: settled_def shut_def doubleton_eq_iff)
  have qt': "quiet s3 pp" "quiet s3 q" using pq(1) qt(1,2) by (auto simp: doubleton_eq_iff)
  have n3: "nodes s3 = nodes s" "no_loss s \<Longrightarrow> no_loss s3" using i3(2,7) i2(5,10) by simp_all
  note se4 = seal_spec [OF r4 i3(1), of pp]
  have w4: "writes pp s3 s4" and s4: "attested (no_loss s3) sha (region s4 pp) (fst z)" "stable_region s4 pp = region s4 pp"
    using se4 pq(2) qt'(1) n3 by simp_all
  have at: "attested (no_loss s) sha (region s4 pp) (fst z)" using s4(1) n3(2) by (rule attested_mono)
  note i4 = writes_inv [OF w4 i3(1)]
  note c5 = copy_block_device_spec [OF r5 i4(1), of q pp]
  have w5: "writes q s4 s'" and s5: "stable_region s' q = region s' q" "region s' q = region s4 pp"
    using c5 pq(2,3) i4(3,5) n3 qt' qt(3) by simp_all
  have ind: "in_disk s4 pp" using wf_node [OF i4(1)] i4(5) n3 pq(2) by simp
  have keep: "region s' pp = region s4 pp" "stable_region s' pp = stable_region s4 pp"
    using w5 ind i4(1,3) qt' qt(3) by (auto simp: writes_def intro!: world_region world_stable_region)
  have "gate s' mp" using writes_inv(7) [OF w5 i4(1)] i4(7) dw by simp
  then show ?thesis
    using keep at s4(2) s5 pq(1) by (auto simp: doubleton_eq_iff)
qed

end
