(* ===== verification/Calm_Run.thy ===== *)
theory Calm_Run
  imports Recovery
begin

text \<open>
  What the operations of \<^verbatim>\<open>storage.c\<close> do when no call fails: they reach their end.  The safety theorems of
  \<open>Recovery\<close> speak about runs that return success; here such runs are shown to exist, so that a program that
  always failed would not satisfy the development.
\<close>

subsection \<open>Opening and closing\<close>

abbreviation bump :: "os \<Rightarrow> os" where
  "bump s \<equiv> s\<lparr>next_fd := Suc (next_fd s)\<rparr>"

lemma open_target_calm:
  assumes "env s = []" "nodes s path = Some (Blk p)" "\<not> bad_geometry (psize p) (lsz p)" "O_DIRECTORY \<notin> set flags"
    "O_EXCL \<in> set flags \<Longrightarrow> \<not> is_mounted s (rdev p) \<and> \<not> held_excl s (rdev p)"
  shows "run_state (open_target path flags) s =
    (Inr \<lparr>tfd = next_fd s, tsize = psize p, logical_size = lsz p\<rparr>, snd (open_fd path flags (Blk p) s))"
proof -
  have st: "run_state (sys_stat path) s = (Inr \<lparr>st_node = Blk p,
      st_dev = (case map_of (mounts s) path of Some p \<Rightarrow> rdev p | None \<Rightarrow> home_dev s path)\<rparr>, s)"
    using assms by (simp add: sys_stat_def calm)
  have op: "run_state (sys_open path flags) s = (Inr (next_fd s), snd (open_fd path flags (Blk p) s))"
    using assms by (auto simp: sys_open_def calm open_fd_def)
  let ?t = "snd (open_fd path flags (Blk p) s)"
  have t: "env ?t = []" "fds ?t (next_fd s) = Some \<lparr>fd_node = Blk p, fd_path = path, fd_rdwr = (O_RDWR \<in> set flags),
      fd_direct = (O_DIRECT \<in> set flags), fd_excl = (O_EXCL \<in> set flags)\<rparr>"
    using assms(1) by (simp_all add: open_fd_def)
  have "run_state (get_fd_size (next_fd s)) ?t = (Inr (psize p), ?t)"
    "run_state (sys_blksszget (next_fd s)) ?t = (Inr (lsz p), ?t)"
    using t by (simp_all add: get_fd_size_calm sys_blksszget_def with_fd_calm)
  then show ?thesis
    using assms(3) by (simp add: open_target_def st op)
qed

lemma close_target_calm:
  "env s = [] \<Longrightarrow> fds s (tfd t) \<noteq> None \<Longrightarrow> run_state (close_target t) s = ((), s\<lparr>fds := (fds s)(tfd t := None)\<rparr>)"
  by (auto simp: close_target_def sys_close_def calm)

lemma open_fd_fields [simp]:
  "env (snd (open_fd path flags nd s)) = env s" "disks (snd (open_fd path flags nd s)) = disks s"
  "stable (snd (open_fd path flags nd s)) = stable s" "mounts (snd (open_fd path flags nd s)) = mounts s"
  "gate (snd (open_fd path flags nd s)) = gate s" "nodes (snd (open_fd path flags nd s)) = nodes s"
  "next_fd (snd (open_fd path flags nd s)) = Suc (next_fd s)"
  "fds (snd (open_fd path flags nd s)) = (fds s)(next_fd s \<mapsto> \<lparr>fd_node = nd, fd_path = path,
     fd_rdwr = (O_RDWR \<in> set flags), fd_direct = (O_DIRECT \<in> set flags), fd_excl = (O_EXCL \<in> set flags)\<rparr>)"
  by (simp_all add: open_fd_def)

lemma wf_open_fd:
  "wf_os s \<Longrightarrow> nodes s path = Some (Blk p) \<Longrightarrow> wf_os (snd (open_fd path flags (Blk p) s))"
  by (auto simp: wf_os_def in_disk_def)

lemma region_open_fd [simp]: "region (snd (open_fd path flags nd s)) p = region s p"
  by (simp add: region_def)

subsection \<open>Verifying and sealing\<close>

text \<open>Geometry under which direct reads of the whole protected range are aligned.\<close>

definition plain :: "part \<Rightarrow> bool" where
  "plain p \<longleftrightarrow> \<not> bad_geometry (psize p) (lsz p) \<and> lsz p dvd 512 \<and> 512 dvd psize p"

lemma plain_protected: "plain p \<Longrightarrow> 4096 < psize p \<and> 512 dvd psize p - 4096 \<and> \<not> bad_geometry (psize p) (lsz p) \<and> lsz p dvd 512"
  by (auto simp: plain_def bad_geometry_def FOOTER_AREA_SIZE_def intro!: dvd_diff_nat)

lemma verify_calm:
  assumes "env s = []" "wf_os s" "nodes s path = Some (Blk p)" "plain p" "\<And>x. length (sha x) = 32"
  shows "run_state (powerctl_verify_path_digest sha path) s =
    (case stored_descriptor (region s p) of
       Inl e \<Rightarrow> Inl e
     | Inr d \<Rightarrow> if sha (bslice 0 (psize p - 4096) (region s p)) \<noteq> d then Inl EXIT_HASH_MISMATCH else Inr d, bump s)"
proof -
  note pl = plain_protected [OF assms(4)]
  let ?flags = "[O_RDONLY, O_CLOEXEC, O_DIRECT]"
  let ?t = "snd (open_fd path ?flags (Blk p) s)"
  let ?tg = "\<lparr>tfd = next_fd s, tsize = psize p, logical_size = lsz p\<rparr>"
  have op: "run_state (open_target path ?flags) s = (Inr ?tg, ?t)"
    using assms pl by (intro open_target_calm) auto
  have wt: "wf_os ?t" using wf_open_fd assms(2,3) .
  have nd: "fds ?t (next_fd s) = Some \<lparr>fd_node = Blk p, fd_path = path, fd_rdwr = False, fd_direct = True, fd_excl = False\<rparr>"
    by simp
  have rd: "run_state (read_descriptor (next_fd s)) ?t = (stored_descriptor (region s p), ?t)"
    using read_descriptor_calm [OF _ nd, of p] assms(1) pl wf_node [OF wt, of path p] assms(3) by simp
  have h: "run_state (hash_sha256_fd sha (next_fd s) (psize p - 4096)) ?t =
      (Inr (sha (bslice 0 (psize p - 4096) (region s p))), ?t)"
    using hash_sha256_fd_calm [OF _ nd, of p "psize p - 4096" sha] assms pl wt by simp
  have "fds s (next_fd s) = None" using assms(2) by (simp add: wf_os_def)
  then have cl: "run_state (close_target ?tg) ?t = ((), bump s)"
    using assms(1) by (subst close_target_calm) (auto simp: open_fd_def fun_upd_idem)
  show ?thesis
    using op rd h cl by (simp add: powerctl_verify_path_digest_def FOOTER_AREA_SIZE_def split: sum.split)
qed

lemma seal_calm:
  assumes "env s = []" "wf_os s" "nodes s path = Some (Blk p)" "plain p" "\<And>x. length (sha x) = 32"
  shows "\<exists>x s'. run_state (powerctl_seal_block_device sha path) s = (Inr x, s') \<and> fds s' = fds s \<and>
    next_fd s' = Suc (next_fd s)"
proof -
  note pl = plain_protected [OF assms(4)]
  let ?flags = "[O_RDWR, O_CLOEXEC, O_DIRECT]"
  let ?t = "snd (open_fd path ?flags (Blk p) s)"
  let ?tg = "\<lparr>tfd = next_fd s, tsize = psize p, logical_size = lsz p\<rparr>"
  let ?d = "sha (bslice 0 (psize p - 4096) (region s p))"
  let ?u = "fsynced p (write_disk p (psize p - 128) (make_descriptor (psize p - 4096) ?d) ?t)"
  have op: "run_state (open_target path ?flags) s = (Inr ?tg, ?t)"
    using assms pl by (intro open_target_calm) auto
  have wt: "wf_os ?t" using wf_open_fd assms(2,3) .
  have nd: "fds ?t (next_fd s) = Some \<lparr>fd_node = Blk p, fd_path = path, fd_rdwr = True, fd_direct = True, fd_excl = False\<rparr>"
    by simp
  have h: "run_state (hash_sha256_fd sha (next_fd s) (psize p - 4096)) ?t = (Inr ?d, ?t)"
    using hash_sha256_fd_calm [OF _ nd, of p "psize p - 4096" sha] assms pl wt by simp
  have w: "run_state (write_descriptor (next_fd s) ?d) ?t = (EXIT_OK, ?u)"
    using write_descriptor_calm [OF _ nd, of p ?d] assms pl by simp
  have u: "env ?u = []" "fds ?u = fds ?t" "next_fd ?u = next_fd ?t"
    using assms(1) by (simp_all add: fsynced_def)
  have "run_state (close_target ?tg) ?u = ((), ?u\<lparr>fds := (fds ?u)(next_fd s := None)\<rparr>)"
    using u by (subst close_target_calm) auto
  moreover have "fds s (next_fd s) = None" using assms(2) by (simp add: wf_os_def)
  ultimately show ?thesis
    using op h w u by (simp add: powerctl_seal_block_device_def FOOTER_AREA_SIZE_def fun_upd_idem)
qed

subsection \<open>Copying\<close>

lemma copy_loop_calm:
  assumes "env s = []" "in_disk s p" "in_disk s q" "fds s src = Some fs" "fd_node fs = Blk q"
    "fds s dst = Some fd" "fd_node fd = Blk p" "fd_rdwr fd" "lsz q dvd 512" "lsz p dvd 512" "512 dvd off" "512 dvd so"
    "512 dvd len" "len \<le> psize p" "so + len \<le> psize q"
  shows "\<exists>s'. run_state (copy_loop src dst so len off) s = (Inr (), s') \<and> env s' = [] \<and> fds s' = fds s \<and>
    next_fd s' = next_fd s"
  using assms
proof (induction src dst so len off arbitrary: s rule: copy_loop.induct)
  case (1 src dst so len off)
  show ?case
  proof (cases "off < len")
    case False
    then show ?thesis using "1.prems"(1) by (subst copy_loop.simps) simp
  next
    case True
    define n where "n = (if len - off < buffer_size then len - off else buffer_size)"
    have n: "0 < n" "off + n \<le> len" "512 dvd n"
      using True "1.prems"(11,13) by (auto simp: n_def buffer_size_def)
    define bs where "bs = bslice (so + off) n (region s q)"
    have al: "lsz q dvd n" "lsz q dvd so + off" "lsz p dvd n" "lsz p dvd off"
      using "1.prems"(9-12) n(3) dvd_trans by (auto intro: dvd_add)
    have bs: "length bs = n" using length_region [OF "1.prems"(3)] n "1.prems"(15) by (simp add: bs_def)
    have rd: "run_state (pread_full src n (so + off)) s = (Inr bs, s)"
      unfolding bs_def using "1.prems" n al
      by (intro pread_full_calm) (auto simp: misaligned_def)
    let ?s1 = "write_disk p off bs s"
    have wr: "run_state (pwrite_full dst bs off) s = (Inr (), ?s1)"
      using "1.prems" n al bs by (intro pwrite_full_calm) (auto simp: misaligned_def)
    have ind: "in_disk ?s1 p" "in_disk ?s1 q"
      using "1.prems"(2,3,14) n bs by (auto simp: in_disk_def write_disk_def)
    have "512 dvd off + n" using n(3) "1.prems"(11) by simp
    then have "\<exists>s'. run_state (copy_loop src dst so len (off + n)) ?s1 = (Inr (), s') \<and> env s' = [] \<and>
        fds s' = fds ?s1 \<and> next_fd s' = next_fd ?s1"
      using "1.prems" ind by (intro "1.IH" [OF True n_def]) simp_all
    then show ?thesis
      using True rd wr by (subst copy_loop.simps) (auto simp flip: n_def)
  qed
qed

lemma copy_block_device_calm:
  assumes env: "env s = []" and wf: "wf_os s" and src: "nodes s source = Some (Blk q)" and dest: "nodes s dest = Some (Blk p)"
    and pl: "plain p" "plain q" and sz: "psize p = psize q" and free: "\<not> is_mounted s (rdev p)" "\<not> held_excl s (rdev p)"
    and ne: "source \<noteq> dest"
  shows "\<exists>s'. run_state (copy_block_device source dest) s = (Inr (), s')"
proof -
  let ?f1 = "[O_RDONLY, O_CLOEXEC, O_DIRECT]" and ?f2 = "[O_RDWR, O_CLOEXEC, O_DIRECT, O_EXCL]"
  let ?s1 = "snd (open_fd source ?f1 (Blk q) s)"
  let ?s2 = "snd (open_fd dest ?f2 (Blk p) ?s1)"
  let ?t1 = "\<lparr>tfd = next_fd s, tsize = psize q, logical_size = lsz q\<rparr>"
  let ?t2 = "\<lparr>tfd = Suc (next_fd s), tsize = psize p, logical_size = lsz p\<rparr>"
  note pp = plain_protected [OF pl(1)] and pq = plain_protected [OF pl(2)]
  have o1: "run_state (open_target source ?f1) s = (Inr ?t1, ?s1)"
    using env src pq by (intro open_target_calm) auto
  have "\<not> held_excl ?s1 (rdev p)" "\<not> is_mounted ?s1 (rdev p)"
    using free by (auto simp: held_excl_def is_mounted_def less_Suc_eq)
  then have o2: "run_state (open_target dest ?f2) ?s1 = (Inr ?t2, ?s2)"
    using open_target_calm [of ?s1 dest p ?f2] env dest pp by simp
  have ind: "in_disk ?s2 p" "in_disk ?s2 q"
    using wf_node [OF wf src] wf_node [OF wf dest] by (simp_all add: in_disk_def)
  have nd: "fds ?s2 (next_fd s) = Some \<lparr>fd_node = Blk q, fd_path = source, fd_rdwr = False, fd_direct = True, fd_excl = False\<rparr>"
    "fds ?s2 (Suc (next_fd s)) = Some \<lparr>fd_node = Blk p, fd_path = dest, fd_rdwr = True, fd_direct = True, fd_excl = True\<rparr>"
    by simp_all
  have "\<exists>s'. run_state (copy_loop (next_fd s) (Suc (next_fd s)) 0 (psize p) 0) ?s2 = (Inr (), s') \<and> env s' = [] \<and>
      fds s' = fds ?s2 \<and> next_fd s' = next_fd ?s2"
    by (rule copy_loop_calm [OF _ ind nd(1) _ nd(2)]) (use env pp pq sz pl in \<open>simp_all add: plain_def\<close>)
  then obtain s3 where c: "run_state (copy_loop (next_fd s) (Suc (next_fd s)) 0 (psize p) 0) ?s2 = (Inr (), s3)"
    and s3: "env s3 = []" "fds s3 = fds ?s2" by blast
  let ?s4 = "s3\<lparr>stable := (stable s3)(disk p := patch (pstart p) (region s3 p) (stable s3 (disk p)))\<rparr>"
  have fs: "run_state (sys_fsync (Suc (next_fd s))) s3 = (Inr (), ?s4)"
    using s3 by (simp add: sys_fsync_def with_fd_calm)
  have md: "psize p mod lsz q = 0" "psize p mod lsz p = 0"
    using pl sz by (auto simp: plain_def bad_geometry_def)
  have cp: "run_state (copy_to_target ?t1 0 (psize p) ?t2) ?s2 = (Inr (), ?s4)"
    using md c fs env by (simp add: copy_to_target_def sys_ok_def calm)
  have "run_state (close_target ?t2) ?s4 = ((), ?s4\<lparr>fds := (fds ?s4)(Suc (next_fd s) := None)\<rparr>)"
    using s3 by (subst close_target_calm) auto
  then have "run_state (copy_block_range_from_target ?t1 0 (psize p) dest) ?s1 =
      (Inr (), ?s4\<lparr>fds := (fds ?s4)(Suc (next_fd s) := None)\<rparr>)"
    using o2 cp sz pp by (simp add: copy_block_range_from_target_def)
  then show ?thesis
    using ne o1 sz by (auto simp: copy_block_device_def split: prod.split)
qed

subsection \<open>The shutdown\<close>

lemma split_devices_calm:
  assumes "env s = []" "CHR '':'' \<notin> set a" "a \<noteq> []" "b \<noteq> []"
  shows "run_state (split_devices (a @ '':'' @ b)) s = (Inr (a, b), s)"
proof -
  have "takeWhile (\<lambda>c. c \<noteq> CHR '':'') (a @ '':'' @ b) = a"
    using assms(2) by (auto simp: takeWhile_append)
  then show ?thesis
    using assms by (simp add: split_devices_def sys_ok_def calm Let_def)
qed

lemma disable_vfat_write_calm:
  assumes "env s = []" "wf_os s" "nodes s mp = Some Dir" "map_of (mounts s) mp = Some p"
  shows "run_state (disable_vfat_write mp) s = (Inr (), (bump s)\<lparr>gate := (gate s)(mp := True)\<rparr>)"
proof -
  have "fds s (next_fd s) = None" using assms(2) by (simp add: wf_os_def)
  then show ?thesis
    using assms
    by (simp add: disable_vfat_write_def sys_open_def sys_fat_disable_write_def sys_close_def calm open_fd_def fun_upd_idem)
qed

lemma umount_partition_calm:
  assumes env: "env s = []" and wf: "wf_os s" and split: "CHR '':'' \<notin> set a" "a \<noteq> []" "b \<noteq> []"
    and na: "nodes s a = Some (Blk pa)" and nb: "nodes s b = Some (Blk pb)" and nm: "nodes s mp = Some Dir"
    and m: "map_of (mounts s) mp = Some pa" and dev: "rdev pa \<noteq> rdev pb"
    and free: "\<not> is_mounted s (rdev pb)" "\<not> held_excl s (rdev pb)" and pl: "plain pa" "plain pb" "psize pa = psize pb"
    and sha: "\<And>x. length (sha x) = 32"
  shows "\<exists>s'. run_state (umount_partition sha (a @ '':'' @ b) mp) s = (EXIT_OK, s')"
proof -
  have ra: "run_state (resolve_active_peer mp a b) s = (Inr (a, b), s)"
    using env na nb nm m dev by (simp add: resolve_active_peer_def sys_stat_def calm)
  let ?s1 = "(bump s)\<lparr>gate := (gate s)(mp := True)\<rparr>"
  note dw = disable_vfat_write_calm [OF env wf nm m]
  have s1: "env ?s1 = []" "nodes ?s1 = nodes s" "wf_os ?s1"
    using env wf disable_vfat_write_spec [OF dw wf] by (auto dest: gate_step_inv(1))
  obtain x s2 where r2: "run_state (powerctl_seal_block_device sha a) ?s1 = (Inr x, s2)"
    and s2: "fds s2 = fds ?s1" "next_fd s2 = Suc (next_fd ?s1)"
    using seal_calm [of ?s1 a pa sha, OF s1(1,3) _ pl(1) sha] na by auto
  have w2: "writes pa ?s1 s2" using seal_spec [OF r2 s1(3), of pa] na by simp
  note i2 = writes_inv [OF w2 s1(3)]
  have "env s2 = []" using w2 s1(1,3) by (auto simp: writes_def world_def)
  moreover have "\<not> is_mounted s2 (rdev pb)" "\<not> held_excl s2 (rdev pb)"
    using free s2 i2(6) wf by (auto simp: is_mounted_def held_excl_def wf_os_def less_Suc_eq split: option.splits)
  moreover have "a \<noteq> b" using na nb dev by auto
  ultimately obtain s3 where r3: "run_state (copy_block_device a b) s2 = (Inr (), s3)"
    using copy_block_device_calm [OF _ i2(1), of a pa b pb] na nb i2(5) s1(2) pl by auto
  show ?thesis
    using split_devices_calm [OF env split] ra dw r2 r3
    by (simp add: umount_partition_def del: append_Cons append_Nil)
qed

subsection \<open>The properties of the shutdown\<close>

text \<open>
  C1 (after a successful shutdown both devices are good).  If \<^verbatim>\<open>umount_partition\<close> returns success, then the write gate is closed, the active device carries a valid
  descriptor, its peer is byte for byte the same, and both have reached stable storage.  The digest in the descriptor is that of a prefix of the protected range, of which at most
  the chunks in the slots of the hashing pipeline are missing; it is the digest of the whole range if the pipeline does not lose the tail of the device in this run
  (\<^const>\<open>no_loss\<close>; \<^verbatim>\<open>hash.c\<close> can lose it, see \<open>Hash_Ring\<close>).  Apart from that the machine may fail calls, shorten transfers and write to the device through open mounts as it likes.  The two
  partitions must not overlap, no other mount that can still be written may overlap them, and no change that passes the closed gate, an eviction or an update of a time stamp, may
  be due on the mountpoint.
\<close>

theorem umount_seals_both:
  assumes "run_state (umount_partition sha (a @ '':'' @ b) mp) s = (EXIT_OK, s')"
    and "wf_os s" and "CHR '':'' \<notin> set a"
    and "nodes s a = Some (Blk pa)" and "nodes s b = Some (Blk pb)" and "apart pa pb"
    and "settled s mp pa" and "settled s mp pb" and "\<not> leaky s mp"
  shows "gate s' mp \<and> (\<exists>d. prefix_sealed sha (region s' pa) d \<and> (no_loss s \<longrightarrow> sealed sha (region s' pa) d)) \<and>
    region s' pb = region s' pa \<and> stable_region s' pa = region s' pa \<and> stable_region s' pb = region s' pb"
  using umount_partition_spec [OF assms] unfolding attested_def .

lemma ex_plain: "plain ex_a" "plain ex_b"
  by (simp_all add: plain_def bad_geometry_def FOOTER_AREA_SIZE_def)

lemma ex_free: "\<not> is_mounted ex_os 3" "\<not> held_excl ex_os 3"
  by (auto simp: is_mounted_def held_excl_def ex_os_def split: if_splits)

lemma ex_umount:
  "\<exists>s'. run_state (umount_partition (\<lambda>_. replicate 32 7) (''/dev/a'' @ '':'' @ ''/dev/b'') ''/m'') ex_os = (EXIT_OK, s')"
  by (rule umount_partition_calm [where pa = ex_a and pb = ex_b])
    (simp_all add: ex_plain ex_free [simplified])

theorem umount_seals_both_witness:
  "\<exists>s'. run_state (umount_partition (\<lambda>_. replicate 32 7) (''/dev/a'' @ '':'' @ ''/dev/b'') ''/m'') ex_os = (EXIT_OK, s') \<and>
     gate s' ''/m'' \<and> sealed (\<lambda>_. replicate 32 7) (region s' ex_a) (replicate 32 7) \<and> region s' ex_b = region s' ex_a"
proof -
  let ?sha = "\<lambda>_ :: bytes. replicate 32 (7 :: u8)"
  obtain s' where r: "run_state (umount_partition ?sha (''/dev/a'' @ '':'' @ ''/dev/b'') ''/m'') ex_os = (EXIT_OK, s')"
    using ex_umount by blast
  have "gate s' ''/m'' \<and> (\<exists>d. prefix_sealed ?sha (region s' ex_a) d \<and> (no_loss ex_os \<longrightarrow> sealed ?sha (region s' ex_a) d)) \<and>
      region s' ex_b = region s' ex_a \<and> stable_region s' ex_a = region s' ex_a \<and> stable_region s' ex_b = region s' ex_b"
    by (rule umount_seals_both [OF r]) (simp_all add: apart_def settled_def)
  moreover have "no_loss ex_os" by (simp add: no_loss_def)
  moreover have "d = replicate 32 7" if "sealed ?sha (region s' ex_a) d" for d
    using that by (simp add: sealed_def)
  ultimately show ?thesis using r by blast
qed

text \<open>
  C6 (the shutdown can succeed).  If no call fails, a mounted device and a free peer of the same
  regular geometry are all \<^verbatim>\<open>umount_partition\<close> needs to return success: every loop it runs ends.
\<close>

theorem umount_succeeds:
  assumes "env s = []" and "wf_os s" and "CHR '':'' \<notin> set a" and "a \<noteq> []" and "b \<noteq> []"
    and "nodes s a = Some (Blk pa)" and "nodes s b = Some (Blk pb)" and "nodes s mp = Some Dir"
    and "map_of (mounts s) mp = Some pa" and "rdev pa \<noteq> rdev pb"
    and "\<not> is_mounted s (rdev pb)" and "\<not> held_excl s (rdev pb)" and "plain pa" and "plain pb" and "psize pa = psize pb"
    and "\<And>x. length (sha x) = 32"
  shows "\<exists>s'. run_state (umount_partition sha (a @ '':'' @ b) mp) s = (EXIT_OK, s')"
  using assms by (rule umount_partition_calm)

theorem umount_succeeds_witness:
  "\<exists>s'. run_state (umount_partition (\<lambda>_. replicate 32 0) (''/dev/a'' @ '':'' @ ''/dev/b'') ''/m'') ex_os = (EXIT_OK, s')"
  by (rule umount_succeeds [where pa = ex_a and pb = ex_b])
    (simp_all add: ex_plain ex_free [simplified])

end
