(* ===== verification/Boot.thy ===== *)
theory Boot
  imports Calm_Run
begin

text \<open>
  The start of the system: \<^verbatim>\<open>mount_partition\<close> followed by \<^verbatim>\<open>recover_app_param\<close>.  The lemmas follow the run up to
  the moment of the mount, until which nothing has been written to a device, and from there through the
  recovery, which writes nothing but the peer.
\<close>

subsection \<open>The candidate loop\<close>

lemma sys_mount_run:
  assumes "run_state (sys_mount dev mp) s = (r, s')"
  obtains (fail) e where "r = Inl e" "s' = snd (tick s)"
  | (ok) p where "r = Inr ()" "nodes s dev = Some (Blk p)" "map_of (mounts s) mp = None"
      "s' = (snd (tick s))\<lparr>mounts := (mp, p) # mounts s, gate := (gate s)(mp := False)\<rparr>"
proof -
  obtain x t where tick: "tick s = (x, t)" by (cases "tick s")
  have t: "nodes t = nodes s" "mounts t = mounts s" "gate t = gate s"
    using tick_fields(1-3) [of s] by (simp_all add: tick)
  show thesis
    using assms t fail ok
    by (auto simp: sys_mount_def sys_defs tick split: reply.splits option.splits node.splits if_splits)
qed

text \<open>What holds after a successful mount, of whatever is done until the next call that closes the gate.\<close>

definition boot_step :: "os \<Rightarrow> os \<Rightarrow> bool" where
  "boot_step s t \<longleftrightarrow> (wf_os s \<longrightarrow> wf_os t \<and> fd_frame s t \<and> nodes t = nodes s \<and> links t = links s \<and>
     numfiles t = numfiles s \<and> signalled t = signalled s \<and> leaky t = leaky s \<and> (no_loss s \<longrightarrow> no_loss t) \<and>
     (\<forall>p. in_disk t p = in_disk s p))"

interpretation bs: os_io boot_step
proof
  show "boot_step s s" for s by (simp add: boot_step_def fd_frame_refl)
  show "boot_step s u" if "boot_step s t" "boot_step t u" for s t u
    using that fd_frame_trans unfolding boot_step_def by auto
  show "boot_step s (snd (tick s))" for s
    using world_tick [of "{}" s] by (auto simp: boot_step_def fd_frame_tick world_wf world_in_disk dest: world_no_loss)
  show "boot_step s (s\<lparr>fds := (fds s)(fd \<mapsto> d\<lparr>fd_direct := b\<rparr>)\<rparr>)" if "fds s fd = Some d" for s fd d b
    using world_setfl [OF that, of "{}" b]
    by (auto simp: boot_step_def fd_frame_setfl that world_wf world_in_disk dest: world_no_loss)
qed

lemma reads_boot_step: "reads s t \<Longrightarrow> boot_step s t"
  unfolding boot_step_def by (auto simp: reads_inv reads_def world_statics statics_def dest: world_fields(5) world_no_loss)

lemma boot_step_mounts:
  assumes "wf_os s \<Longrightarrow> \<forall>(m, p) \<in> set ms. in_disk s p"
  shows "boot_step s (s\<lparr>mounts := ms, gate := g\<rparr>)"
  using assms by (auto simp: boot_step_def wf_os_def in_disk_def no_loss_def fd_frame_same)

lemma bs_notify: "keeps boot_step sd_notify_ready"
  unfolding sd_notify_ready_def
  by (rule bs.keeps_fallible) (auto simp: boot_step_def wf_os_def in_disk_def no_loss_def fd_frame_same)

definition same_mounts :: "os \<Rightarrow> os \<Rightarrow> bool" where
  "same_mounts s t \<longleftrightarrow> mounts t = mounts s \<and> gate t = gate s"

interpretation sm: os_io same_mounts
  by unfold_locales (simp_all add: same_mounts_def)

lemma sm_notify: "keeps same_mounts sd_notify_ready"
  unfolding sd_notify_ready_def by (rule sm.keeps_fallible) (simp add: same_mounts_def)

lemma sd_notify_ready_run: "run_state sd_notify_ready s = (Inr x, s') \<Longrightarrow> ready s'"
  unfolding sd_notify_ready_def by (auto dest!: syscall_InrD)

lemma bs_umount2: "keeps boot_step (sys_umount2 mp)"
  unfolding sys_umount2_def
  by (rule bs.keeps_fallible) (auto simp: boot_step_def wf_os_def in_disk_def no_loss_def fd_frame_same)

text \<open>From the first verification to the successful mount nothing is written.\<close>

definition booted :: "(bytes \<Rightarrow> bytes) \<Rightarrow> string \<Rightarrow> (string \<times> string) list \<Rightarrow> os \<Rightarrow> exit_code \<Rightarrow> app_param_state \<Rightarrow> os \<Rightarrow> bool" where
  "booted sha mp cs s r st' s' \<longleftrightarrow> boot_step s s' \<and> (r = EXIT_OK \<longrightarrow> (\<exists>c other d p. (c, other) \<in> set cs \<and>
    st' = \<lparr>mounted_dev = Some c, other_dev = Some other, mounted_digest = d\<rparr> \<and> nodes s c = Some (Blk p) \<and>
    (quiet s p \<longrightarrow> attested (no_loss s) sha (region s p) d) \<and>
    map_of (mounts s) mp = None \<and> mounts s' = (mp, p) # mounts s \<and> gate s' = (gate s)(mp := False) \<and> ready s'))"

lemma booted_later:
  assumes "reads s t" and "wf_os s" and "booted sha mp cs t r st' s'"
  shows "booted sha mp (x # cs) s r st' s'"
proof -
  note i = reads_inv [OF assms(1,2)]
  have "region t p = region s p" if "nodes s c = Some (Blk p)" "quiet s p" for c p
    using i(11) wf_node [OF assms(2) that(1)] that(2) by simp
  moreover have "boot_step s s'"
    using bs.frame_trans [OF reads_boot_step [OF assms(1)]] assms(3) unfolding booted_def by blast
  moreover have "\<exists>c other d p. (c, other) \<in> set (x # cs) \<and>
    st' = \<lparr>mounted_dev = Some c, other_dev = Some other, mounted_digest = d\<rparr> \<and> nodes s c = Some (Blk p) \<and>
    (quiet s p \<longrightarrow> attested (no_loss s) sha (region s p) d) \<and>
    map_of (mounts s) mp = None \<and> mounts s' = (mp, p) # mounts s \<and> gate s' = (gate s)(mp := False) \<and> ready s'" if ok: "r = EXIT_OK"
  proof -
    obtain c other d p where k: "(c, other) \<in> set cs" "st' = \<lparr>mounted_dev = Some c, other_dev = Some other, mounted_digest = d\<rparr>"
        "nodes t c = Some (Blk p)" "quiet t p \<longrightarrow> attested (no_loss t) sha (region t p) d"
        "map_of (mounts t) mp = None" "mounts s' = (mp, p) # mounts t" "gate s' = (gate t)(mp := False)" "ready s'"
      using assms(3) ok unfolding booted_def by blast
    have "attested (no_loss s) sha (region s p) d" if "quiet s p"
      by (rule attested_mono [of "no_loss t"]) (use k(3,4) that calculation(1) i(3,5,10) in auto)
    then show ?thesis
      using k i(5-7) by (intro exI [of _ c] exI [of _ other] exI [of _ d] exI [of _ p]) simp
  qed
  ultimately show ?thesis unfolding booted_def by blast
qed

lemma mount_candidates_spec:
  assumes "run_state (mount_candidates sha mp st cs) s = ((r, u, st'), s')" and "wf_os s"
  shows "booted sha mp cs s r st' s'"
  using assms
proof (induction sha mp st cs arbitrary: s rule: mount_candidates.induct)
  case (1 sha mp st)
  then show ?case by (simp add: booted_def bs.frame_refl)
next
  case (2 sha mp st c other cs)
  let ?verify = "powerctl_verify_path_digest sha c"
  obtain v s1 where r1: "run_state ?verify s = (v, s1)" by (cases "run_state ?verify s")
  note v1 = verify_spec [OF r1 "2.prems"(2)]
  note i1 = reads_inv [OF conjunct1 [OF v1] "2.prems"(2)]
  show ?case
  proof (cases v)
    case (Inl e)
    then show ?thesis using booted_later [OF conjunct1 [OF v1] "2.prems"(2)] "2.prems"(1) "2.IH"(1) i1(1) by (simp add: r1)
  next
    case V: (Inr d)
    obtain m s2 where r2: "run_state (sys_mount c mp) s1 = (m, s2)" by (cases "run_state (sys_mount c mp) s1")
    show ?thesis
      using r2
    proof (cases rule: sys_mount_run)
      case (fail e)
      have "reads s s2" using rd.frame_trans [OF conjunct1 [OF v1] rd.frame_tick] fail(2) by simp
      then show ?thesis
        using booted_later [of s s2] reads_inv(1) [of s s2] "2.prems" "2.IH"(2) [of d s2] V fail(1) by (simp add: r1 r2)
    next
      case (ok p)
      have n: "nodes s c = Some (Blk p)" using ok(2) i1(5) by simp
      define t1 where "t1 = snd (tick s1)"
      have t1: "mounts t1 = mounts s1" "nodes t1 = nodes s1" by (simp_all add: t1_def)
      have "\<forall>(m, q) \<in> set ((mp, p) # mounts s1). in_disk t1 q" if "wf_os t1"
        using wf_node [OF that, of c p] that ok(2) t1 unfolding wf_os_def by simp
      from bs.frame_trans [OF _ boot_step_mounts [OF this]] bs.frame_tick [of s1]
      have "boot_step s1 s2" unfolding ok(4) t1_def by blast
      then have b2: "boot_step s s2" using bs.frame_trans [OF reads_boot_step [OF conjunct1 [OF v1]]] by blast
      have m2: "mounts s2 = (mp, p) # mounts s" "gate s2 = (gate s)(mp := False)" using ok(4) i1(6,7) by simp_all
      let ?rest = "do {
             a \<leftarrow> sys_ok;
             b \<leftarrow> sys_ok;
             case (a, b) of
               (Inr _, Inr _) \<Rightarrow> do {
                 n \<leftarrow> sd_notify_ready;
                 case n of
                   Inl _ \<Rightarrow> ret (EXIT_IO_ERROR, True, st\<lparr>mounted_dev := None, other_dev := None, mounted_digest := d\<rparr>)
                 | Inr _ \<Rightarrow> ret (EXIT_OK, False, \<lparr>mounted_dev = Some c, other_dev = Some other, mounted_digest = d\<rparr>)
               }
             | _ \<Rightarrow> ret (EXIT_NOMEM, True, st\<lparr>mounted_dev := None, other_dev := None, mounted_digest := d\<rparr>)
           }"
      have r3: "run_state ?rest s2 = ((r, u, st'), s')" using "2.prems"(1) V ok(1) by (simp add: r1 r2)
      have "boot_step s2 s'" by (rule keepsD [OF _ r3]) (intro bs.keeps_intros bs.keeps_queries bs_notify)
      then have b: "boot_step s s'" using bs.frame_trans b2 by blast
      have m': "same_mounts s2 s'" by (rule keepsD [OF _ r3]) (intro sm.keeps_intros sm.keeps_queries sm_notify)
      obtain a1 t1 where q1: "run_state sys_ok s2 = (a1, t1)" by (cases "run_state sys_ok s2")
      obtain a2 t2 where q2: "run_state sys_ok t1 = (a2, t2)" by (cases "run_state sys_ok t1")
      obtain a3 t3 where q3: "run_state sd_notify_ready t2 = (a3, t3)" by (cases "run_state sd_notify_ready t2")
      have "st' = \<lparr>mounted_dev = Some c, other_dev = Some other, mounted_digest = d\<rparr> \<and> ready s'" if "r = EXIT_OK"
        using r3 that q3 sd_notify_ready_run [of t2 _ t3] by (cases a1; cases a2; cases a3) (simp_all add: q1 q2 q3)
      with m' have "st' = \<lparr>mounted_dev = Some c, other_dev = Some other, mounted_digest = d\<rparr> \<and> mounts s' = mounts s2 \<and>
          gate s' = gate s2 \<and> ready s'" if "r = EXIT_OK"
        using that by (simp add: same_mounts_def)
      then show ?thesis using b m2 n v1 V ok(3) i1(6) unfolding booted_def by auto
    qed
  qed
qed

subsection \<open>Descriptors are not leaked\<close>

definition leak_free :: "os \<Rightarrow> os \<Rightarrow> bool" where
  "leak_free s t \<longleftrightarrow> (wf_os s \<longrightarrow> wf_os t \<and> fd_frame s t)"

interpretation lf: os_io leak_free
proof
  show "leak_free s s" for s by (simp add: leak_free_def fd_frame_refl)
  show "leak_free s u" if "leak_free s t" "leak_free t u" for s t u
    using that fd_frame_trans unfolding leak_free_def by blast
  show "leak_free s (snd (tick s))" for s
    using world_wf [OF world_tick, of s] by (simp add: leak_free_def fd_frame_tick)
  show "leak_free s (s\<lparr>fds := (fds s)(fd \<mapsto> d\<lparr>fd_direct := b\<rparr>)\<rparr>)" if "fds s fd = Some d" for s fd d b
    using world_wf [OF world_setfl [OF that]] by (simp add: leak_free_def fd_frame_setfl that)
qed

lemma leak_free_from:
  "reads s t \<Longrightarrow> leak_free s t" "calmly W s t \<Longrightarrow> leak_free s t" "boot_step s t \<Longrightarrow> leak_free s t"
  "writes p s t \<Longrightarrow> leak_free s t" "gate_step mp s t \<Longrightarrow> fd_frame s t \<Longrightarrow> leak_free s t"
  unfolding leak_free_def
  by (auto simp: reads_inv reads_def calmly_inv boot_step_def writes_inv gate_step_inv dest: calmly_inv(1,12))
    (auto simp: writes_def)

lemmas lf_calmly = keeps_mono [OF _ leak_free_from(2)]
lemmas lf_boot = keeps_mono [OF _ leak_free_from(3)]

lemma lf_wf: "(\<And>s r s'. wf_os s \<Longrightarrow> run_state m s = (r, s') \<Longrightarrow> leak_free s s') \<Longrightarrow> keeps leak_free m"
  by (rule keepsI) (auto simp: leak_free_def)

lemma lf_verify: "keeps leak_free (powerctl_verify_path_digest sha path)"
  using verify_spec leak_free_from(1) by (intro lf_wf) blast

lemma open_target_no_node:
  assumes "run_state (open_target path flags) s = (r, s')" and "wf_os s" and "\<nexists>p. nodes s path = Some (Blk p)"
  shows "(\<exists>e. r = Inl e) \<and> reads s s'"
  using assms(1,2) by (cases rule: open_target_spec) (use assms(3) in auto)

lemma lf_seal: "keeps leak_free (powerctl_seal_block_device sha path)"
proof (rule lf_wf)
  fix s r s'
  assume wf: "wf_os s" and run: "run_state (powerctl_seal_block_device sha path) s = (r, s')"
  show "leak_free s s'"
  proof (cases "\<exists>p. nodes s path = Some (Blk p)")
    case True
    then show ?thesis using seal_spec [OF run wf] leak_free_from(4) by blast
  next
    case False
    let ?open = "open_target path [O_RDWR, O_CLOEXEC, O_DIRECT]"
    obtain o1 s1 where r1: "run_state ?open s = (o1, s1)" by (cases "run_state ?open s")
    have "(\<exists>e. o1 = Inl e) \<and> reads s s1" using open_target_no_node [OF r1 wf False] .
    then show ?thesis
      using run leak_free_from(1) by (auto simp: powerctl_seal_block_device_def r1)
  qed
qed

text \<open>A copy whose destination is no block device opens and closes the source only.\<close>

lemma lf_copy_bracket:
  "keeps leak_free (do {
        r \<leftarrow> open_target source flags;
        case r of
          Inl e \<Rightarrow> ret (Inl e)
        | Inr t \<Rightarrow> do {
            result \<leftarrow> copy_block_range_from_target t (off t) (len t) dest;
            _ \<leftarrow> close_target t;
            ret result
          }
      })" (is "keeps leak_free ?copy")
proof (rule lf_wf)
  fix s r s'
  assume wf: "wf_os s" and run: "run_state ?copy s = (r, s')"
  show "leak_free s s'"
  proof (cases "\<exists>p. nodes s dest = Some (Blk p)")
    case True
    then obtain p where p: "nodes s dest = Some (Blk p)" by blast
    from run wf p show ?thesis by (cases rule: copy_bracket) (simp_all add: leak_free_from(4))
  next
    case False
    obtain o1 s1 where r1: "run_state (open_target source flags) s = (o1, s1)" by (cases "run_state (open_target source flags) s")
    show ?thesis
      using r1 wf
    proof (cases rule: open_target_spec)
      case (fail e)
      then show ?thesis using run leak_free_from(1) by (simp add: r1)
    next
      case (ok t q)
      note i1 = opened_inv [OF ok(3) wf]
      let ?from = "copy_block_range_from_target t (off t) (len t) dest"
      obtain o2 s2 where r2: "run_state ?from s1 = (o2, s2)" by (cases "run_state ?from s1")
      obtain o3 s3 where r3: "run_state (open_target dest [O_RDWR, O_CLOEXEC, O_DIRECT, O_EXCL]) s1 = (o3, s3)"
        by (cases "run_state (open_target dest [O_RDWR, O_CLOEXEC, O_DIRECT, O_EXCL]) s1")
      have o3: "(\<exists>e. o3 = Inl e) \<and> reads s1 s3" using open_target_no_node [OF r3 i1(1)] False i1(5) by simp
      then have "reads s1 s2"
        using r2 by (auto simp: copy_block_range_from_target_def r3 rd.frame_refl split: if_splits)
      then have "opened {} (tfd t) q s s2" using opened_reads [OF ok(3)] by blast
      then have "reads s s'"
        using run ok(1) close_target_spec [of t s2 _ s' "{}" q s] by (auto simp: r1 r2 reads_def split: prod.splits)
      then show ?thesis by (rule leak_free_from(1))
    qed
  qed
qed

lemma lf_copy: "keeps leak_free (copy_block_range source off len dest)" "keeps leak_free (copy_block_device source dest)"
  unfolding copy_block_range_def copy_block_device_def
  using lf_copy_bracket [of source _ "\<lambda>_. off" "\<lambda>_. len" dest] lf_copy_bracket [of source _ "\<lambda>_. 0" tsize dest]
  by (simp_all add: lf.keeps_ret)

lemma lf_mount_candidates: "keeps leak_free (mount_candidates sha mp st cs)"
proof (rule lf_wf)
  fix s r s'
  assume "wf_os s" and "run_state (mount_candidates sha mp st cs) s = (r, s')"
  then show "leak_free s s'"
    using mount_candidates_spec [of sha mp st cs s "fst r" "fst (snd r)" "snd (snd r)" s'] leak_free_from(3)
    by (simp add: booted_def)
qed

lemma lf_mkdir: "keeps leak_free (sys_mkdir path)"
  unfolding sys_mkdir_def
  by (rule lf.keeps_fallible) (auto simp: leak_free_def wf_os_def in_disk_def fd_frame_same)

lemma lf_split_devices: "keeps leak_free (split_devices spec)"
  using keeps_mono [OF reads_split_devices leak_free_from(1)] .

lemma lf_disable_vfat_write: "keeps leak_free (disable_vfat_write mp)"
  using disable_vfat_write_spec leak_free_from(5) by (intro lf_wf) blast

lemma lf_resolve_partition_source: "keeps leak_free (resolve_partition_source d)"
  using resolve_partition_source_reads leak_free_from(1) by (intro lf_wf) blast

lemmas lf_parts = lf_verify lf_seal lf_copy lf_mount_candidates lf_mkdir lf_split_devices lf_disable_vfat_write
  lf_resolve_partition_source lf.keeps_resolve_active_peer lf_boot [OF bs_umount2] lf_calmly [OF keeps_sysctl(3)]
  lf_calmly [OF keeps_sysctl(4)] lf_calmly [OF keeps_sysctl(5)] lf_calmly [OF calmly_release_app_services]
  lf_calmly [OF calmly_wait_mount_recovery_complete]

lemma lf_mount_partition: "keeps leak_free (mount_partition sha st original devices mp)"
  unfolding mount_partition_def by (intro lf.keeps_intros lf_parts)

lemma lf_umount_partition: "keeps leak_free (umount_partition sha devices mp)"
  unfolding umount_partition_def by (intro lf.keeps_intros lf_parts)

lemma lf_recover_app_param: "keeps leak_free (recover_app_param sha st original)"
  unfolding recover_app_param_def recover_peer_def by (intro lf.keeps_intros lf_parts)

subsection \<open>A successful mount\<close>

lemma sys_mkdir_run:
  assumes "run_state (sys_mkdir path) s = (r, s')"
  obtains t where "reads s t" "s' = t \<or> nodes t path = None \<and> s' = t\<lparr>nodes := (nodes t)(path \<mapsto> Dir)\<rparr>"
proof -
  obtain x t where tick: "tick s = (x, t)" by (cases "tick s")
  then have "reads s t" using rd.frame_tick [of s] by simp
  moreover have "s' = t \<or> nodes t path = None \<and> s' = t\<lparr>nodes := (nodes t)(path \<mapsto> Dir)\<rparr>"
    using assms by (auto simp: sys_mkdir_def sys_defs tick split: reply.splits if_splits)
  ultimately show thesis using that by blast
qed

lemma sys_mkdir_keeps:
  assumes "run_state (sys_mkdir path) s = (r, s')" and "wf_os s"
  shows "wf_os s'" "mounts s' = mounts s" "gate s' = gate s" "numfiles s' = numfiles s" "no_loss s \<Longrightarrow> no_loss s'"
    "quiet s' p = quiet s p" "in_disk s' p = in_disk s p" "nodes s' c = Some (Blk p) \<Longrightarrow> nodes s c = Some (Blk p)"
    "in_disk s p \<Longrightarrow> quiet s p \<Longrightarrow> region s' p = region s p" "leaky s' = leaky s"
proof -
  obtain t where t: "reads s t" "s' = t \<or> nodes t path = None \<and> s' = t\<lparr>nodes := (nodes t)(path \<mapsto> Dir)\<rparr>"
    using sys_mkdir_run [OF assms(1)] .
  note i = reads_inv [OF t(1) assms(2)]
  show "wf_os s'" using keepsD [OF lf_mkdir assms(1)] assms(2) by (simp add: leak_free_def)
  show "mounts s' = mounts s" "gate s' = gate s" "numfiles s' = numfiles s" "leaky s' = leaky s" using t(2) i(6-8,14) by auto
  then show "quiet s' p = quiet s p" by (simp add: quiet_def shut_def)
  show "no_loss s'" if "no_loss s" using t(2) i(10) [OF that] by (auto simp: no_loss_def)
  show "in_disk s' p = in_disk s p" using t(2) i(4) [of p] by (auto simp: in_disk_def)
  show "nodes s c = Some (Blk p)" if "nodes s' c = Some (Blk p)"
    using t(2) i(5) that by (auto split: if_splits)
  show "region s' p = region s p" if "in_disk s p" "quiet s p"
    using t(2) i(11) [OF that] by (auto simp: region_def)
qed

declare mount_candidates.simps [simp del]

lemma mount_partition_spec:
  assumes run: "run_state (mount_partition sha st o0 (a @ '':'' @ b) mp) s = ((EXIT_OK, st', original), s')"
    and wf: "wf_os s" and colon: "CHR '':'' \<notin> set a" and fit: "settings_fit s"
  obtains c other d p where "(c, other) \<in> {(a, b), (b, a)}"
    "st' = \<lparr>mounted_dev = Some c, other_dev = Some other, mounted_digest = d\<rparr>" "nodes s c = Some (Blk p)"
    "quiet s p \<longrightarrow> attested (no_loss s) sha (region s p) d" "map_of (mounts s) mp = None"
    "mounts s' = (mp, p) # mounts s" "gate s' = (gate s)(mp := False)" "ready s'"
    "numfiles s' = applied delayed s" "saved original s" "wf_os s'" "no_loss s \<longrightarrow> no_loss s'"
    "leaky s' = leaky s" "\<forall>x q. nodes s x = Some (Blk q) \<longrightarrow> nodes s' x = Some (Blk q)"
proof -
  define spec where "spec = a @ '':'' @ b"
  note run = run [folded spec_def]
  obtain x s1 where r1: "run_state (split_devices spec) s = (Inr x, s1)"
    using run by (auto simp: mount_partition_def split: prod.splits sum.splits)
  have rd1: "reads s s1" using keepsD [OF reads_split_devices r1] .
  note i1 = reads_inv [OF rd1 wf]
  obtain u v where x: "x = (u, v)" by (cases x)
  have uv: "a @ '':'' @ b = u @ '':'' @ v \<and> CHR '':'' \<notin> set u"
    using split_devices_run [OF r1 [unfolded x]] unfolding spec_def by blast
  have x: "x = (a, b)"
    using split_unique [OF conjunct1 [OF uv] colon conjunct2 [OF uv]] x by simp
  obtain o1 s2 where r2: "run_state (read_dirty_settings o0) s1 = ((Inr (), o1), s2)"
    using run x by (auto simp: mount_partition_def r1 split: prod.splits sum.splits)
  obtain s3 where r3: "run_state enable_pagecache_delay s2 = (Inr (), s3)"
    using run x by (auto simp: mount_partition_def r1 r2 split: prod.splits sum.splits)
  obtain mk s4 where r4: "run_state (sys_mkdir mp) s3 = (mk, s4)" by (cases "run_state (sys_mkdir mp) s3")
  have mk: "mk = Inr () \<or> mk = Inl EEXIST"
  proof (rule ccontr)
    assume "\<not> (mk = Inr () \<or> mk = Inl EEXIST)"
    then show False
      using run x by (auto simp: mount_partition_def r1 r2 r3 r4 split: prod.splits)
  qed
  let ?cs = "[(a, b), (b, a)]"
  obtain r un st1 s5 where r5: "run_state (mount_candidates sha mp st ?cs) s4 = ((r, un, st1), s5)"
    by (metis prod.exhaust)
  have r: "r = EXIT_OK \<and> st1 = st' \<and> s5 = s' \<and> o1 = original"
    using run x mk by (cases "r = EXIT_OK") (auto simp: mount_partition_def r1 r2 r3 r4 r5 split: prod.splits)
  have c: "calmly {} s s3"
    using calmly_trans [OF reads_calmly [OF rd1] calmly_trans [OF keepsD [OF keeps_sysctl(3) r2] keepsD [OF keeps_sysctl(5) r3]]] .
  note i3 = calmly_inv [OF c wf]
  note i4 = sys_mkdir_keeps [OF r4 i3(1)]
  have files: "numfiles s2 = numfiles s" "numfiles s3 = applied delayed s"
    using read_dirty_settings_files [OF r2] write_dirty_settings_files [OF r3 [unfolded enable_pagecache_delay_def]] i1(8)
    by (simp_all add: applied_def)
  have "saved o1 s1" using read_dirty_settings_saved [OF r2] fit i1(8) by (simp add: settings_fit_def)
  then have sv: "saved original s" using r i1(8) by (simp add: saved_def)
  have bo: "booted sha mp ?cs s4 EXIT_OK st' s'" using mount_candidates_spec [OF r5 i4(1)] r by simp
  then have b5: "boot_step s4 s'" by (simp add: booted_def)
  obtain c' other d p where k: "(c', other) \<in> set ?cs"
      "st' = \<lparr>mounted_dev = Some c', other_dev = Some other, mounted_digest = d\<rparr>" "nodes s4 c' = Some (Blk p)"
      "quiet s4 p \<longrightarrow> attested (no_loss s4) sha (region s4 p) d"
      "map_of (mounts s4) mp = None" "mounts s' = (mp, p) # mounts s4" "gate s' = (gate s4)(mp := False)" "ready s'"
    using bo unfolding booted_def by blast
  have n: "nodes s c' = Some (Blk p)" using i4(8) [OF k(3)] i3(5) by simp
  have ind: "in_disk s p" using wf_node [OF wf n] .
  have "attested (no_loss s) sha (region s p) d" if "quiet s p"
  proof -
    have "attested (no_loss s4) sha (region s p) d" using k(4) that i4(6,9) i3(3,4,10) ind by simp
    then show ?thesis by (rule attested_mono) (use i4(5) i3(9) in blast)
  qed
  moreover have "nodes s' y = Some (Blk q)" if "nodes s y = Some (Blk q)" for y q
  proof -
    obtain t where t: "reads s3 t" "s4 = t \<or> nodes t mp = None \<and> s4 = t\<lparr>nodes := (nodes t)(mp \<mapsto> Dir)\<rparr>"
      using sys_mkdir_run [OF r4] .
    have "nodes t = nodes s" using reads_inv(5) [OF t(1) i3(1)] i3(5) by simp
    then have "nodes s4 y = Some (Blk q)" using t(2) that by (cases "s4 = t") auto
    then show ?thesis using b5 i4(1) by (simp add: boot_step_def)
  qed
  moreover have "numfiles s' = applied delayed s" "wf_os s'" "no_loss s \<longrightarrow> no_loss s'" "leaky s' = leaky s"
    using b5 i4(1,4,5,10) i3(9,13) files by (simp_all add: boot_step_def)
  ultimately show thesis
    using k i4(2,3) i3(6,7) n sv by (intro that [of c' other d p]) auto
qed

end
