(* ===== verification/Mains.thy ===== *)
theory Mains
  imports Boot
begin

text \<open>
  The two programs: \<^verbatim>\<open>main\<close> of \<^verbatim>\<open>fsctl.c\<close>, a command line over the operations of \<^verbatim>\<open>storage.c\<close>, and \<^verbatim>\<open>main\<close> of
  \<^verbatim>\<open>hb_powerctl_demo.c\<close>, which waits for the recovery to finish and prepares the power transition.  \<^verbatim>\<open>argv\<close> is a
  list that starts with the program's name; \<^verbatim>\<open>argc\<close> is its length.  Messages are not modelled.
\<close>

subsection \<open>Definitions\<close>

definition zero_settings :: dirty_settings where
  "zero_settings = \<lparr>writeback_centisecs = 0, background_ratio = 0, dirty_ratio = 0\<rparr>"

definition zero_state :: app_param_state where
  "zero_state = \<lparr>mounted_dev = None, other_dev = None, mounted_digest = replicate 32 0\<rparr>"

definition fsctl_main :: "(bytes \<Rightarrow> bytes) \<Rightarrow> string list \<Rightarrow> (os, exit_code) state" where
  "fsctl_main sha argv =
     (let argc = length argv
      in if argc \<le> 1 then ret EXIT_UNSUPPORTED_LAYOUT
         else if argv ! 1 = ''--help'' \<or> argv ! 1 = ''-h'' then ret EXIT_OK
         else if argv ! 1 = ''seal'' \<and> argc = 3
         then do {
           r \<leftarrow> powerctl_seal_block_device sha (argv ! 2);
           ret (case r of Inl _ \<Rightarrow> EXIT_IO_ERROR | Inr _ \<Rightarrow> EXIT_OK)
         }
         else if argv ! 1 = ''verify'' \<and> argc = 3
         then do {
           r \<leftarrow> powerctl_verify_path_digest sha (argv ! 2);
           ret (case r of Inl result \<Rightarrow> result | Inr _ \<Rightarrow> EXIT_OK)
         }
         else if argv ! 1 = ''mount'' \<and> argc = 4
         then do {
           (result, st, original) \<leftarrow> mount_partition sha zero_state zero_settings (argv ! 2) (argv ! 3);
           if result \<noteq> EXIT_OK then ret result else recover_app_param sha st original
         }
         else if argv ! 1 = ''umount'' \<and> argc = 4
         then umount_partition sha (argv ! 2) (argv ! 3)
         else ret EXIT_UNSUPPORTED_LAYOUT)"

definition APP_PARAM_MOUNTPOINT :: string where "APP_PARAM_MOUNTPOINT = ''/app_param''"

definition APP_PARAM_DEVICES :: string where "APP_PARAM_DEVICES = ''/dev/mmcblk0p26:/dev/mmcblk0p27''"

definition prepare_app_param :: "(bytes \<Rightarrow> bytes) \<Rightarrow> (os, int) state" where
  "prepare_app_param sha = do {
     w \<leftarrow> wait_mount_recovery_complete;
     case w of
       Inl _ \<Rightarrow> ret (- 1)
     | Inr _ \<Rightarrow> do {
         u \<leftarrow> umount_partition sha APP_PARAM_DEVICES APP_PARAM_MOUNTPOINT;
         ret (if u = EXIT_OK then 0 else - 1)
       }
   }"

definition powerctl_main :: "(bytes \<Rightarrow> bytes) \<Rightarrow> string list \<Rightarrow> (os, int) state" where
  "powerctl_main sha argv =
     (let argc = length argv; prepare_only = (argc = 2 \<and> argv ! 1 = ''--prepare-only'')
      in if \<not> prepare_only \<and> argc \<noteq> 1 then ret 2
         else do {
           result \<leftarrow> prepare_app_param sha;
           ret (if prepare_only then if result = 0 then 0 else 1 else 0)
         })"

subsection \<open>No descriptor is leaked\<close>

lemma lf_fsctl_main: "keeps leak_free (fsctl_main sha argv)"
  unfolding fsctl_main_def Let_def
  by (intro lf.keeps_intros lf_parts lf_mount_partition lf_umount_partition lf_recover_app_param)

lemma lf_powerctl_main: "keeps leak_free (powerctl_main sha argv)"
  unfolding powerctl_main_def prepare_app_param_def Let_def
  by (intro lf.keeps_intros lf_parts lf_umount_partition)

text \<open>
  C5 (no descriptor is leaked).  Whatever its arguments, whatever calls fail and wherever it stops, each
  program leaves exactly the descriptors open that were open before it, on the same devices, and the state of the
  machine well-formed.  The table holds the descriptors of devices and directories; streams of the C library and connections to the bus are not entries of it.
\<close>

theorem mains_close_what_they_open:
  assumes "wf_os s" and "run_state (fsctl_main sha argv) s = (r, s1)" and "run_state (powerctl_main sha argv') s1 = (r', s2)"
  shows "wf_os s2 \<and> (\<forall>fd. map_option fd_core (fds s2 fd) = map_option fd_core (fds s fd))"
proof -
  have "leak_free s s2"
    using lf.frame_trans [OF keepsD [OF lf_fsctl_main assms(2)] keepsD [OF lf_powerctl_main assms(3)]] .
  then show ?thesis using assms(1) by (simp add: leak_free_def fd_frame_def)
qed

theorem mains_close_what_they_open_witness:
  "\<exists>r s1 r' s2. run_state (fsctl_main (\<lambda>_. replicate 32 7) [''fsctl'', ''umount'', ''/dev/a:/dev/b'', ''/m'']) ex_os = (r, s1) \<and>
     run_state (powerctl_main (\<lambda>_. replicate 32 7) [''demo'']) s1 = (r', s2) \<and> wf_os s2 \<and> fds s2 4 = None"
proof -
  let ?sha = "\<lambda>_ :: bytes. replicate 32 (7 :: u8)"
  obtain r s1 where r1: "run_state (fsctl_main ?sha [''fsctl'', ''umount'', ''/dev/a:/dev/b'', ''/m'']) ex_os = (r, s1)"
    by (metis prod.exhaust)
  obtain r' s2 where r2: "run_state (powerctl_main ?sha [''demo'']) s1 = (r', s2)" by (metis prod.exhaust)
  have "map_option fd_core (fds s2 4) = map_option fd_core (fds ex_os 4) \<and> wf_os s2"
    using mains_close_what_they_open [OF ex_wf r1 r2] by blast
  moreover have "fds ex_os 4 = None" by (simp add: ex_os_def)
  ultimately show ?thesis using r1 r2 by auto
qed

subsection \<open>The boot\<close>

text \<open>
  C2 (a successful boot leaves two good devices).  If the mount command returns success, the device it
  mounted carried a valid descriptor when the command started, its peer carries the same digest in a valid descriptor when the command ends, the service has been reported ready and
  the page-cache settings are those from before the command, but for limits that were set in bytes.  Each of the two digests is that of the protected range of its device, if the
  hashing pipeline does not lose the tail of a device in this run (\<^const>\<open>no_loss\<close>), and in any case that of a prefix which lacks at most the chunks in the slots of the ring: this is
  \<^const>\<open>attested\<close>.  The two partitions must not overlap and no mount that can be written may overlap them.
\<close>

theorem fsctl_mount_recovers:
  assumes run: "run_state (fsctl_main sha [prog, ''mount'', a @ '':'' @ b, mp]) s = (EXIT_OK, s')"
    and wf: "wf_os s" and colon: "CHR '':'' \<notin> set a" and fit: "settings_fit s"
    and na: "nodes s a = Some (Blk pa)" and nb: "nodes s b = Some (Blk pb)" and ap: "apart pa pb"
    and q: "quiet s pa" "quiet s pb"
  shows "\<exists>p q d. {p, q} = {pa, pb} \<and> attested (no_loss s) sha (region s p) d \<and> attested (no_loss s) sha (region s' q) d \<and>
    mounts s' = (mp, p) # mounts s \<and> ready s' \<and> settings_back (numfiles s) (numfiles s')"
proof -
  obtain r st original s1 where r1:
    "run_state (mount_partition sha zero_state zero_settings (a @ '':'' @ b) mp) s = ((r, st, original), s1)"
    by (metis prod.exhaust)
  have r: "r = EXIT_OK" and r2: "run_state (recover_app_param sha st original) s1 = (EXIT_OK, s')"
    using run r1 by (auto simp: fsctl_main_def simp del: append_Cons append_Nil split: if_splits)
  obtain c other d p where k: "(c, other) \<in> {(a, b), (b, a)}"
      "st = \<lparr>mounted_dev = Some c, other_dev = Some other, mounted_digest = d\<rparr>" "nodes s c = Some (Blk p)"
      "quiet s p \<longrightarrow> attested (no_loss s) sha (region s p) d" "map_of (mounts s) mp = None"
      "mounts s1 = (mp, p) # mounts s" "gate s1 = (gate s)(mp := False)" "ready s1"
      "numfiles s1 = applied delayed s" "saved original s" "wf_os s1" "no_loss s \<longrightarrow> no_loss s1" "leaky s1 = leaky s"
      "\<forall>x q. nodes s x = Some (Blk q) \<longrightarrow> nodes s1 x = Some (Blk q)"
    using mount_partition_spec [OF r1 [unfolded r] wf colon fit] .
  obtain o' where o': "{p, o'} = {pa, pb}" "nodes s other = Some (Blk o')" "quiet s o'" "quiet s p" "apart o' p"
    using k(1,3) na nb q ap apart_sym [of pa pb] that [of pa] that [of pb] by (auto simp: doubleton_eq_iff)
  have "quiet s1 o'"
    using o'(3,5) k(5,6,7,13) unfolding quiet_def shut_def map_of_eq_None_iff by (fastforce simp: image_iff)
  then have rec: "calmly {o'} s1 s'" "ready s'" "numfiles s' = applied original s1" "attested (no_loss s1) sha (region s' o') d"
    using recover_app_param_spec [OF r2 k(11), of other o'] k(2,8,14) o'(2) by auto
  have at: "attested (no_loss s) sha (region s' o') d" using rec(4) by (rule attested_mono) (use k(12) in blast)
  have "settings_back (numfiles s) (numfiles s')"
    unfolding rec(3) by (rule applied_saved(1) [OF k(10)]) (use k(9) applied_elsewhere in simp)
  moreover have "mounts s' = (mp, p) # mounts s" using calmly_inv(6) [OF rec(1) k(11)] k(6) by simp
  ultimately show ?thesis using o'(1,4) k(4) at rec(2) by blast
qed

subsection \<open>A clean boot succeeds\<close>

lemma release_app_services_calm:
  assumes "env s = []" "\<And>u p. unit_state s u p = ''active''"
  shows "run_state release_app_services s = (Inr (), s\<lparr>signalled := signalled s @ app_services\<rparr>)"
proof -
  have pass: "run_state (release_pass (map (\<lambda>u. (u, False)) app_services)) s =
      (Inr (map (\<lambda>u. (u, True)) app_services), s\<lparr>signalled := signalled s @ app_services\<rparr>)"
    using assms by (simp add: app_services_def get_unit_active_state_def bus_unit_property_def bus_kill_unit_def sys_ok_def calm)
  have "release_loop (now s) (map (\<lambda>u. (u, False)) app_services) s = (Inr (), s\<lparr>signalled := signalled s @ app_services\<rparr>)"
    by (subst release_loop.simps) (simp add: pass list_all_iff)
  then show ?thesis
    using assms(1) by (simp add: release_app_services_def sys_ok_def sys_clock_def calm)
qed

lemma sealed_verify:
  assumes "env s = []" "wf_os s" "nodes s path = Some (Blk p)" "plain p" "\<And>x. length (sha x) = 32"
    "sealed sha (region s p) d"
  shows "run_state (powerctl_verify_path_digest sha path) s = (Inr d, bump s)"
  using assms length_region [OF wf_node [OF assms(2,3)]] by (simp add: verify_calm sealed_def)

lemma read_dirty_settings_calm:
  assumes "env s = []" "numfiles s WRITEBACK_PATH = Some a" "numfiles s BACKGROUND_PATH = Some b" "numfiles s RATIO_PATH = Some c"
  shows "run_state (read_dirty_settings st) s =
    ((Inr (), st\<lparr>writeback_centisecs := of_nat a, background_ratio := of_nat b, dirty_ratio := of_nat c\<rparr>), s)"
  using assms by (simp add: read_dirty_settings_def sysctl_calm)

lemma mount_partition_calm:
  assumes env: "env s = []" and wf: "wf_os s" and split: "CHR '':'' \<notin> set a" "a \<noteq> []" "b \<noteq> []"
    and na: "nodes s a = Some (Blk pa)" and nm: "nodes s mp = Some Dir" and free: "mounts s = []" "\<not> held_excl s (rdev pa)"
    and files: "numfiles s WRITEBACK_PATH = Some x" "numfiles s BACKGROUND_PATH = Some y" "numfiles s RATIO_PATH = Some z"
    and pl: "plain pa" and sha: "\<And>x. length (sha x) = 32" and sealed: "sealed sha (region s pa) d"
  shows "run_state (mount_partition sha zero_state o0 (a @ '':'' @ b) mp) s =
    ((EXIT_OK, \<lparr>mounted_dev = Some a, other_dev = Some b, mounted_digest = d\<rparr>,
      o0\<lparr>writeback_centisecs := of_nat x, background_ratio := of_nat y, dirty_ratio := of_nat z\<rparr>),
     (bump s)\<lparr>numfiles := applied delayed s, mounts := [(mp, pa)], gate := (gate s)(mp := False), ready := True\<rparr>)"
proof -
  let ?s1 = "s\<lparr>numfiles := applied delayed s\<rparr>"
  have en: "run_state enable_pagecache_delay s = (Inr (), ?s1)"
    unfolding enable_pagecache_delay_def using env files by (intro write_dirty_settings_calm)
  have mk: "run_state (sys_mkdir mp) ?s1 = (Inl EEXIST, ?s1)"
    using env nm by (simp add: sys_mkdir_def calm)
  have "run_state (powerctl_verify_path_digest sha a) ?s1 = (Inr d, bump ?s1)"
    by (rule sealed_verify) (use env wf na pl free sha sealed in \<open>simp_all add: wf_os_def in_disk_def quiet_def region_def\<close>)
  moreover have "fds s (next_fd s) = None" using wf by (simp add: wf_os_def)
  then have "\<not> held_excl (bump ?s1) (rdev pa)"
    using free(2) by (auto simp: held_excl_def less_Suc_eq)
  ultimately show ?thesis
    using env na nm free(1)
    by (simp add: mount_partition_def split_devices_calm [OF env split] read_dirty_settings_calm [OF env files] en mk
        mount_candidates.simps sys_mount_def sys_ok_def sd_notify_ready_def calm del: append_Cons append_Nil)
qed

lemma recover_app_param_calm:
  assumes "env s = []" "wf_os s" "nodes s b = Some (Blk pb)" "plain pb" "\<And>x. length (sha x) = 32"
    "sealed sha (region s pb) d" "\<And>u p. unit_state s u p = ''active''"
    "numfiles s WRITEBACK_PATH = Some x" "numfiles s BACKGROUND_PATH = Some y" "numfiles s RATIO_PATH = Some z"
  shows "run_state (recover_app_param sha \<lparr>mounted_dev = Some a, other_dev = Some b, mounted_digest = d\<rparr> original) s =
    (EXIT_OK, (bump s)\<lparr>signalled := signalled s @ app_services, numfiles := applied original s\<rparr>)"
proof -
  have v: "run_state (powerctl_verify_path_digest sha b) s = (Inr d, bump s)"
    using assms(1-6) by (rule sealed_verify)
  let ?s2 = "(bump s)\<lparr>signalled := signalled s @ app_services\<rparr>"
  have rel: "run_state release_app_services (bump s) = (Inr (), ?s2)"
    using release_app_services_calm [of "bump s"] assms(1,7) by simp
  have "run_state (write_dirty_settings original) ?s2 = (Inr (), ?s2\<lparr>numfiles := applied original ?s2\<rparr>)"
    using assms by (intro write_dirty_settings_calm) simp_all
  then show ?thesis
    using v rel by (simp add: recover_app_param_def recover_peer_def applied_def)
qed

lemma clean_boot:
  assumes "env s = []" and "wf_os s" and "CHR '':'' \<notin> set a" and "a \<noteq> []" and "b \<noteq> []"
    and "nodes s a = Some (Blk pa)" and "nodes s b = Some (Blk pb)" and "nodes s mp = Some Dir"
    and "mounts s = []" and "\<not> held_excl s (rdev pa)" and "apart pa pb"
    and "numfiles s WRITEBACK_PATH = Some x" and "numfiles s BACKGROUND_PATH = Some y" and "numfiles s RATIO_PATH = Some z"
    and "plain pa" and "plain pb" and "\<And>x. length (sha x) = 32"
    and "sealed sha (region s pa) d" and "sealed sha (region s pb) d" and "\<And>u p. unit_state s u p = ''active''"
  shows "\<exists>s'. run_state (fsctl_main sha [prog, ''mount'', a @ '':'' @ b, mp]) s = (EXIT_OK, s') \<and>
    mounts s' = [(mp, pa)] \<and> signalled s' = signalled s @ app_services"
proof -
  let ?o = "\<lparr>writeback_centisecs = of_nat x, background_ratio = of_nat y, dirty_ratio = of_nat z\<rparr> :: dirty_settings"
  let ?st = "\<lparr>mounted_dev = Some a, other_dev = Some b, mounted_digest = d\<rparr> :: app_param_state"
  let ?s1 = "(bump s)\<lparr>numfiles := applied delayed s, mounts := [(mp, pa)], gate := (gate s)(mp := False), ready := True\<rparr>"
  have r1: "run_state (mount_partition sha zero_state zero_settings (a @ '':'' @ b) mp) s = ((EXIT_OK, ?st, ?o), ?s1)"
    using mount_partition_calm [of s a b pa mp x y z sha d zero_settings] assms by (simp add: zero_settings_def)
  have "run_state (recover_app_param sha ?st ?o) ?s1 =
      (EXIT_OK, (bump ?s1)\<lparr>signalled := signalled ?s1 @ app_services, numfiles := applied ?o ?s1\<rparr>)"
    by (rule recover_app_param_calm [where pb = pb])
      (use assms wf_node [OF assms(2,6)] apart_sym [of pa pb] in
        \<open>simp_all add: wf_os_def in_disk_def region_def applied_at\<close>)
  then show ?thesis
    using r1 by (simp add: fsctl_main_def del: append_Cons append_Nil)
qed

text \<open>The example machine before the boot: nothing mounted, both partitions sealed.\<close>

definition ex_image :: bytes where
  "ex_image = patch 8064 (make_descriptor 4096 (replicate 32 7)) (replicate 8192 0)"

definition ex_boot :: os where
  "ex_boot = ex_os\<lparr>mounts := [], disks := (\<lambda>_. patch 8192 (ex_image @ ex_image) (replicate 32768 0))\<rparr>"

lemma length_ex_image: "length ex_image = 8192"
  by (simp add: ex_image_def length_make_descriptor)

lemma ex_boot_regions: "region ex_boot ex_a = ex_image" "region ex_boot ex_b = ex_image"
  by (simp_all add: ex_boot_def region_def patch_def bslice_def length_ex_image)

lemma ex_boot_sealed: "sealed (\<lambda>_. replicate 32 7) ex_image (replicate 32 7)"
proof -
  have "stored_descriptor ex_image = Inr (replicate 32 7)"
    using stored_descriptor_written [of "replicate 32 7" "replicate 8192 0"] by (simp add: ex_image_def)
  then show ?thesis by (simp add: sealed_def length_ex_image)
qed

lemma ex_boot_wf: "wf_os ex_boot"
  using ex_wf by (simp add: ex_boot_def wf_os_def in_disk_def length_ex_image)

lemma ex_boot_fields [simp]:
  "env ex_boot = []" "mounts ex_boot = []" "numfiles ex_boot = numfiles ex_os" "nodes ex_boot = nodes ex_os"
  "fds ex_boot = fds ex_os" "next_fd ex_boot = 4" "unit_state ex_boot u p = ''active''" "signalled ex_boot = []"
  by (simp_all add: ex_boot_def) (simp_all add: ex_os_def)

lemma ex_boot_free: "\<not> held_excl ex_boot 2"
  by (auto simp: held_excl_def ex_os_def split: if_splits)

lemma ex_boot_run:
  "\<exists>s'. run_state (fsctl_main (\<lambda>_. replicate 32 7) [''fsctl'', ''mount'', ''/dev/a'' @ '':'' @ ''/dev/b'', ''/m'']) ex_boot = (EXIT_OK, s') \<and>
    mounts s' = [(''/m'', ex_a)] \<and> signalled s' = signalled ex_boot @ app_services"
  by (rule clean_boot [where pa = ex_a and pb = ex_b and d = "replicate 32 7"])
    (use ex_boot_wf ex_boot_free ex_files in \<open>simp_all add: ex_plain ex_boot_regions ex_boot_sealed apart_def\<close>)

text \<open>
  C7 (a clean boot succeeds).  If no call fails, both devices carry the same matching digest and the
  application services are active, the mount command mounts the first device, signals both
  services and returns success.
\<close>

theorem clean_boot_succeeds:
  assumes "env s = []" and "wf_os s" and "CHR '':'' \<notin> set a" and "a \<noteq> []" and "b \<noteq> []"
    and "nodes s a = Some (Blk pa)" and "nodes s b = Some (Blk pb)" and "nodes s mp = Some Dir"
    and "mounts s = []" and "\<not> held_excl s (rdev pa)" and "apart pa pb"
    and "numfiles s WRITEBACK_PATH = Some x" and "numfiles s BACKGROUND_PATH = Some y" and "numfiles s RATIO_PATH = Some z"
    and "plain pa" and "plain pb" and "\<And>x. length (sha x) = 32"
    and "sealed sha (region s pa) d" and "sealed sha (region s pb) d" and "\<And>u p. unit_state s u p = ''active''"
  shows "\<exists>s'. run_state (fsctl_main sha [prog, ''mount'', a @ '':'' @ b, mp]) s = (EXIT_OK, s') \<and>
    mounts s' = [(mp, pa)] \<and> signalled s' = signalled s @ app_services"
  using assms by (rule clean_boot)

theorem clean_boot_succeeds_witness:
  "\<exists>s'. run_state (fsctl_main (\<lambda>_. replicate 32 7) [''fsctl'', ''mount'', ''/dev/a'' @ '':'' @ ''/dev/b'', ''/m'']) ex_boot = (EXIT_OK, s') \<and>
    mounts s' = [(''/m'', ex_a)] \<and> signalled s' = signalled ex_boot @ app_services"
  by (rule clean_boot_succeeds [where pa = ex_a and pb = ex_b and d = "replicate 32 7"])
    (use ex_boot_wf ex_boot_free ex_files in \<open>simp_all add: ex_plain ex_boot_regions ex_boot_sealed apart_def\<close>)

theorem fsctl_mount_recovers_witness:
  "\<exists>s' p q d. run_state (fsctl_main (\<lambda>_. replicate 32 7) [''fsctl'', ''mount'', ''/dev/a'' @ '':'' @ ''/dev/b'', ''/m'']) ex_boot = (EXIT_OK, s') \<and>
     {p, q} = {ex_a, ex_b} \<and> sealed (\<lambda>_. replicate 32 7) (region s' q) d \<and> ready s' \<and> settings_back (numfiles ex_boot) (numfiles s')"
proof -
  obtain s' where r: "run_state (fsctl_main (\<lambda>_. replicate 32 7) [''fsctl'', ''mount'', ''/dev/a'' @ '':'' @ ''/dev/b'', ''/m'']) ex_boot = (EXIT_OK, s')"
    using ex_boot_run by blast
  have "\<exists>p q d. {p, q} = {ex_a, ex_b} \<and> attested (no_loss ex_boot) (\<lambda>_. replicate 32 7) (region ex_boot p) d \<and>
      attested (no_loss ex_boot) (\<lambda>_. replicate 32 7) (region s' q) d \<and> mounts s' = (''/m'', p) # mounts ex_boot \<and> ready s' \<and>
      settings_back (numfiles ex_boot) (numfiles s')"
    by (rule fsctl_mount_recovers [OF r ex_boot_wf]) (use ex_fit in \<open>simp_all add: apart_def quiet_def settings_fit_def\<close>)
  moreover have "no_loss ex_boot" by (simp add: no_loss_def)
  ultimately show ?thesis using r unfolding attested_def by blast
qed

text \<open>
  C3 (applications are released onto a good pair only).  If the recovery returns success, or if it has
  signalled an application service at all, its peer device carries a valid descriptor with the digest of the mounted
  device.  That digest is the digest of the peer's contents if the hashing pipeline does not lose the tail of the peer in this run (\<^const>\<open>no_loss\<close>), and of a prefix of them that lacks at most the
  chunks in the slots of the ring in any case: with a lost tail the check of the peer can pass on a prefix.  Success also means that the saved page-cache settings have been written.
\<close>

theorem recover_releases_sealed:
  assumes "run_state (recover_app_param sha st original) s = (r, s')" and "wf_os s"
    and "other_dev st = Some other" and "nodes s other = Some (Blk pb)" and "quiet s pb"
  shows "(r = EXIT_OK \<or> signalled s' \<noteq> signalled s \<longrightarrow>
      prefix_sealed sha (region s' pb) (mounted_digest st) \<and> (no_loss s \<longrightarrow> sealed sha (region s' pb) (mounted_digest st))) \<and>
    (r = EXIT_OK \<longrightarrow> numfiles s' = applied original s)"
  using recover_app_param_spec [OF assms(1-4)] assms(5) unfolding attested_def by blast

theorem recover_releases_sealed_witness:
  "\<exists>s'. run_state (recover_app_param (\<lambda>_. replicate 32 7)
       \<lparr>mounted_dev = Some ''/dev/a'', other_dev = Some ''/dev/b'', mounted_digest = replicate 32 7\<rparr> delayed) ex_boot = (EXIT_OK, s') \<and>
     signalled s' = app_services \<and> sealed (\<lambda>_. replicate 32 7) (region s' ex_b) (replicate 32 7)"
proof -
  let ?st = "\<lparr>mounted_dev = Some ''/dev/a'', other_dev = Some ''/dev/b'', mounted_digest = replicate 32 7\<rparr> :: app_param_state"
  let ?s' = "(bump ex_boot)\<lparr>signalled := signalled ex_boot @ app_services, numfiles := applied delayed ex_boot\<rparr>"
  have r: "run_state (recover_app_param (\<lambda>_. replicate 32 7) ?st delayed) ex_boot = (EXIT_OK, ?s')"
    by (rule recover_app_param_calm [where pb = ex_b])
      (use ex_boot_wf in \<open>simp_all add: ex_plain ex_boot_regions ex_boot_sealed\<close>)
  then show ?thesis
    using recover_releases_sealed [OF r ex_boot_wf, of "''/dev/b''" ex_b] by (simp add: no_loss_def quiet_def)
qed

subsection \<open>The power transition\<close>

text \<open>
  C4 (the prepare command tells the truth).  With \<^verbatim>\<open>--prepare-only\<close> the program exits with 0 exactly if the wait for the recovery and the shutdown after it succeed, and with 1
  otherwise.  If it exits with 0 then the write gate is closed and both parameter partitions are identical, on stable storage and carry a valid descriptor, whose digest is that of their
  contents if the hashing pipeline does not lose the tail of the device in this run (\<^const>\<open>no_loss\<close>) and of a prefix of them in any case.  Without arguments it exits with 0 whatever
  the outcome, so that the power transition is never held up; any other command line is refused with 2 without touching the machine.  The hypotheses on the
  machine are those of the shutdown: the partitions do not overlap, no other mount that can be written overlaps them, and no change that passes the closed gate is due.
\<close>

theorem powerctl_exit_code:
  assumes "wf_os s" and "\<not> leaky s ''/app_param''"
    and "nodes s ''/dev/mmcblk0p26'' = Some (Blk pa)" and "nodes s ''/dev/mmcblk0p27'' = Some (Blk pb)" and "apart pa pb"
    and "settled s ''/app_param'' pa" and "settled s ''/app_param'' pb"
    and "run_state (powerctl_main sha argv) s = (r, s')"
  shows "(argv = [prog, ''--prepare-only''] \<longrightarrow> r = (case run_state wait_mount_recovery_complete s of
         (Inl _, _) \<Rightarrow> 1
       | (Inr _, s1) \<Rightarrow> if fst (run_state (umount_partition sha APP_PARAM_DEVICES APP_PARAM_MOUNTPOINT) s1) = EXIT_OK then 0 else 1)) \<and>
    (argv = [prog, ''--prepare-only''] \<and> r = 0 \<longrightarrow> gate s' ''/app_param'' \<and>
       (\<exists>d. prefix_sealed sha (region s' pa) d \<and> (no_loss s \<longrightarrow> sealed sha (region s' pa) d)) \<and> region s' pb = region s' pa \<and> stable_region s' pa = region s' pa \<and> stable_region s' pb = region s' pb) \<and>
    (length argv = 1 \<longrightarrow> r = 0) \<and>
    (length argv \<noteq> 1 \<and> (length argv \<noteq> 2 \<or> argv ! 1 \<noteq> ''--prepare-only'') \<longrightarrow> r = 2 \<and> s' = s)"
proof -
  have "gate s' ''/app_param'' \<and> (\<exists>d. attested (no_loss s) sha (region s' pa) d) \<and> region s' pb = region s' pa \<and>
      stable_region s' pa = region s' pa \<and> stable_region s' pb = region s' pb"
    if a: "argv = [prog, ''--prepare-only''] \<and> r = 0"
  proof -
    obtain w s1 where r1: "run_state wait_mount_recovery_complete s = (w, s1)"
      by (cases "run_state wait_mount_recovery_complete s")
    let ?um = "umount_partition sha APP_PARAM_DEVICES APP_PARAM_MOUNTPOINT"
    have r2: "run_state ?um s1 = (EXIT_OK, s')"
      using assms(8) a by (cases w) (auto simp: powerctl_main_def prepare_app_param_def r1 split: prod.splits if_splits)
    have c: "calmly {} s s1" using calmly_wait_mount_recovery_complete r1 by (rule keepsD)
    note i = calmly_inv [OF c assms(1)]
    have dev: "APP_PARAM_DEVICES = ''/dev/mmcblk0p26'' @ '':'' @ ''/dev/mmcblk0p27''"
      by (simp add: APP_PARAM_DEVICES_def)
    have "gate s' ''/app_param'' \<and> (\<exists>d. attested (no_loss s1) sha (region s' pa) d) \<and> region s' pb = region s' pa \<and>
        stable_region s' pa = region s' pa \<and> stable_region s' pb = region s' pb"
      by (rule umount_partition_spec [OF r2 [unfolded dev APP_PARAM_MOUNTPOINT_def] i(1)])
        (use assms i(5-7,13) in \<open>simp_all add: settled_def shut_def\<close>)
    then show ?thesis using i(9) by (blast intro: attested_mono)
  qed
  moreover have "argv = [prog, ''--prepare-only''] \<longrightarrow> r = (case run_state wait_mount_recovery_complete s of
         (Inl _, _) \<Rightarrow> 1
       | (Inr _, s1) \<Rightarrow> if fst (run_state (umount_partition sha APP_PARAM_DEVICES APP_PARAM_MOUNTPOINT) s1) = EXIT_OK then 0 else 1)"
    using assms(8) by (auto simp: powerctl_main_def prepare_app_param_def split: prod.splits sum.splits if_splits)
  moreover have "length argv = 1 \<longrightarrow> r = 0"
    using assms(8) by (auto simp: powerctl_main_def Let_def split: prod.splits)
  moreover have "length argv \<noteq> 1 \<and> (length argv \<noteq> 2 \<or> argv ! 1 \<noteq> ''--prepare-only'') \<longrightarrow> r = 2 \<and> s' = s"
    using assms(8) by (auto simp: powerctl_main_def Let_def)
  ultimately show ?thesis unfolding attested_def by blast
qed

definition ex_power :: os where
  "ex_power = ex_os\<lparr>nodes := [''/dev/mmcblk0p26'' \<mapsto> Blk ex_a, ''/dev/mmcblk0p27'' \<mapsto> Blk ex_b, ''/app_param'' \<mapsto> Dir],
     mounts := [(''/app_param'', ex_a)], unit_state := (\<lambda>_ _. ''exited'')\<rparr>"

lemma ex_power_fields [simp]:
  "env ex_power = []" "mounts ex_power = [(''/app_param'', ex_a)]" "nodes ex_power ''/app_param'' = Some Dir"
  "nodes ex_power ''/dev/mmcblk0p26'' = Some (Blk ex_a)" "nodes ex_power ''/dev/mmcblk0p27'' = Some (Blk ex_b)"
  "unit_state ex_power u p = ''exited''" "fds ex_power = fds ex_os" "next_fd ex_power = 4"
  "leaky ex_power m = False"
  by (simp_all add: ex_power_def)

lemma ex_power_wf: "wf_os ex_power"
  using ex_wf by (auto simp: ex_power_def wf_os_def in_disk_def split: if_splits)

lemma ex_power_free: "\<not> is_mounted ex_power 3" "\<not> held_excl ex_power 3"
  using ex_free by (auto simp: is_mounted_def held_excl_def)

lemma ex_power_run:
  "\<exists>s'. run_state (powerctl_main (\<lambda>_. replicate 32 7) [''demo'', ''--prepare-only'']) ex_power = (0, s')"
proof -
  have "\<exists>s'. run_state (umount_partition (\<lambda>_. replicate 32 7) (''/dev/mmcblk0p26'' @ '':'' @ ''/dev/mmcblk0p27'') ''/app_param'') ex_power
      = (EXIT_OK, s')"
    by (rule umount_partition_calm [where pa = ex_a and pb = ex_b])
      (simp_all add: ex_plain ex_power_free [simplified] ex_power_wf)
  moreover have "wait_loop n ex_power = (Inr (), ex_power)" for n
    by (subst wait_loop.simps) (simp add: get_unit_substate_def sys_ok_def bus_unit_property_def calm)
  ultimately show ?thesis
    by (auto simp: powerctl_main_def prepare_app_param_def wait_mount_recovery_complete_def sys_ok_def sys_clock_def calm
        APP_PARAM_DEVICES_def APP_PARAM_MOUNTPOINT_def)
qed

theorem powerctl_exit_code_witness:
  "\<exists>s'. run_state (powerctl_main (\<lambda>_. replicate 32 7) [''demo'', ''--prepare-only'']) ex_power = (0, s') \<and>
     gate s' ''/app_param'' \<and> region s' ex_b = region s' ex_a"
proof -
  obtain s' where r: "run_state (powerctl_main (\<lambda>_. replicate 32 7) [''demo'', ''--prepare-only'']) ex_power = (0, s')"
    using ex_power_run by blast
  show ?thesis
    using powerctl_exit_code [OF ex_power_wf _ _ _ _ _ _ r, of ex_a ex_b "''demo''"] r
    by (simp add: no_loss_def apart_def settled_def)
qed

end
