(* ===== verification/Cache_My_Data.thy ===== *)
theory Cache_My_Data
  imports Prelude
begin

text \<open>
  The preload library of \<^verbatim>\<open>lib/cache_my_data.c\<close>, which keeps an application's writes in the page cache until
  the mount service sends it \<^verbatim>\<open>SIGUSR2\<close>.  Each interposed function either refuses the call or forwards a
  call to the C library: \<open>Inl e\<close> stands for setting \<^verbatim>\<open>errno\<close> and returning \<^verbatim>\<open>-1\<close> (or just returning, for \<^verbatim>\<open>sync\<close>),
  \<open>Inr c\<close> for the forwarded call.  The C library is not modelled: what it does with the call is its
  business.

  The flag values are those of Linux; \<^verbatim>\<open>O_DIRECT\<close> and \<^verbatim>\<open>O_DIRECTORY\<close> differ between architectures and are the
  argument \<open>abi\<close>.
\<close>

subsection \<open>Calls and flags\<close>

record abi =
  abi_direct :: u32
  abi_directory :: u32

definition O_CREAT :: u32 where "O_CREAT = 0x40"
definition O_DSYNC :: u32 where "O_DSYNC = 0x1000"
definition O_SYNC :: u32 where "O_SYNC = 0x101000"
definition O_TMPFILE :: "abi \<Rightarrow> u32" where "O_TMPFILE a = 0x400000 OR abi_directory a"
definition RWF_DSYNC :: u32 where "RWF_DSYNC = 2"
definition RWF_SYNC :: u32 where "RWF_SYNC = 4"
definition F_GETFD :: u32 where "F_GETFD = 1"
definition F_GETFL :: u32 where "F_GETFL = 3"
definition F_SETFL :: u32 where "F_SETFL = 4"

record open_how =
  how_flags :: u64
  how_mode :: u64
  how_resolve :: u64

datatype call =
    Open string u32 "u32 option"
  | Openat int string u32 "u32 option"
  | Openat2 int string "open_how option" nat
  | Creat string u32
  | Fcntl int u32 "u64 option"
  | Fsync int
  | Sync
  | Fdatasync int
  | Msync nat nat u32
  | Sync_file_range int int int u32
  | Syncfs int
  | Pwritev2 int "bytes list" int u32
  | Pwritev64v2 int "bytes list" int u32

definition direct_or_sync :: "abi \<Rightarrow> u32 \<Rightarrow> bool" where
  "direct_or_sync a flags \<longleftrightarrow> flags AND (abi_direct a OR O_SYNC OR O_DSYNC) \<noteq> 0"

subsection \<open>Start-up and the signal\<close>

definition dlsym_names :: "string list" where
  "dlsym_names = [''open'', ''openat'', ''creat'', ''fcntl'', ''fsync'', ''sync'', ''fdatasync'', ''msync'',
     ''sync_file_range'', ''syncfs'', ''pwritev2'', ''pwritev64v2'']"

text \<open>\<open>found\<close> is what \<^verbatim>\<open>dlsym\<close> answers; the first symbol that is missing ends the process.\<close>

fun assign_dlsym :: "(string \<Rightarrow> bool) \<Rightarrow> string list \<Rightarrow> int option" where
  "assign_dlsym found [] = None"
| "assign_dlsym found (symbol # symbols) = (if \<not> found symbol then Some 1 else assign_dlsym found symbols)"

definition eatmydata_init :: "(string \<Rightarrow> bool) \<Rightarrow> int option" where
  "eatmydata_init found = assign_dlsym found dlsym_names"

record process =
  force_pagecache :: bool
  handler :: bool

definition process_start :: process where
  "process_start = \<lparr>force_pagecache = True, handler = False\<rparr>"

definition disable_force_pagecache :: "process \<Rightarrow> process" where
  "disable_force_pagecache p = p\<lparr>force_pagecache := False\<rparr>"

definition eatmydata_init_once :: "(string \<Rightarrow> bool) \<Rightarrow> bool \<Rightarrow> process \<Rightarrow> int + process" where
  "eatmydata_init_once found sigaction_ok p =
     (case eatmydata_init found of
        Some status \<Rightarrow> Inl status
      | None \<Rightarrow> if \<not> sigaction_ok then Inl 1 else Inr (p\<lparr>handler := True\<rparr>))"

subsection \<open>The interposed functions\<close>

definition cmd_fsync :: "process \<Rightarrow> int \<Rightarrow> errno + call" where
  "cmd_fsync p fd = (if \<not> force_pagecache p then Inr (Fsync fd) else Inl EOPNOTSUPP)"

definition cmd_sync :: "process \<Rightarrow> errno + call" where
  "cmd_sync p = (if \<not> force_pagecache p then Inr Sync else Inl EOPNOTSUPP)"

definition needs_mode :: "abi \<Rightarrow> u32 \<Rightarrow> bool" where
  "needs_mode a flags \<longleftrightarrow> flags AND O_CREAT \<noteq> 0 \<or> flags AND O_TMPFILE a = O_TMPFILE a"

text \<open>The third argument of \<^verbatim>\<open>open\<close> is read, and passed on, only when the flags call for one.\<close>

definition cmd_open :: "abi \<Rightarrow> process \<Rightarrow> string \<Rightarrow> u32 \<Rightarrow> u32 \<Rightarrow> errno + call" where
  "cmd_open a p pathname flags mode =
     (if force_pagecache p \<and> direct_or_sync a flags then Inl EOPNOTSUPP
      else if needs_mode a flags then Inr (Open pathname flags (Some mode))
      else Inr (Open pathname flags None))"

definition cmd_openat :: "abi \<Rightarrow> process \<Rightarrow> int \<Rightarrow> string \<Rightarrow> u32 \<Rightarrow> u32 \<Rightarrow> errno + call" where
  "cmd_openat a p dirfd pathname flags mode =
     (if force_pagecache p \<and> direct_or_sync a flags then Inl EOPNOTSUPP
      else if needs_mode a flags then Inr (Openat dirfd pathname flags (Some mode))
      else Inr (Openat dirfd pathname flags None))"

definition cmd_openat2 :: "abi \<Rightarrow> process \<Rightarrow> int \<Rightarrow> string \<Rightarrow> open_how option \<Rightarrow> nat \<Rightarrow> errno + call" where
  "cmd_openat2 a p dirfd pathname how sz =
     (case how of
        None \<Rightarrow> Inl EINVAL
      | Some h \<Rightarrow>
          if sz \<noteq> 24 then Inl EINVAL
          else if force_pagecache p \<and> how_flags h AND (ucast (abi_direct a) OR ucast O_SYNC OR ucast O_DSYNC) \<noteq> 0
          then Inl EOPNOTSUPP
          else Inr (Openat2 dirfd pathname (Some h) sz))"

definition cmd_creat :: "string \<Rightarrow> u32 \<Rightarrow> errno + call" where
  "cmd_creat pathname mode = Inr (Creat pathname mode)"

definition cmd_fcntl :: "abi \<Rightarrow> process \<Rightarrow> int \<Rightarrow> u32 \<Rightarrow> u64 \<Rightarrow> errno + call" where
  "cmd_fcntl a p fd cmd arg =
     (if cmd = F_GETFD \<or> cmd = F_GETFL then Inr (Fcntl fd cmd None)
      else if cmd = F_SETFL
      then (let fl = ucast arg :: u32
            in if force_pagecache p \<and> direct_or_sync a fl then Inl EOPNOTSUPP
               else Inr (Fcntl fd cmd (Some (scast fl))))
      else Inr (Fcntl fd cmd (Some arg)))"

definition reject_pwritev2_flags :: "process \<Rightarrow> u32 \<Rightarrow> bool" where
  "reject_pwritev2_flags p flags \<longleftrightarrow> force_pagecache p \<and> flags AND (RWF_SYNC OR RWF_DSYNC) \<noteq> 0"

definition cmd_pwritev2 :: "process \<Rightarrow> int \<Rightarrow> bytes list \<Rightarrow> int \<Rightarrow> u32 \<Rightarrow> errno + call" where
  "cmd_pwritev2 p fd iov offset flags =
     (if reject_pwritev2_flags p flags then Inl EOPNOTSUPP else Inr (Pwritev2 fd iov offset flags))"

definition cmd_pwritev64v2 :: "process \<Rightarrow> int \<Rightarrow> bytes list \<Rightarrow> int \<Rightarrow> u32 \<Rightarrow> errno + call" where
  "cmd_pwritev64v2 p fd iov offset flags =
     (if reject_pwritev2_flags p flags then Inl EOPNOTSUPP else Inr (Pwritev64v2 fd iov offset flags))"

definition cmd_fdatasync :: "process \<Rightarrow> int \<Rightarrow> errno + call" where
  "cmd_fdatasync p fd = (if \<not> force_pagecache p then Inr (Fdatasync fd) else Inl EOPNOTSUPP)"

definition cmd_msync :: "process \<Rightarrow> nat \<Rightarrow> nat \<Rightarrow> u32 \<Rightarrow> errno + call" where
  "cmd_msync p addr len flags = (if \<not> force_pagecache p then Inr (Msync addr len flags) else Inl EOPNOTSUPP)"

definition cmd_sync_file_range :: "process \<Rightarrow> int \<Rightarrow> int \<Rightarrow> int \<Rightarrow> u32 \<Rightarrow> errno + call" where
  "cmd_sync_file_range p fd offset nbytes flags =
     (if \<not> force_pagecache p then Inr (Sync_file_range fd offset nbytes flags) else Inl EOPNOTSUPP)"

definition cmd_syncfs :: "process \<Rightarrow> int \<Rightarrow> errno + call" where
  "cmd_syncfs p fd = (if \<not> force_pagecache p then Inr (Syncfs fd) else Inl EOPNOTSUPP)"

text \<open>
  The symbol table of the library: which function serves which call of the application.  A function with a variable argument list reads an argument whether or not the
  caller passed one; \<open>va\<close> is what it finds if the caller did not.
\<close>

definition va_arg :: "'a \<Rightarrow> 'a option \<Rightarrow> 'a" where
  "va_arg va arg = (case arg of None \<Rightarrow> va | Some x \<Rightarrow> x)"

fun interpose :: "abi \<Rightarrow> process \<Rightarrow> u64 \<Rightarrow> call \<Rightarrow> errno + call" where
  "interpose a p va (Open path flags mode) = cmd_open a p path flags (va_arg (ucast va) mode)"
| "interpose a p va (Openat dirfd path flags mode) = cmd_openat a p dirfd path flags (va_arg (ucast va) mode)"
| "interpose a p va (Openat2 dirfd path how sz) = cmd_openat2 a p dirfd path how sz"
| "interpose a p va (Creat path mode) = cmd_creat path mode"
| "interpose a p va (Fcntl fd cmd arg) = cmd_fcntl a p fd cmd (va_arg va arg)"
| "interpose a p va (Fsync fd) = cmd_fsync p fd"
| "interpose a p va Sync = cmd_sync p"
| "interpose a p va (Fdatasync fd) = cmd_fdatasync p fd"
| "interpose a p va (Msync addr len flags) = cmd_msync p addr len flags"
| "interpose a p va (Sync_file_range fd off n flags) = cmd_sync_file_range p fd off n flags"
| "interpose a p va (Syncfs fd) = cmd_syncfs p fd"
| "interpose a p va (Pwritev2 fd iov off flags) = cmd_pwritev2 p fd iov off flags"
| "interpose a p va (Pwritev64v2 fd iov off flags) = cmd_pwritev64v2 p fd iov off flags"

text \<open>A life of the process: calls of the application and the signal, in any order.\<close>

datatype event = Call call u64 | Sigusr2

fun life :: "abi \<Rightarrow> process \<Rightarrow> event list \<Rightarrow> (errno + call) list" where
  "life a p [] = []"
| "life a p (Call c va # es) = interpose a p va c # life a p es"
| "life a p (Sigusr2 # es) = life a (disable_force_pagecache p) es"

lemmas interpose_defs = cmd_fsync_def cmd_sync_def cmd_open_def cmd_openat_def cmd_openat2_def cmd_creat_def cmd_fcntl_def
  cmd_pwritev2_def cmd_pwritev64v2_def cmd_fdatasync_def cmd_msync_def cmd_sync_file_range_def cmd_syncfs_def
  reject_pwritev2_flags_def

subsection \<open>What the gate lets through\<close>

text \<open>
  The calls that ask for data to reach the device, after the manual pages: a flush, a file opened for or switched (\<^verbatim>\<open>F_SETFL\<close>, command 4) to direct or synchronous writing, and a vector written
  synchronously.  Among the flags of a file these are \<^verbatim>\<open>O_DIRECT\<close>, whose place depends on the architecture, the data-integrity bit 12 and the file-integrity bit 20; among those of
  \<^verbatim>\<open>pwritev2\<close> the bits 1 and 2.
\<close>

definition wants_device :: "abi \<Rightarrow> u64 \<Rightarrow> bool" where
  "wants_device a flags \<longleftrightarrow> flags AND ucast (abi_direct a) \<noteq> 0 \<or> bit flags 12 \<or> bit flags 20"

fun asks_for_storage :: "abi \<Rightarrow> call \<Rightarrow> bool" where
  "asks_for_storage a (Open path flags mode) = wants_device a (ucast flags)"
| "asks_for_storage a (Openat dirfd path flags mode) = wants_device a (ucast flags)"
| "asks_for_storage a (Openat2 dirfd path how sz) = (case how of None \<Rightarrow> False | Some h \<Rightarrow> wants_device a (how_flags h))"
| "asks_for_storage a (Creat path mode) = False"
| "asks_for_storage a (Fcntl fd cmd arg) = (case arg of None \<Rightarrow> False | Some x \<Rightarrow> cmd = 4 \<and> wants_device a (ucast (ucast x :: u32)))"
| "asks_for_storage a (Pwritev2 fd iov off flags) \<longleftrightarrow> bit flags 1 \<or> bit flags 2"
| "asks_for_storage a (Pwritev64v2 fd iov off flags) \<longleftrightarrow> bit flags 1 \<or> bit flags 2"
| "asks_for_storage a c = True"

lemma and_zero_bit: "x AND y = 0 \<Longrightarrow> bit y n \<Longrightarrow> \<not> bit x n" for x y :: "'a :: len word"
  by (metis bit_and_iff bit_0_eq bot_apply bot_bool_def)

lemma sync_bits: "bit O_DSYNC 12" "bit O_SYNC 20" "bit RWF_DSYNC 1" "bit RWF_SYNC 2"
  by (simp_all add: O_DSYNC_def O_SYNC_def RWF_DSYNC_def RWF_SYNC_def bit_numeral_rec)

lemma ucast_and: "ucast (x AND y) = (ucast x AND ucast y :: 'b :: len word)"
  by (rule bit_word_eqI) (auto simp: bit_simps)

lemma or_bit: "bit x n \<Longrightarrow> bit (y OR x OR z) n" "bit z n \<Longrightarrow> bit (y OR x OR z) n" for x y z :: "'a :: len word"
  by (auto simp: bit_simps)

lemma wants_device_64:
  assumes "x AND (ucast (abi_direct a) OR ucast O_SYNC OR ucast O_DSYNC) = (0 :: u64)"
  shows "\<not> wants_device a x"
proof -
  have "bit (ucast O_SYNC :: u64) 20" "bit (ucast O_DSYNC :: u64) 12" using sync_bits by (simp_all add: bit_simps)
  note b = this and_zero_bit [OF assms]
  have "x AND ucast (abi_direct a) = 0"
  proof (rule bit_word_eqI)
    show "bit (x AND ucast (abi_direct a)) n = bit (0 :: u64) n" for n
      using b(3) [of n] by (auto simp: bit_or_iff bit_and_iff)
  qed
  moreover have "\<not> bit x 20" "\<not> bit x 12" using b(3) [OF or_bit(1) [OF b(1)]] b(3) [OF or_bit(2) [OF b(2)]] .
  ultimately show ?thesis by (simp add: wants_device_def)
qed

lemma wants_device_32: "\<not> direct_or_sync a flags \<Longrightarrow> \<not> wants_device a (ucast flags)"
proof (rule wants_device_64)
  assume "\<not> direct_or_sync a flags"
  then have z: "flags AND (abi_direct a OR O_SYNC OR O_DSYNC) = 0" by (simp add: direct_or_sync_def)
  show "ucast flags AND (ucast (abi_direct a) OR ucast O_SYNC OR ucast O_DSYNC) = (0 :: u64)"
  proof (rule bit_word_eqI)
    show "bit (ucast flags AND (ucast (abi_direct a) OR ucast O_SYNC OR ucast O_DSYNC) :: u64) n = bit (0 :: u64) n" for n
      using and_zero_bit [OF z, of n] by (auto simp: bit_simps)
  qed
qed

lemma scast_ucast_32: "ucast (scast (x :: u32) :: u64) = x"
  by (rule bit_word_eqI) (auto simp: bit_simps)

lemma rwf_bits: "flags AND (RWF_SYNC OR RWF_DSYNC) = 0 \<Longrightarrow> \<not> bit flags 1 \<and> \<not> bit flags 2"
  using and_zero_bit [of flags "RWF_SYNC OR RWF_DSYNC"] sync_bits(3,4) by (auto simp: bit_or_iff)

lemma interpose_refuses:
  assumes "force_pagecache p" and "interpose a p va c = Inr c'"
  shows "\<not> asks_for_storage a c'"
  using assms
  by (cases c) (auto simp: interpose_defs Let_def scast_ucast_32 F_SETFL_def F_GETFD_def F_GETFL_def
      dest: wants_device_64 wants_device_32 rwf_bits split: if_splits option.splits)


text \<open>
  C26 (nothing is flushed before the signal).  Until \<^verbatim>\<open>SIGUSR2\<close> arrives, no call that reaches the C library asks
  for data to be written to the device: flushes are refused, and no file is opened, no descriptor
  switched and no vector written in a direct or synchronous way.
\<close>

theorem gate_holds_back:
  assumes "Sigusr2 \<notin> set es"
  shows "\<forall>c. Inr c \<in> set (life a process_start es) \<longrightarrow> \<not> asks_for_storage a c"
proof -
  have "\<not> asks_for_storage a c" if "Inr c \<in> set (life a p es)" "force_pagecache p" for p c
    using assms that
  proof (induction a p es rule: life.induct)
    case (2 a p c0 va es)
    then show ?case using interpose_refuses by auto
  qed auto
  then show ?thesis by (simp add: process_start_def)
qed

subsection \<open>After the signal\<close>









definition arm64 :: abi where
  "arm64 = \<lparr>abi_direct = 0x10000, abi_directory = 0x4000\<rparr>"

definition ex_before :: "event list" where
  "ex_before = [Call (Fsync 3) 0, Call (Open ''f'' 0x40 (Some 0x1b6)) 0, Call (Open ''f'' 0x10000 None) 0, Call (Open ''f'' 0x101000 None) 0]"

theorem gate_holds_back_witness:
  "life arm64 process_start ex_before = [Inl EOPNOTSUPP, Inr (Open ''f'' 0x40 (Some 0x1b6)), Inl EOPNOTSUPP, Inl EOPNOTSUPP] \<and>
   \<not> asks_for_storage arm64 (Open ''f'' 0x40 (Some 0x1b6))"
proof -
  have l: "life arm64 process_start ex_before = [Inl EOPNOTSUPP, Inr (Open ''f'' 0x40 (Some 0x1b6)), Inl EOPNOTSUPP, Inl EOPNOTSUPP]"
    by (simp add: ex_before_def interpose_defs process_start_def arm64_def direct_or_sync_def needs_mode_def O_CREAT_def O_DSYNC_def O_SYNC_def va_arg_def)
  then show ?thesis
    using gate_holds_back [of ex_before arm64] by (simp add: ex_before_def)
qed


end
