(* ===== verification/Fat_Table.thy ===== *)
theory Fat_Table
  imports Prelude
begin

text \<open>
  The entries of the file allocation table as bytes, after the operations \<^verbatim>\<open>ent_get\<close> and \<^verbatim>\<open>ent_put\<close> of the three variants in
  \<^verbatim>\<open>fat/fatent.c\<close>.  A FAT12 entry is one and a half bytes, so two entries share a byte; FAT16 and FAT32
  entries are little-endian words, of which FAT32 keeps the upper four bits.  The operations here take
  the addresses of the bytes as the source takes pointers; \<open>Fat_Entry\<close> computes the addresses.

  The locale \<open>fat_array\<close> is the interface the rest of the file system relies on: reading back what was written and
  leaving every other entry alone.  It is interpreted for the three variants at the end of the theory.
\<close>

subsection \<open>Constants\<close>

definition FAT_START_ENT :: nat where "FAT_START_ENT = 2"
definition FAT_ENT_FREE :: u32 where "FAT_ENT_FREE = 0"
definition FAT_ENT_EOF :: u32 where "FAT_ENT_EOF = 0x0fffffff"
definition BAD_FAT12 :: u32 where "BAD_FAT12 = 0xff7"
definition BAD_FAT16 :: u32 where "BAD_FAT16 = 0xfff7"
definition BAD_FAT32 :: u32 where "BAD_FAT32 = 0x0ffffff7"
definition EOF_FAT12 :: u32 where "EOF_FAT12 = 0xfff"
definition EOF_FAT16 :: u32 where "EOF_FAT16 = 0xffff"

lemmas fat_consts = FAT_ENT_FREE_def FAT_ENT_EOF_def BAD_FAT12_def BAD_FAT16_def BAD_FAT32_def EOF_FAT12_def EOF_FAT16_def

datatype fatent_operations = fat12_ops | fat16_ops | fat32_ops

type_synonym mem = "nat \<Rightarrow> u8"

subsection \<open>Reading and writing an entry\<close>

definition fat12_ent_get :: "nat \<Rightarrow> nat \<Rightarrow> nat \<Rightarrow> mem \<Rightarrow> u32" where
  "fat12_ent_get entry p0 p1 m =
     (let next = (if odd entry then drop_bit 4 (ucast (m p0)) OR push_bit 4 (ucast (m p1))
                  else push_bit 8 (ucast (m p1)) OR ucast (m p0));
          next = next AND 0x0fff
      in if BAD_FAT12 \<le> next then FAT_ENT_EOF else next)"

definition le16_at :: "nat \<Rightarrow> mem \<Rightarrow> u32" where
  "le16_at p m = ucast (m p) OR push_bit 8 (ucast (m (p + 1)))"

definition le32_at :: "nat \<Rightarrow> mem \<Rightarrow> u32" where
  "le32_at p m = ucast (m p) OR push_bit 8 (ucast (m (p + 1))) OR push_bit 16 (ucast (m (p + 2))) OR
     push_bit 24 (ucast (m (p + 3)))"

definition fat16_ent_get :: "nat \<Rightarrow> mem \<Rightarrow> u32" where
  "fat16_ent_get p m = (let next = le16_at p m in if BAD_FAT16 \<le> next then FAT_ENT_EOF else next)"

definition fat32_ent_get :: "nat \<Rightarrow> mem \<Rightarrow> u32" where
  "fat32_ent_get p m = (let next = le32_at p m AND 0x0fffffff in if BAD_FAT32 \<le> next then FAT_ENT_EOF else next)"

definition fat12_ent_put :: "nat \<Rightarrow> nat \<Rightarrow> nat \<Rightarrow> u32 \<Rightarrow> mem \<Rightarrow> mem" where
  "fat12_ent_put entry p0 p1 new m =
     (let new = (if new = FAT_ENT_EOF then EOF_FAT12 else new)
      in if odd entry
         then m(p0 := ucast (push_bit 4 new) OR (m p0 AND 0x0f), p1 := ucast (drop_bit 4 new))
         else m(p0 := ucast (new AND 0xff), p1 := (m p1 AND 0xf0) OR ucast (drop_bit 8 new)))"

definition put_le16_at :: "nat \<Rightarrow> u32 \<Rightarrow> mem \<Rightarrow> mem" where
  "put_le16_at p v m = m(p := ucast v, p + 1 := ucast (drop_bit 8 v))"

definition put_le32_at :: "nat \<Rightarrow> u32 \<Rightarrow> mem \<Rightarrow> mem" where
  "put_le32_at p v m = m(p := ucast v, p + 1 := ucast (drop_bit 8 v), p + 2 := ucast (drop_bit 16 v), p + 3 := ucast (drop_bit 24 v))"

definition fat16_ent_put :: "nat \<Rightarrow> u32 \<Rightarrow> mem \<Rightarrow> mem" where
  "fat16_ent_put p new m = put_le16_at p (if new = FAT_ENT_EOF then EOF_FAT16 else new) m"

definition fat32_ent_put :: "nat \<Rightarrow> u32 \<Rightarrow> mem \<Rightarrow> mem" where
  "fat32_ent_put p new m = put_le32_at p (new OR (le32_at p m AND NOT 0x0fffffff)) m"

subsection \<open>Round trips\<close>

lemma mask_nums:
  "(0xff :: u32) = mask 8" "(0xfff :: u32) = mask 12" "(0xffff :: u32) = mask 16" "(0x0fffffff :: u32) = mask 28"
  "(0x0f :: u8) = mask 4" "(0xf0 :: u8) = NOT (mask 4)"
  by (simp_all add: mask_eq_exp_minus_1)

lemma small_mask: "v < 2 ^ n \<Longrightarrow> (v :: u32) AND mask n = v"
  by (rule less_mask_eq)

lemma le16_put: "le16_at p (put_le16_at p v m) = v AND mask 16"
  by (rule bit_word_eqI) (auto simp: le16_at_def put_le16_at_def bit_simps)

lemma le32_put: "le32_at p (put_le32_at p v m) = v"
proof (rule bit_word_eqI)
  fix n
  assume "n < LENGTH(32)"
  then consider "n < 8" | "8 \<le> n" "n < 16" | "16 \<le> n" "n < 24" | "24 \<le> n" "n < 32" by fastforce
  then show "bit (le32_at p (put_le32_at p v m)) n = bit v n"
    by cases (auto simp: le32_at_def put_le32_at_def bit_simps)
qed

lemma fat12_bits_same:
  assumes "p1 \<noteq> p0"
  shows "fat12_ent_get e p0 p1 (fat12_ent_put e p0 p1 v m) =
    (let next = (if v = FAT_ENT_EOF then EOF_FAT12 else v) AND mask 12 in if BAD_FAT12 \<le> next then FAT_ENT_EOF else next)"
proof -
  define w where "w = (if v = FAT_ENT_EOF then EOF_FAT12 else v)"
  let ?m = "fat12_ent_put e p0 p1 v m"
  have "(if odd e then drop_bit 4 (ucast (?m p0)) OR push_bit 4 (ucast (?m p1))
      else push_bit 8 (ucast (?m p1)) OR ucast (?m p0)) AND mask 12 = (w AND mask 12 :: u32)"
    using assms by (intro bit_word_eqI) (auto simp: fat12_ent_put_def Let_def mask_nums bit_simps simp flip: w_def)
  then show ?thesis by (simp add: fat12_ent_get_def mask_nums Let_def flip: w_def)
qed

lemma fat16_same: "fat16_ent_get p (fat16_ent_put p v m) =
    (let next = (if v = FAT_ENT_EOF then EOF_FAT16 else v) AND mask 16 in if BAD_FAT16 \<le> next then FAT_ENT_EOF else next)"
  by (simp add: fat16_ent_get_def fat16_ent_put_def le16_put)

lemma and_or_low: "(v OR (x AND NOT (mask 28))) AND mask 28 = (v AND mask 28 :: u32)"
  by (rule bit_word_eqI) (auto simp: bit_simps)

lemma fat32_same: "fat32_ent_get p (fat32_ent_put p v m) =
    (let next = v AND mask 28 in if BAD_FAT32 \<le> next then FAT_ENT_EOF else next)"
  by (simp add: fat32_ent_get_def fat32_ent_put_def le32_put mask_nums and_or_low)

subsection \<open>The table of one variant\<close>

text \<open>Where the bytes of an entry are, counted from the beginning of the table.\<close>

fun ent_offset :: "fatent_operations \<Rightarrow> nat \<Rightarrow> nat" where
  "ent_offset fat12_ops e = e + e div 2"
| "ent_offset fat16_ops e = 2 * e"
| "ent_offset fat32_ops e = 4 * e"

fun table_get :: "fatent_operations \<Rightarrow> nat \<Rightarrow> mem \<Rightarrow> nat \<Rightarrow> u32" where
  "table_get fat12_ops base m e = fat12_ent_get e (base + (e + e div 2)) (base + (e + e div 2) + 1) m"
| "table_get fat16_ops base m e = fat16_ent_get (base + 2 * e) m"
| "table_get fat32_ops base m e = fat32_ent_get (base + 4 * e) m"

fun table_put :: "fatent_operations \<Rightarrow> nat \<Rightarrow> nat \<Rightarrow> u32 \<Rightarrow> mem \<Rightarrow> mem" where
  "table_put fat12_ops base e v m = fat12_ent_put e (base + (e + e div 2)) (base + (e + e div 2) + 1) v m"
| "table_put fat16_ops base e v m = fat16_ent_put (base + 2 * e) v m"
| "table_put fat32_ops base e v m = fat32_ent_put (base + 4 * e) v m"

fun bad_of :: "fatent_operations \<Rightarrow> u32" where
  "bad_of fat12_ops = BAD_FAT12"
| "bad_of fat16_ops = BAD_FAT16"
| "bad_of fat32_ops = BAD_FAT32"

lemma masked_same:
  assumes "v < bad \<or> v = FAT_ENT_EOF" and "bad < 2 ^ n" and "bad \<le> eof AND mask n" and "bad \<le> FAT_ENT_EOF"
  shows "(let next = (if v = FAT_ENT_EOF then eof else v) AND mask n in if bad \<le> next then FAT_ENT_EOF else next) = v"
proof (cases "v = FAT_ENT_EOF")
  case False
  then have "v < bad" using assms(1) by simp
  moreover then have "v AND mask n = v" using assms(2) by (intro small_mask) (rule less_trans)
  ultimately show ?thesis using False by (simp add: Let_def not_le)
qed (use assms in \<open>simp add: Let_def\<close>)

lemma table_get_put_same:
  assumes "v < bad_of ops \<or> v = FAT_ENT_EOF"
  shows "table_get ops base (table_put ops base e v m) e = v"
proof (cases ops)
  case fat12_ops
  then show ?thesis using assms masked_same [of v BAD_FAT12 12 EOF_FAT12] by (simp add: fat12_bits_same fat_consts mask_eq_exp_minus_1)
next
  case fat16_ops
  then show ?thesis using assms masked_same [of v BAD_FAT16 16 EOF_FAT16] by (simp add: fat16_same fat_consts mask_eq_exp_minus_1)
next
  case fat32_ops
  then show ?thesis using assms masked_same [of v BAD_FAT32 28 FAT_ENT_EOF] by (simp add: fat32_same fat_consts mask_eq_exp_minus_1 split: if_splits)
qed

lemma fat12_get_cong: "m p0 = m' p0 \<Longrightarrow> m p1 = m' p1 \<Longrightarrow> fat12_ent_get e p0 p1 m = fat12_ent_get e p0 p1 m'"
  by (simp add: fat12_ent_get_def)

lemma fat12_put_other: "x \<noteq> p0 \<Longrightarrow> x \<noteq> p1 \<Longrightarrow> fat12_ent_put e p0 p1 v m x = m x"
  by (simp add: fat12_ent_put_def Let_def)

text \<open>The two entries that share the middle one of three bytes.\<close>

lemma fat12_pair_even:
  "even e \<Longrightarrow> fat12_ent_get e p (p + 1) (fat12_ent_put (Suc e) (p + 1) (p + 2) v m) = fat12_ent_get e p (p + 1) m"
proof -
  assume e: "even e"
  let ?m = "fat12_ent_put (Suc e) (p + 1) (p + 2) v m"
  have "(push_bit 8 (ucast (?m (p + 1))) OR ucast (?m p)) AND mask 12 = ((push_bit 8 (ucast (m (p + 1))) OR ucast (m p)) AND mask 12 :: u32)"
    using e by (intro bit_word_eqI) (auto simp: fat12_ent_put_def Let_def mask_nums bit_simps)
  then show ?thesis using e by (simp add: fat12_ent_get_def mask_nums)
qed

lemma fat12_high_bits:
  assumes "v < BAD_FAT12 \<or> v = FAT_ENT_EOF"
  shows "\<not> bit (if v = FAT_ENT_EOF then EOF_FAT12 else v) (12 + n)"
proof -
  define w where "w = (if v = FAT_ENT_EOF then EOF_FAT12 else v)"
  have "w < 2 ^ 12"
    using assms by (auto simp: w_def fat_consts intro: less_trans)
  then have "w AND mask 12 = w" by (rule small_mask)
  then have "bit w (12 + n) = bit (w AND mask 12) (12 + n)" by simp
  then show ?thesis by (simp add: bit_simps flip: w_def)
qed

lemma fat12_pair_odd:
  assumes "even e" and "v < BAD_FAT12 \<or> v = FAT_ENT_EOF"
  shows "fat12_ent_get (Suc e) (p + 1) (p + 2) (fat12_ent_put e p (p + 1) v m) = fat12_ent_get (Suc e) (p + 1) (p + 2) m"
proof -
  define w where "w = (if v = FAT_ENT_EOF then EOF_FAT12 else v)"
  let ?m = "fat12_ent_put e p (p + 1) v m"
  have hi: "\<not> bit w (12 + n)" for n using fat12_high_bits [OF assms(2)] by (simp add: w_def)
  have m: "?m (p + 1) = (m (p + 1) AND 0xf0) OR ucast (drop_bit 8 w)" "?m (p + 2) = m (p + 2)"
    using assms(1) by (simp_all add: fat12_ent_put_def Let_def w_def)
  have "drop_bit 4 (ucast (?m (p + 1))) = (drop_bit 4 (ucast (m (p + 1))) :: u32)"
    unfolding m mask_nums using hi by (intro bit_word_eqI) (auto simp: bit_simps dest: bit_imp_le_length)
  then show ?thesis using assms(1) m(2) by (simp add: fat12_ent_get_def)
qed

lemma fat12_other:
  assumes "e \<noteq> e'" and "v < BAD_FAT12 \<or> v = FAT_ENT_EOF"
  shows "table_get fat12_ops base (table_put fat12_ops base e v m) e' = table_get fat12_ops base m e'"
proof -
  have two: "e = 2 * (e div 2) + (if even e then 0 else 1)" "e' = 2 * (e' div 2) + (if even e' then 0 else 1)"
    by (auto elim!: evenE oddE)
  have "(even e' \<and> e = Suc e') \<or> (even e \<and> e' = Suc e) \<or>
      (e' + e' div 2 + 1 < e + e div 2 \<or> e + e div 2 + 1 < e' + e' div 2)"
    using two assms(1) by (cases "e div 2" "e' div 2" rule: linorder_cases) (auto split: if_splits)
  then consider (even) "even e'" "e = Suc e'" | (odd) "even e" "e' = Suc e"
    | (far) "e' + e' div 2 + 1 < e + e div 2 \<or> e + e div 2 + 1 < e' + e' div 2"
    by blast
  then show ?thesis
  proof cases
    case even
    then have "e div 2 = e' div 2" by (auto elim!: evenE)
    then show ?thesis using even fat12_pair_even [of e' "base + (e' + e' div 2)" v m] by (simp add: algebra_simps)
  next
    case odd
    then have "e' div 2 = e div 2" by (auto elim!: evenE)
    then show ?thesis using odd fat12_pair_odd [of e v "base + (e + e div 2)" m] assms(2) by (simp add: algebra_simps)
  next
    case far
    then show ?thesis by (auto intro!: fat12_get_cong fat12_put_other)
  qed
qed

lemma table_get_put_other:
  assumes "e \<noteq> e'" and "v < bad_of ops \<or> v = FAT_ENT_EOF"
  shows "table_get ops base (table_put ops base e v m) e' = table_get ops base m e'"
proof (cases ops)
  case fat12_ops
  then show ?thesis using fat12_other assms by simp
next
  case fat16_ops
  then show ?thesis using assms(1)
    by (auto simp: fat16_ent_get_def fat16_ent_put_def put_le16_at_def le16_at_def)
next
  case fat32_ops
  then show ?thesis using assms(1)
    by (auto simp: fat32_ent_get_def fat32_ent_put_def put_le32_at_def le32_at_def)
qed

subsection \<open>The interface\<close>

text \<open>
  A chain is the list of clusters of a file; each entry holds the number of the next cluster, the last one
  holds \<open>x\<close>, for a whole file the end mark.
\<close>

fun chain :: "(nat \<Rightarrow> u32) \<Rightarrow> nat list \<Rightarrow> u32 \<Rightarrow> bool" where
  "chain f [] x = True"
| "chain f [c] x = (f c = x)"
| "chain f (c # d # cs) x = (f c = of_nat d \<and> chain f (d # cs) x)"

lemma chain_cong: "(\<And>c. c \<in> set cs \<Longrightarrow> f c = g c) \<Longrightarrow> chain f cs x = chain g cs x"
  by (induction f cs x rule: chain.induct) auto

lemma chain_append: "chain f (cs @ [c]) x \<longleftrightarrow> chain f cs (of_nat c) \<and> f c = x"
  by (induction f cs "of_nat c :: u32" rule: chain.induct) auto

lemma chain_nth: "chain f cs x \<Longrightarrow> Suc i < length cs \<Longrightarrow> f (cs ! i) = of_nat (cs ! Suc i)"
proof (induction f cs x arbitrary: i rule: chain.induct)
  case (3 f c d cs x)
  then show ?case by (cases i) auto
qed auto

lemma chain_last: "chain f cs x \<Longrightarrow> cs \<noteq> [] \<Longrightarrow> f (last cs) = x"
  by (induction f cs x rule: chain.induct) auto

lemma chain_drop: "chain f cs x \<Longrightarrow> chain f (drop n cs) x"
proof (induction n arbitrary: cs)
  case (Suc n)
  then show ?case by (cases cs rule: remdups_adj.cases) auto
qed simp

locale fat_array =
  fixes get :: "'m \<Rightarrow> nat \<Rightarrow> u32" and put :: "nat \<Rightarrow> u32 \<Rightarrow> 'm \<Rightarrow> 'm" and bad :: u32
  assumes get_put_same: "v < bad \<or> v = FAT_ENT_EOF \<Longrightarrow> get (put e v m) e = v"
    and get_put_other: "e \<noteq> e' \<Longrightarrow> v < bad \<or> v = FAT_ENT_EOF \<Longrightarrow> get (put e v m) e' = get m e'"
    and get_range: "get m e < bad \<or> get m e = FAT_ENT_EOF"
    and bad_range: "0 < bad" "bad \<le> FAT_ENT_EOF"
begin

lemma get_put: "v < bad \<or> v = FAT_ENT_EOF \<Longrightarrow> get (put e v m) = (get m)(e := v)"
  by (auto simp: get_put_same get_put_other)

lemma free_ok: "FAT_ENT_FREE < bad \<or> FAT_ENT_FREE = FAT_ENT_EOF"
  using bad_range by (simp add: FAT_ENT_FREE_def)

lemma get_fold_free: "get (fold (\<lambda>c. put c FAT_ENT_FREE) cs m) e = (if e \<in> set cs then FAT_ENT_FREE else get m e)"
  by (induction cs arbitrary: m) (auto simp: get_put [OF free_ok])

lemma chain_put_other:
  "e \<notin> set cs \<Longrightarrow> v < bad \<or> v = FAT_ENT_EOF \<Longrightarrow> chain (get (put e v m)) cs x = chain (get m) cs x"
  by (rule chain_cong) (auto simp: get_put)

text \<open>Appending a cluster to a chain: mark it as the end, then link the old end to it.\<close>

lemma chain_extend:
  assumes "chain (get m) cs FAT_ENT_EOF" and "cs \<noteq> []" and "distinct cs" and "c \<notin> set cs" and "of_nat c < bad"
  shows "chain (get (put (last cs) (of_nat c) (put c FAT_ENT_EOF m))) (cs @ [c]) FAT_ENT_EOF"
proof -
  have g: "get (put (last cs) (of_nat c) (put c FAT_ENT_EOF m)) = (get m)(c := FAT_ENT_EOF, last cs := of_nat c)"
    using assms(5) by (simp add: get_put)
  have ne: "c \<noteq> last cs" using assms(2,4) by auto
  have bl: "last cs \<notin> set (butlast cs)"
    using assms(2,3) by (metis append_butlast_last_id distinct.simps(2) distinct1_rotate rotate1.simps(2))
  have "chain (get m) (butlast cs) (of_nat (last cs))"
    using assms(1,2) chain_append [of "get m" "butlast cs" "last cs"] by simp
  then have "chain ((get m)(c := FAT_ENT_EOF, last cs := of_nat c)) (butlast cs) (of_nat (last cs))"
    using bl assms(4) by (subst chain_cong [where g = "get m"]) (auto dest: in_set_butlastD)
  then have "chain ((get m)(c := FAT_ENT_EOF, last cs := of_nat c)) (butlast cs @ [last cs]) (of_nat c)"
    by (subst chain_append) simp
  then show ?thesis
    using assms(2) ne by (simp add: g chain_append)
qed

end

lemma table_get_range: "table_get ops base m e < bad_of ops \<or> table_get ops base m e = FAT_ENT_EOF"
  by (cases ops) (auto simp: fat12_ent_get_def fat16_ent_get_def fat32_ent_get_def Let_def)

interpretation tab: fat_array "table_get ops base" "table_put ops base" "bad_of ops" for ops base
proof
  show "table_get ops base (table_put ops base e v m) e = v" if "v < bad_of ops \<or> v = FAT_ENT_EOF" for e v m
    using that by (rule table_get_put_same)
  show "table_get ops base (table_put ops base e v m) e' = table_get ops base m e'"
    if "e \<noteq> e'" "v < bad_of ops \<or> v = FAT_ENT_EOF" for e e' v m
    using that by (rule table_get_put_other)
  show "table_get ops base m e < bad_of ops \<or> table_get ops base m e = FAT_ENT_EOF" for m e
    by (rule table_get_range)
  show "0 < bad_of ops" "bad_of ops \<le> FAT_ENT_EOF"
    by (cases ops; simp add: fat_consts)+
qed

text \<open>
  C14 (an entry written is the entry read).  In each of the three variants, storing a cluster number below the bad-cluster mark or the end mark in an entry makes
  reading that entry give it back and leaves what reading every other entry gives, also for the two FAT12 entries that share a byte.
\<close>

theorem table_update:
  assumes "v < bad_of ops \<or> v = FAT_ENT_EOF"
  shows "table_get ops base (table_put ops base e v m) = (table_get ops base m)(e := v)"
  using tab.get_put [OF assms] .

theorem table_update_witness:
  "table_get fat12_ops 0 (table_put fat12_ops 0 3 0x123 (\<lambda>_. 0xab)) 3 = 0x123 \<and>
   table_get fat12_ops 0 (table_put fat12_ops 0 3 0x123 (\<lambda>_. 0xab)) 2 = 0xbab"
proof -
  have "table_get fat12_ops 0 (\<lambda>_. 0xab) 2 = 0xbab" by code_simp
  then show ?thesis
    using table_update [of "0x123" fat12_ops 0 3 "\<lambda>_. 0xab"] by (simp add: fat_consts)
qed

end
