(* ===== verification/Fat_Entry.thy ===== *)
theory Fat_Entry
  imports Fat_Table
begin

text \<open>
  Access to the file allocation table through the buffer cache, after \<^verbatim>\<open>fat/fatent.c\<close> and the helpers of \<^verbatim>\<open>fat/fat.h\<close>:
  finding the block and the offset of an entry, reading the block, following the entries of a block, reading and
  writing an entry and mirroring changed blocks into the copies of the table.

  The buffer cache is one memory \<open>fdev\<close> indexed by byte address, block number times block size plus
  offset, since all buffer heads of a block share its data; a pointer of \<^verbatim>\<open>struct fat_entry\<close> is such an address.
  Whether a block can be read, a buffer obtained or written out is decided by the script \<open>faults\<close>; an
  exhausted script means success.  Reference counts, locks and messages have no counterpart.
\<close>

subsection \<open>State\<close>

datatype fat_errors = FAT_ERRORS_CONT | FAT_ERRORS_PANIC | FAT_ERRORS_RO

record fat_mount_options =
  fs_fmask :: u16
  fs_dmask :: u16
  time_offset :: int
  sys_immutable :: bool
  showexec :: bool
  isvfat :: bool
  usefree :: bool
  tz_set :: bool
  rodir :: bool
  dos1xfloppy :: bool

record fat_fs =
  s_blocksize :: nat
  s_blocksize_bits :: nat
  s_rdonly :: bool
  s_synchronous :: bool
  fat_bits :: nat
  fats :: nat
  fat_start :: nat
  fat_length :: nat
  max_cluster :: nat
  prev_free :: u32
  free_clusters :: u32
  free_clus_valid :: bool
  sec_per_clus :: nat
  data_start :: nat
  opt_discard :: bool
  opt_errors :: fat_errors
  fatent_shift :: int
  fatent_ops :: fatent_operations
  fsinfo_dirty :: bool
  panicked :: bool
  discarded :: "(nat \<times> nat) list"
  fdev :: mem
  faults :: "bool list"
  cluster_bits :: nat
  s_maxbytes :: nat
  dir_start :: nat
  dir_entries :: nat
  dir_per_block_bits :: nat
  root_cluster :: nat
  fsinfo_sector :: nat
  options :: fat_mount_options
  tz_minuteswest :: int

record fat_entry =
  entry :: nat
  ent_p0 :: "nat option"
  ent_p1 :: "nat option"
  nr_bhs :: nat
  bhs :: "nat list"

definition fallible :: "errno \<Rightarrow> (fat_fs, errno + unit) state" where
  "fallible e = State (\<lambda>fs. case faults fs of
      [] \<Rightarrow> (Inr (), fs)
    | f # r \<Rightarrow> (if f then Inl e else Inr (), fs\<lparr>faults := r\<rparr>))"

definition upd_fs :: "(fat_fs \<Rightarrow> fat_fs) \<Rightarrow> (fat_fs, unit) state" where
  "upd_fs f = State (\<lambda>fs. ((), f fs))"

definition fat_fs_error :: "(fat_fs, unit) state" where
  "fat_fs_error = upd_fs (\<lambda>fs. case opt_errors fs of
      FAT_ERRORS_PANIC \<Rightarrow> fs\<lparr>panicked := True\<rparr>
    | FAT_ERRORS_RO \<Rightarrow> if \<not> s_rdonly fs then fs\<lparr>s_rdonly := True\<rparr> else fs
    | FAT_ERRORS_CONT \<Rightarrow> fs)"

definition is_fat12 :: "fat_fs \<Rightarrow> bool" where "is_fat12 fs \<longleftrightarrow> fat_bits fs = 12"
definition is_fat16 :: "fat_fs \<Rightarrow> bool" where "is_fat16 fs \<longleftrightarrow> fat_bits fs = 16"
definition is_fat32 :: "fat_fs \<Rightarrow> bool" where "is_fat32 fs \<longleftrightarrow> fat_bits fs = 32"

definition fat_ent_access_init :: "(fat_fs, unit) state" where
  "fat_ent_access_init = do {
     fs \<leftarrow> State_Monad.get;
     if is_fat32 fs then upd_fs (\<lambda>fs. fs\<lparr>fatent_shift := 2, fatent_ops := fat32_ops\<rparr>)
     else if is_fat16 fs then upd_fs (\<lambda>fs. fs\<lparr>fatent_shift := 1, fatent_ops := fat16_ops\<rparr>)
     else if is_fat12 fs then upd_fs (\<lambda>fs. fs\<lparr>fatent_shift := - 1, fatent_ops := fat12_ops\<rparr>)
     else fat_fs_error
   }"

definition fat_valid_entry :: "fat_fs \<Rightarrow> int \<Rightarrow> bool" where
  "fat_valid_entry fs e \<longleftrightarrow> int FAT_START_ENT \<le> e \<and> e < int (max_cluster fs)"

definition fatent_init :: fat_entry where
  "fatent_init = \<lparr>entry = 0, ent_p0 = None, ent_p1 = None, nr_bhs = 0, bhs = []\<rparr>"

definition fatent_set_entry :: "fat_entry \<Rightarrow> nat \<Rightarrow> fat_entry" where
  "fatent_set_entry fe e = fe\<lparr>entry := e, ent_p0 := None\<rparr>"

definition fatent_brelse :: "fat_entry \<Rightarrow> fat_entry" where
  "fatent_brelse fe = fe\<lparr>ent_p0 := None, nr_bhs := 0, bhs := []\<rparr>"

subsection \<open>Addresses\<close>

definition fat12_ent_blocknr :: "fat_fs \<Rightarrow> nat \<Rightarrow> nat \<times> nat" where
  "fat12_ent_blocknr fs e =
     (let bytes = e + drop_bit 1 e
      in (bytes AND (s_blocksize fs - 1), fat_start fs + drop_bit (s_blocksize_bits fs) bytes))"

definition fat_ent_blocknr :: "fat_fs \<Rightarrow> nat \<Rightarrow> nat \<times> nat" where
  "fat_ent_blocknr fs e =
     (let bytes = push_bit (nat (fatent_shift fs)) e
      in (bytes AND (s_blocksize fs - 1), fat_start fs + drop_bit (s_blocksize_bits fs) bytes))"

fun ent_blocknr :: "fat_fs \<Rightarrow> fatent_operations \<Rightarrow> nat \<Rightarrow> nat \<times> nat" where
  "ent_blocknr fs fat12_ops e = fat12_ent_blocknr fs e"
| "ent_blocknr fs fat16_ops e = fat_ent_blocknr fs e"
| "ent_blocknr fs fat32_ops e = fat_ent_blocknr fs e"

definition b_data :: "fat_fs \<Rightarrow> nat \<Rightarrow> nat" where
  "b_data fs b = b * s_blocksize fs"

definition fat12_ent_set_ptr :: "fat_fs \<Rightarrow> fat_entry \<Rightarrow> nat \<Rightarrow> fat_entry" where
  "fat12_ent_set_ptr fs fe offset =
     (if nr_bhs fe = 1
      then fe\<lparr>ent_p0 := Some (b_data fs (bhs fe ! 0) + offset), ent_p1 := Some (b_data fs (bhs fe ! 0) + (offset + 1))\<rparr>
      else fe\<lparr>ent_p0 := Some (b_data fs (bhs fe ! 0) + offset), ent_p1 := Some (b_data fs (bhs fe ! 1))\<rparr>)"

definition fat16_ent_set_ptr :: "fat_fs \<Rightarrow> fat_entry \<Rightarrow> nat \<Rightarrow> fat_entry" where
  "fat16_ent_set_ptr fs fe offset = fe\<lparr>ent_p0 := Some (b_data fs (bhs fe ! 0) + offset)\<rparr>"

definition fat32_ent_set_ptr :: "fat_fs \<Rightarrow> fat_entry \<Rightarrow> nat \<Rightarrow> fat_entry" where
  "fat32_ent_set_ptr fs fe offset = fe\<lparr>ent_p0 := Some (b_data fs (bhs fe ! 0) + offset)\<rparr>"

fun ent_set_ptr :: "fat_fs \<Rightarrow> fatent_operations \<Rightarrow> fat_entry \<Rightarrow> nat \<Rightarrow> fat_entry" where
  "ent_set_ptr fs fat12_ops fe offset = fat12_ent_set_ptr fs fe offset"
| "ent_set_ptr fs fat16_ops fe offset = fat16_ent_set_ptr fs fe offset"
| "ent_set_ptr fs fat32_ops fe offset = fat32_ent_set_ptr fs fe offset"

definition sb_bread :: "nat \<Rightarrow> (fat_fs, errno + unit) state" where
  "sb_bread b = fallible EIO"

definition fat12_ent_bread :: "fat_entry \<Rightarrow> nat \<Rightarrow> nat \<Rightarrow> (fat_fs, (errno + unit) \<times> fat_entry) state" where
  "fat12_ent_bread fe offset blocknr = do {
     fs \<leftarrow> State_Monad.get;
     b0 \<leftarrow> sb_bread blocknr;
     case b0 of
       Inl _ \<Rightarrow> ret (Inl EIO, fe)
     | Inr _ \<Rightarrow>
         if offset + 1 < s_blocksize fs
         then ret (Inr (), fat12_ent_set_ptr fs (fe\<lparr>nr_bhs := 1, bhs := [blocknr]\<rparr>) offset)
         else do {
           b1 \<leftarrow> sb_bread (blocknr + 1);
           case b1 of
             Inl _ \<Rightarrow> ret (Inl EIO, fe)
           | Inr _ \<Rightarrow> ret (Inr (), fat12_ent_set_ptr fs (fe\<lparr>nr_bhs := 2, bhs := [blocknr, blocknr + 1]\<rparr>) offset)
         }
   }"

definition fat_ent_bread :: "fat_entry \<Rightarrow> nat \<Rightarrow> nat \<Rightarrow> (fat_fs, (errno + unit) \<times> fat_entry) state" where
  "fat_ent_bread fe offset blocknr = do {
     fs \<leftarrow> State_Monad.get;
     b0 \<leftarrow> sb_bread blocknr;
     case b0 of
       Inl _ \<Rightarrow> ret (Inl EIO, fe)
     | Inr _ \<Rightarrow> ret (Inr (), ent_set_ptr fs (fatent_ops fs) (fe\<lparr>nr_bhs := 1, bhs := [blocknr]\<rparr>) offset)
   }"

fun ent_bread :: "fatent_operations \<Rightarrow> fat_entry \<Rightarrow> nat \<Rightarrow> nat \<Rightarrow> (fat_fs, (errno + unit) \<times> fat_entry) state" where
  "ent_bread fat12_ops fe offset blocknr = fat12_ent_bread fe offset blocknr"
| "ent_bread fat16_ops fe offset blocknr = fat_ent_bread fe offset blocknr"
| "ent_bread fat32_ops fe offset blocknr = fat_ent_bread fe offset blocknr"

subsection \<open>The operations of a variant\<close>

definition ent_get :: "fat_fs \<Rightarrow> fat_entry \<Rightarrow> u32" where
  "ent_get fs fe =
     (case fatent_ops fs of
        fat12_ops \<Rightarrow> fat12_ent_get (entry fe) (the (ent_p0 fe)) (the (ent_p1 fe)) (fdev fs)
      | fat16_ops \<Rightarrow> fat16_ent_get (the (ent_p0 fe)) (fdev fs)
      | fat32_ops \<Rightarrow> fat32_ent_get (the (ent_p0 fe)) (fdev fs))"

definition ent_put :: "fat_entry \<Rightarrow> u32 \<Rightarrow> fat_fs \<Rightarrow> fat_fs" where
  "ent_put fe new fs =
     fs\<lparr>fdev := (case fatent_ops fs of
        fat12_ops \<Rightarrow> fat12_ent_put (entry fe) (the (ent_p0 fe)) (the (ent_p1 fe)) new (fdev fs)
      | fat16_ops \<Rightarrow> fat16_ent_put (the (ent_p0 fe)) new (fdev fs)
      | fat32_ops \<Rightarrow> fat32_ent_put (the (ent_p0 fe)) new (fdev fs))\<rparr>"

definition fat12_ent_next :: "fat_fs \<Rightarrow> fat_entry \<Rightarrow> bool \<times> fat_entry" where
  "fat12_ent_next fs fe =
     (let nextp = the (ent_p1 fe) + 1 + entry fe mod 2;
          fe = fe\<lparr>entry := entry fe + 1\<rparr>
      in if nr_bhs fe = 1
         then if nextp < b_data fs (bhs fe ! 0) + (s_blocksize fs - 1)
              then (True, fe\<lparr>ent_p0 := Some (nextp - 1), ent_p1 := Some nextp\<rparr>)
              else (False, fe\<lparr>ent_p0 := None, ent_p1 := None\<rparr>)
         else (True, fe\<lparr>ent_p0 := Some (nextp - 1), ent_p1 := Some nextp, bhs := [bhs fe ! 1], nr_bhs := 1\<rparr>))"

definition fat16_ent_next :: "fat_fs \<Rightarrow> fat_entry \<Rightarrow> bool \<times> fat_entry" where
  "fat16_ent_next fs fe =
     (let fe = fe\<lparr>entry := entry fe + 1\<rparr>
      in if the (ent_p0 fe) < b_data fs (bhs fe ! 0) + (s_blocksize fs - 2)
         then (True, fe\<lparr>ent_p0 := Some (the (ent_p0 fe) + 2)\<rparr>)
         else (False, fe\<lparr>ent_p0 := None\<rparr>))"

definition fat32_ent_next :: "fat_fs \<Rightarrow> fat_entry \<Rightarrow> bool \<times> fat_entry" where
  "fat32_ent_next fs fe =
     (let fe = fe\<lparr>entry := entry fe + 1\<rparr>
      in if the (ent_p0 fe) < b_data fs (bhs fe ! 0) + (s_blocksize fs - 4)
         then (True, fe\<lparr>ent_p0 := Some (the (ent_p0 fe) + 4)\<rparr>)
         else (False, fe\<lparr>ent_p0 := None\<rparr>))"

fun ent_next :: "fat_fs \<Rightarrow> fatent_operations \<Rightarrow> fat_entry \<Rightarrow> bool \<times> fat_entry" where
  "ent_next fs fat12_ops fe = fat12_ent_next fs fe"
| "ent_next fs fat16_ops fe = fat16_ent_next fs fe"
| "ent_next fs fat32_ops fe = fat32_ent_next fs fe"

subsection \<open>Reading, writing and mirroring\<close>

definition mark_fsinfo_dirty :: "fat_fs \<Rightarrow> fat_fs" where
  "mark_fsinfo_dirty fs = (if s_rdonly fs \<or> \<not> is_fat32 fs then fs else fs\<lparr>fsinfo_dirty := True\<rparr>)"

definition fat_ent_update_ptr :: "fat_fs \<Rightarrow> fat_entry \<Rightarrow> nat \<Rightarrow> nat \<Rightarrow> bool \<times> fat_entry" where
  "fat_ent_update_ptr fs fe offset blocknr =
     (if nr_bhs fe = 0 \<or> bhs fe ! 0 \<noteq> blocknr then (False, fe)
      else if is_fat12 fs
      then if offset + 1 < s_blocksize fs
           then (let fe = (if nr_bhs fe = 2 then fe\<lparr>nr_bhs := 1, bhs := [bhs fe ! 0]\<rparr> else fe)
                 in (True, ent_set_ptr fs (fatent_ops fs) fe offset))
           else if nr_bhs fe \<noteq> 2 then (False, fe)
           else if bhs fe ! 1 \<noteq> blocknr + 1 then (False, fe)
           else (True, ent_set_ptr fs (fatent_ops fs) fe offset)
      else (True, ent_set_ptr fs (fatent_ops fs) fe offset))"

definition fat_ent_read :: "fat_entry \<Rightarrow> int \<Rightarrow> (fat_fs, (errno + u32) \<times> fat_entry) state" where
  "fat_ent_read fe e = do {
     fs \<leftarrow> State_Monad.get;
     if \<not> fat_valid_entry fs e
     then do { fat_fs_error; ret (Inl EIO, fatent_brelse fe) }
     else (let fe = fatent_set_entry fe (nat e);
               (offset, blocknr) = ent_blocknr fs (fatent_ops fs) (nat e);
               (hit, fe) = fat_ent_update_ptr fs fe offset blocknr
           in if hit then ret (Inr (ent_get fs fe), fe)
              else do {
                (r, fe) \<leftarrow> ent_bread (fatent_ops fs) (fatent_brelse fe) offset blocknr;
                case r of
                  Inl err \<Rightarrow> ret (Inl err, fe)
                | Inr _ \<Rightarrow> do { fs \<leftarrow> State_Monad.get; ret (Inr (ent_get fs fe), fe) }
              })
   }"

definition copy_block :: "nat \<Rightarrow> nat \<Rightarrow> fat_fs \<Rightarrow> fat_fs" where
  "copy_block dst src fs =
     fs\<lparr>fdev := (\<lambda>a. if dst * s_blocksize fs \<le> a \<and> a < dst * s_blocksize fs + s_blocksize fs
                     then fdev fs (a - dst * s_blocksize fs + src * s_blocksize fs) else fdev fs a)\<rparr>"

fun mirror_blocks :: "nat \<Rightarrow> nat list \<Rightarrow> (fat_fs, errno + unit) state" where
  "mirror_blocks backup_fat [] = ret (Inr ())"
| "mirror_blocks backup_fat (b # bs) = do {
     c_bh \<leftarrow> fallible ENOMEM;
     case c_bh of
       Inl e \<Rightarrow> ret (Inl e)
     | Inr _ \<Rightarrow> do {
         _ \<leftarrow> upd_fs (copy_block (backup_fat + b) b);
         fs \<leftarrow> State_Monad.get;
         err \<leftarrow> (if s_synchronous fs then fallible EIO else ret (Inr ()));
         case err of
           Inl e \<Rightarrow> ret (Inl e)
         | Inr _ \<Rightarrow> mirror_blocks backup_fat bs
       }
   }"

fun mirror_copies :: "nat list \<Rightarrow> nat list \<Rightarrow> (fat_fs, errno + unit) state" where
  "mirror_copies [] bs = ret (Inr ())"
| "mirror_copies (copy # copies) bs = do {
     fs \<leftarrow> State_Monad.get;
     r \<leftarrow> mirror_blocks (fat_length fs * copy) bs;
     case r of
       Inl e \<Rightarrow> ret (Inl e)
     | Inr _ \<Rightarrow> mirror_copies copies bs
   }"

definition fat_mirror_bhs :: "nat list \<Rightarrow> (fat_fs, errno + unit) state" where
  "fat_mirror_bhs bs = do {
     fs \<leftarrow> State_Monad.get;
     mirror_copies [1..<fats fs] bs
   }"

text \<open>All buffers are submitted, then all are waited for; any failure is reported at the end.\<close>

fun fat_sync_bhs :: "nat list \<Rightarrow> (fat_fs, errno + unit) state" where
  "fat_sync_bhs [] = ret (Inr ())"
| "fat_sync_bhs (b # bs) = do {
     r \<leftarrow> fallible EIO;
     rest \<leftarrow> fat_sync_bhs bs;
     ret (case r of Inl e \<Rightarrow> Inl e | Inr _ \<Rightarrow> rest)
   }"

definition fat_ent_write :: "fat_entry \<Rightarrow> u32 \<Rightarrow> bool \<Rightarrow> (fat_fs, errno + unit) state" where
  "fat_ent_write fe new wait = do {
     _ \<leftarrow> upd_fs (ent_put fe new);
     r \<leftarrow> (if wait then fat_sync_bhs (bhs fe) else ret (Inr ()));
     case r of
       Inl e \<Rightarrow> ret (Inl e)
     | Inr _ \<Rightarrow> fat_mirror_bhs (bhs fe)
   }"

definition fat_ent_next :: "fat_fs \<Rightarrow> fat_entry \<Rightarrow> bool \<times> fat_entry" where
  "fat_ent_next fs fe =
     (case ent_next fs (fatent_ops fs) fe of
        (again, fe) \<Rightarrow> (again \<and> entry fe < max_cluster fs, fe))"

definition fat_ent_read_block :: "fat_entry \<Rightarrow> (fat_fs, (errno + unit) \<times> fat_entry) state" where
  "fat_ent_read_block fe = do {
     fs \<leftarrow> State_Monad.get;
     (let (offset, blocknr) = ent_blocknr fs (fatent_ops fs) (entry fe)
      in ent_bread (fatent_ops fs) (fatent_brelse fe) offset blocknr)
   }"

fun fat_collect_bhs :: "nat list \<Rightarrow> nat list \<Rightarrow> nat list" where
  "fat_collect_bhs collected [] = collected"
| "fat_collect_bhs collected (b # bs) =
     fat_collect_bhs (if b \<in> set collected then collected else collected @ [b]) bs"

definition fat_clus_to_blknr :: "fat_fs \<Rightarrow> int \<Rightarrow> nat" where
  "fat_clus_to_blknr fs clus = nat ((clus - int FAT_START_ENT) * int (sec_per_clus fs) + int (data_start fs))"

subsection \<open>Well-formed file systems\<close>

text \<open>What no operation of this theory changes.\<close>

definition geometry :: "fat_fs \<Rightarrow> (nat \<times> nat \<times> bool \<times> nat \<times> nat) \<times> (nat \<times> nat \<times> nat \<times> nat \<times> nat) \<times>
    (bool \<times> fat_errors \<times> int \<times> fatent_operations) \<times> (nat \<times> nat \<times> nat \<times> nat \<times> nat) \<times>
    nat \<times> nat \<times> fat_mount_options \<times> int" where
  "geometry fs = ((s_blocksize fs, s_blocksize_bits fs, s_synchronous fs, fat_bits fs, fats fs),
     (fat_start fs, fat_length fs, max_cluster fs, sec_per_clus fs, data_start fs),
     (opt_discard fs, opt_errors fs, fatent_shift fs, fatent_ops fs),
     (cluster_bits fs, s_maxbytes fs, dir_start fs, dir_entries fs, dir_per_block_bits fs),
     root_cluster fs, fsinfo_sector fs, options fs, tz_minuteswest fs)"

definition wf_fat :: "fat_fs \<Rightarrow> bool" where
  "wf_fat fs \<longleftrightarrow> s_blocksize fs = 2 ^ s_blocksize_bits fs \<and> 2 \<le> s_blocksize_bits fs \<and> 2 \<le> max_cluster fs \<and>
     max_cluster fs \<le> unat (bad_of (fatent_ops fs)) \<and> max_cluster fs * fat_bits fs \<le> fat_length fs * s_blocksize fs * 8 \<and>
     (case fatent_ops fs of
        fat12_ops \<Rightarrow> fat_bits fs = 12
      | fat16_ops \<Rightarrow> fat_bits fs = 16 \<and> fatent_shift fs = 1
      | fat32_ops \<Rightarrow> fat_bits fs = 32 \<and> fatent_shift fs = 2)"

definition fbase :: "fat_fs \<Rightarrow> nat" where
  "fbase fs = fat_start fs * s_blocksize fs"

definition ftab :: "fat_fs \<Rightarrow> nat \<Rightarrow> u32" where
  "ftab fs = table_get (fatent_ops fs) (fbase fs) (fdev fs)"

text \<open>The blocks an entry lies in, and an entry structure that is positioned on its entry.\<close>

definition ent_blocks :: "fat_fs \<Rightarrow> nat \<Rightarrow> nat list" where
  "ent_blocks fs e =
     (let off = ent_offset (fatent_ops fs) e; b = fat_start fs + off div s_blocksize fs
      in if fatent_ops fs = fat12_ops \<and> off mod s_blocksize fs + 1 = s_blocksize fs then [b, b + 1] else [b])"

definition points :: "fat_fs \<Rightarrow> fat_entry \<Rightarrow> bool" where
  "points fs fe \<longleftrightarrow> bhs fe = ent_blocks fs (entry fe) \<and> nr_bhs fe = length (bhs fe) \<and>
     ent_p0 fe = Some (fbase fs + ent_offset (fatent_ops fs) (entry fe)) \<and>
     (fatent_ops fs = fat12_ops \<longrightarrow> ent_p1 fe = Some (fbase fs + ent_offset (fatent_ops fs) (entry fe) + 1))"

lemma geometry_fields:
  assumes "geometry fs' = geometry fs"
  shows "s_blocksize fs' = s_blocksize fs" "s_blocksize_bits fs' = s_blocksize_bits fs" "fat_bits fs' = fat_bits fs"
    "fat_start fs' = fat_start fs" "fat_length fs' = fat_length fs" "max_cluster fs' = max_cluster fs" "fats fs' = fats fs"
    "fatent_ops fs' = fatent_ops fs" "fatent_shift fs' = fatent_shift fs" "s_synchronous fs' = s_synchronous fs"
    "wf_fat fs' = wf_fat fs" "points fs' fe = points fs fe" "fbase fs' = fbase fs" "ent_blocks fs' e = ent_blocks fs e"
    "cluster_bits fs' = cluster_bits fs" "s_maxbytes fs' = s_maxbytes fs" "sec_per_clus fs' = sec_per_clus fs"
    "data_start fs' = data_start fs" "dir_start fs' = dir_start fs" "dir_entries fs' = dir_entries fs"
    "dir_per_block_bits fs' = dir_per_block_bits fs" "options fs' = options fs" "tz_minuteswest fs' = tz_minuteswest fs"
  using assms
  by (auto simp: geometry_def wf_fat_def points_def fbase_def ent_blocks_def split: fatent_operations.splits)

lemma geometry_update [simp]:
  "geometry (fs\<lparr>fdev := m\<rparr>) = geometry fs" "geometry (fs\<lparr>faults := f\<rparr>) = geometry fs"
  "geometry (fs\<lparr>prev_free := a\<rparr>) = geometry fs" "geometry (fs\<lparr>free_clusters := a\<rparr>) = geometry fs"
  "geometry (fs\<lparr>free_clus_valid := b\<rparr>) = geometry fs" "geometry (fs\<lparr>fsinfo_dirty := b\<rparr>) = geometry fs"
  "geometry (fs\<lparr>discarded := d\<rparr>) = geometry fs" "geometry (fs\<lparr>s_rdonly := b\<rparr>) = geometry fs"
  "geometry (fs\<lparr>panicked := b\<rparr>) = geometry fs"
  by (simp_all add: geometry_def)

lemma ftab_cong: "geometry fs' = geometry fs \<Longrightarrow> fdev fs' = fdev fs \<Longrightarrow> ftab fs' = ftab fs"
  using geometry_fields(8,13) [of fs' fs] by (simp add: ftab_def)

lemma ftab_update [simp]:
  "ftab (fs\<lparr>faults := f\<rparr>) = ftab fs" "ftab (fs\<lparr>prev_free := a\<rparr>) = ftab fs" "ftab (fs\<lparr>free_clusters := a\<rparr>) = ftab fs"
  "ftab (fs\<lparr>free_clus_valid := b\<rparr>) = ftab fs" "ftab (fs\<lparr>fsinfo_dirty := b\<rparr>) = ftab fs"
  "ftab (fs\<lparr>discarded := d\<rparr>) = ftab fs" "ftab (fs\<lparr>s_rdonly := b\<rparr>) = ftab fs" "ftab (fs\<lparr>panicked := b\<rparr>) = ftab fs"
  by (simp_all add: ftab_def fbase_def)

subsection \<open>An entry structure reads and writes the table\<close>

lemma ent_get_points: "points fs fe \<Longrightarrow> ent_get fs fe = ftab fs (entry fe)"
  by (cases "fatent_ops fs") (simp_all add: points_def ent_get_def ftab_def)

lemma ent_put_points:
  assumes "points fs fe"
  shows "ent_put fe v fs = fs\<lparr>fdev := table_put (fatent_ops fs) (fbase fs) (entry fe) v (fdev fs)\<rparr>"
  using assms by (cases "fatent_ops fs") (simp_all add: points_def ent_put_def)

lemma geometry_ent_put [simp]: "geometry (ent_put fe v fs) = geometry fs"
  by (simp add: ent_put_def)

lemma ftab_ent_put:
  assumes "points fs fe" and "v < bad_of (fatent_ops fs) \<or> v = FAT_ENT_EOF"
  shows "ftab (ent_put fe v fs) = (ftab fs)(entry fe := v)"
  using tab.get_put [OF assms(2)] by (simp add: ent_put_points [OF assms(1)] ftab_def fbase_def)

lemma and_exp_minus_1: "(n :: nat) AND (2 ^ k - 1) = n mod 2 ^ k"
  using take_bit_eq_mask [of k n] by (simp add: take_bit_eq_mod mask_eq_exp_minus_1)

lemma blocksize_mask: "wf_fat fs \<Longrightarrow> n AND (s_blocksize fs - 1) = n mod s_blocksize fs"
  using and_exp_minus_1 [of n "s_blocksize_bits fs"] by (simp add: wf_fat_def)

lemma ent_blocknr_correct:
  assumes "wf_fat fs"
  shows "ent_blocknr fs (fatent_ops fs) e =
    (ent_offset (fatent_ops fs) e mod s_blocksize fs, fat_start fs + ent_offset (fatent_ops fs) e div s_blocksize fs)"
proof (cases "fatent_ops fs")
  case fat12_ops
  then show ?thesis
    using assms blocksize_mask [OF assms] by (simp add: fat12_ent_blocknr_def Let_def drop_bit_eq_div wf_fat_def)
next
  case fat16_ops
  then show ?thesis
    using assms blocksize_mask [OF assms] by (simp add: fat_ent_blocknr_def Let_def drop_bit_eq_div push_bit_eq_mult wf_fat_def mult.commute)
next
  case fat32_ops
  then show ?thesis
    using assms blocksize_mask [OF assms] by (simp add: fat_ent_blocknr_def Let_def drop_bit_eq_div push_bit_eq_mult wf_fat_def mult.commute)
qed

text \<open>A computation that at most consumes the script.\<close>

definition only_faults :: "fat_fs \<Rightarrow> fat_fs \<Rightarrow> bool" where
  "only_faults fs fs' \<longleftrightarrow> (\<exists>f. fs' = fs\<lparr>faults := f\<rparr>)"

interpretation ofa: frame_relation only_faults
proof
  show "only_faults s s" for s by (auto simp: only_faults_def intro: exI [of _ "faults s"])
  show "only_faults s u" if "only_faults s t" "only_faults t u" for s t u
    using that by (auto simp: only_faults_def)
qed

lemma ofa_fallible: "keeps only_faults (fallible e)"
  unfolding keeps_def fallible_def only_faults_def
  by (auto split: list.split intro: exI [of _ "[]"])

lemma only_faults_inv:
  assumes "only_faults fs fs'"
  shows "geometry fs' = geometry fs" "fdev fs' = fdev fs" "ftab fs' = ftab fs" "prev_free fs' = prev_free fs"
    "free_clusters fs' = free_clusters fs" "free_clus_valid fs' = free_clus_valid fs"
  using assms by (auto simp: only_faults_def)

lemma sb_bread_ofa: "keeps only_faults (sb_bread b)"
  unfolding sb_bread_def by (rule ofa_fallible)

lemma b_data_base: "b_data fs (fat_start fs + off div s_blocksize fs) + off mod s_blocksize fs = fbase fs + off"
  by (simp add: b_data_def fbase_def distrib_right)

lemma ofa_ent_bread: "keeps only_faults (ent_bread ops fe offset blocknr)"
proof (cases ops)
  case fat12_ops
  then show ?thesis
    by (simp add: fat12_ent_bread_def) (intro ofa.keeps_intros sb_bread_ofa)
qed (simp_all add: fat_ent_bread_def, (intro ofa.keeps_intros sb_bread_ofa)+)

lemma ofa_fat_ent_read_block: "keeps only_faults (fat_ent_read_block fe)"
  unfolding fat_ent_read_block_def Let_def by (intro ofa.keeps_intros ofa_ent_bread)

lemma mod_last:
  assumes "wf_fat fs" and "\<not> n mod s_blocksize fs + 1 < s_blocksize fs"
  shows "n mod s_blocksize fs + 1 = s_blocksize fs"
proof -
  have "0 < s_blocksize fs" using assms(1) by (simp add: wf_fat_def)
  then have "n mod s_blocksize fs < s_blocksize fs" by simp
  with assms(2) show ?thesis by simp
qed

lemma ent_bread_points:
  assumes wf: "wf_fat fs" and ops: "fatent_ops fs = ops"
    and run: "run_state (ent_bread ops fe (ent_offset ops (entry fe) mod s_blocksize fs)
        (fat_start fs + ent_offset ops (entry fe) div s_blocksize fs)) fs = ((r, fe'), fs')"
  shows "entry fe' = entry fe" and "r = Inr () \<Longrightarrow> points fs fe'" and "r \<noteq> Inr () \<Longrightarrow> fe' = fe \<and> r = Inl EIO"
proof -
  define off where "off = ent_offset ops (entry fe)"
  define b where "b = fat_start fs + off div s_blocksize fs"
  have base: "b_data fs b + off mod s_blocksize fs = fbase fs + off" unfolding b_def by (rule b_data_base)
  note run = run [folded off_def, folded b_def]
  have "entry fe' = entry fe \<and> (r = Inr () \<longrightarrow> points fs fe') \<and> (r \<noteq> Inr () \<longrightarrow> fe' = fe \<and> r = Inl EIO)"
  proof (cases "ops = fat12_ops")
    case True
    obtain r1 s1 where r1: "run_state (sb_bread b) fs = (r1, s1)" by (cases "run_state (sb_bread b) fs")
    obtain r2 s2 where r2: "run_state (sb_bread (Suc b)) s1 = (r2, s2)" by (cases "run_state (sb_bread (Suc b)) s1")
    have next_block: "b_data fs (Suc b) = fbase fs + off + 1" if "off mod s_blocksize fs + 1 = s_blocksize fs"
      using base that by (simp add: b_data_def)
    have od: "ent_offset fat12_ops (entry fe) = off" using True by (simp add: off_def)
    show ?thesis
      using run True ops base next_block mod_last [OF wf, of off]
      by (cases r1; cases r2)
        (auto simp: fat12_ent_bread_def r1 r2 points_def ent_blocks_def Let_def fat12_ent_set_ptr_def od
          simp flip: b_def simp del: ent_offset.simps split: if_splits)
  next
    case False
    obtain r1 s1 where r1: "run_state (sb_bread b) fs = (r1, s1)" by (cases "run_state (sb_bread b) fs")
    show ?thesis
    proof (cases ops)
      case fat16_ops
      have od: "ent_offset fat16_ops (entry fe) = off" using fat16_ops by (simp add: off_def)
      show ?thesis
        using run fat16_ops ops base
        by (cases r1) (auto simp: fat_ent_bread_def r1 points_def ent_blocks_def Let_def fat16_ent_set_ptr_def od
            simp flip: b_def simp del: ent_offset.simps)
    next
      case fat32_ops
      have od: "ent_offset fat32_ops (entry fe) = off" using fat32_ops by (simp add: off_def)
      show ?thesis
        using run fat32_ops ops base
        by (cases r1) (auto simp: fat_ent_bread_def r1 points_def ent_blocks_def Let_def fat32_ent_set_ptr_def od
            simp flip: b_def simp del: ent_offset.simps)
    qed (use False in simp)
  qed
  then show "entry fe' = entry fe" "r = Inr () \<Longrightarrow> points fs fe'" "r \<noteq> Inr () \<Longrightarrow> fe' = fe \<and> r = Inl EIO" by auto
qed

lemma fat_ent_read_block_spec:
  assumes run: "run_state (fat_ent_read_block fe) fs = ((r, fe'), fs')" and wf: "wf_fat fs"
  shows "only_faults fs fs'" "entry fe' = entry fe" "r = Inr () \<Longrightarrow> points fs fe'" "r \<noteq> Inr () \<Longrightarrow> r = Inl EIO"
proof -
  let ?ops = "fatent_ops fs"
  show "only_faults fs fs'" using keepsD [OF ofa_fat_ent_read_block run] .
  have run': "run_state (ent_bread ?ops (fatent_brelse fe) (ent_offset ?ops (entry (fatent_brelse fe)) mod s_blocksize fs)
        (fat_start fs + ent_offset ?ops (entry (fatent_brelse fe)) div s_blocksize fs)) fs = ((r, fe'), fs')"
    using run by (simp add: fat_ent_read_block_def ent_blocknr_correct [OF wf] fatent_brelse_def)
  show "entry fe' = entry fe" "r = Inr () \<Longrightarrow> points fs fe'" "r \<noteq> Inr () \<Longrightarrow> r = Inl EIO"
    using ent_bread_points [OF wf refl run'] by (auto simp: fatent_brelse_def)
qed

subsection \<open>Following the entries of a block\<close>

lemma same_block:
  assumes "n mod m + k < (m :: nat)"
  shows "(n + k) div m = n div m" "(n + k) mod m = n mod m + k"
proof -
  have "n + k = (n mod m + k) + m * (n div m)" by simp
  then show "(n + k) div m = n div m" "(n + k) mod m = n mod m + k"
    using assms by (metis add.commute div_less div_mult_self2 mod_less mod_mult_self2 add_0 not_less_zero,
        metis mod_less mod_mult_self2)
qed

lemma mult_add_divmod: "y < (m :: nat) \<Longrightarrow> (m * k + y) div m = k \<and> (m * k + y) mod m = y"
  by simp

lemma ent_next_entry: "entry (snd (ent_next fs ops fe)) = Suc (entry fe)"
  by (cases ops) (simp_all add: fat12_ent_next_def fat16_ent_next_def fat32_ent_next_def Let_def)

lemma fat_ent_next_entry: "entry (snd (fat_ent_next fs fe)) = Suc (entry fe)"
  using ent_next_entry [of fs "fatent_ops fs" fe] by (auto simp: fat_ent_next_def split: prod.split)

lemma points_16_32:
  assumes "fatent_ops fs \<noteq> fat12_ops"
  shows "points fs fe \<longleftrightarrow> (let off = ent_offset (fatent_ops fs) (entry fe) in
    bhs fe = [fat_start fs + off div s_blocksize fs] \<and> nr_bhs fe = 1 \<and> ent_p0 fe = Some (fbase fs + off))"
  using assms by (auto simp: points_def ent_blocks_def Let_def)

lemma fat_word_next:
  assumes wf: "wf_fat fs" and p: "points fs fe" and ops: "fatent_ops fs \<noteq> fat12_ops"
    and off': "ent_offset (fatent_ops fs) (Suc (entry fe)) = ent_offset (fatent_ops fs) (entry fe) + k"
    and lt: "the (ent_p0 fe) < b_data fs (bhs fe ! 0) + (s_blocksize fs - k)"
    and al: "k dvd s_blocksize fs" "k dvd ent_offset (fatent_ops fs) (entry fe)" "0 < k"
  shows "points fs (fe\<lparr>entry := Suc (entry fe), ent_p0 := Some (the (ent_p0 fe) + k)\<rparr>)"
proof -
  define off where "off = ent_offset (fatent_ops fs) (entry fe)"
  have fe: "bhs fe = [fat_start fs + off div s_blocksize fs]" "nr_bhs fe = 1" "ent_p0 fe = Some (fbase fs + off)"
    using p points_16_32 [OF ops, of fe] by (simp_all add: off_def Let_def)
  have "off mod s_blocksize fs < s_blocksize fs - k"
    using lt fe b_data_base [of fs off] by simp
  then have "(off + k) div s_blocksize fs = off div s_blocksize fs" by (intro same_block) simp
  then show ?thesis
    using fe off' points_16_32 [OF ops] by (simp add: Let_def flip: off_def)
qed

lemma fat12_next:
  assumes wf: "wf_fat fs" and p: "points fs fe" and ops: "fatent_ops fs = fat12_ops"
    and nx: "fat12_ent_next fs fe = (True, fe')"
  shows "points fs fe'"
proof -
  define off where "off = entry fe + entry fe div 2"
  define off' where "off' = Suc (entry fe) + Suc (entry fe) div 2"
  have step: "off' = off + 1 + entry fe mod 2"
    unfolding off_def off'_def by (cases "even (entry fe)") (auto elim!: evenE oddE)
  have od: "ent_offset fat12_ops (Suc (entry fe)) = off'" by (simp add: off'_def)
  have fe: "ent_p1 fe = Some (fbase fs + off + 1)" "bhs fe = ent_blocks fs (entry fe)" "nr_bhs fe = length (bhs fe)"
    using p ops by (simp_all add: points_def off_def)
  have big: "4 \<le> s_blocksize fs"
    using wf power_increasing [of 2 "s_blocksize_bits fs" "2 :: nat"] by (simp add: wf_fat_def)
  define b where "b = fat_start fs + off div s_blocksize fs"
  have base: "b_data fs b + off mod s_blocksize fs = fbase fs + off" unfolding b_def by (rule b_data_base)
  define x where "x = 1 + entry fe mod 2"
  have x: "off' = off + x" "x \<le> 2" "1 \<le> x" using step by (simp_all add: x_def)
  have nextp: "the (ent_p1 fe) + 1 + entry fe mod 2 = fbase fs + off' + 1" using fe(1) step by simp
  show ?thesis
  proof (cases "off mod s_blocksize fs + 1 = s_blocksize fs")
    case False
    then have b1: "bhs fe = [b]" using fe(2) ops by (simp add: ent_blocks_def Let_def off_def b_def)
    then have lt: "fbase fs + off' + 1 < b_data fs b + (s_blocksize fs - 1)"
      and fe': "fe' = fe\<lparr>entry := Suc (entry fe), ent_p0 := Some (fbase fs + off'), ent_p1 := Some (fbase fs + off' + 1)\<rparr>"
      using nx fe(3) nextp by (auto simp: fat12_ent_next_def Let_def split: if_splits)
    then have "off mod s_blocksize fs + x < s_blocksize fs - 2" using base x(1) by simp
    then have "off' div s_blocksize fs = off div s_blocksize fs" "off' mod s_blocksize fs = off mod s_blocksize fs + x"
      "off' mod s_blocksize fs + 1 \<noteq> s_blocksize fs"
      using same_block [of off "s_blocksize fs" x] x(1) by auto
    then show ?thesis
      using fe' b1 ops fe(3) by (simp add: points_def ent_blocks_def Let_def b_def od del: ent_offset.simps)
  next
    case True
    then have b2: "bhs fe = [b, b + 1]" using fe(2) ops by (simp add: ent_blocks_def Let_def off_def b_def)
    then have fe': "fe' = fe\<lparr>entry := Suc (entry fe), ent_p0 := Some (fbase fs + off'), ent_p1 := Some (fbase fs + off' + 1),
        bhs := [b + 1], nr_bhs := 1\<rparr>"
      using nx fe(3) nextp by (auto simp: fat12_ent_next_def Let_def)
    have "off + 1 = s_blocksize fs * (off div s_blocksize fs) + (off mod s_blocksize fs + 1)" by simp
    also have "\<dots> = s_blocksize fs * (off div s_blocksize fs + 1)" using True by simp
    finally have o: "off' = s_blocksize fs * (off div s_blocksize fs + 1) + (x - 1)" using x by simp
    have "off' div s_blocksize fs = off div s_blocksize fs + 1" "off' mod s_blocksize fs = x - 1"
      unfolding o using mult_add_divmod [of "x - 1" "s_blocksize fs" "off div s_blocksize fs + 1"] x(2) big by linarith+
    then show ?thesis
      using fe' ops x(2) big by (simp add: points_def ent_blocks_def Let_def b_def od del: ent_offset.simps)
  qed
qed

lemma fat_ent_next_points:
  assumes wf: "wf_fat fs" and p: "points fs fe" and nx: "fat_ent_next fs fe = (True, fe')"
  shows "points fs fe' \<and> entry fe' = Suc (entry fe) \<and> entry fe' < max_cluster fs"
proof -
  have n: "ent_next fs (fatent_ops fs) fe = (True, fe')" "entry fe' < max_cluster fs"
    using nx by (auto simp: fat_ent_next_def split: prod.splits)
  have e: "entry fe' = Suc (entry fe)" using ent_next_entry [of fs "fatent_ops fs" fe] n(1) by simp
  have "4 dvd s_blocksize fs"
    using wf le_imp_power_dvd [of 2 "s_blocksize_bits fs" "2 :: nat"] by (simp add: wf_fat_def)
  then have al: "2 dvd s_blocksize fs" "4 dvd s_blocksize fs" by auto
  have "points fs fe'"
  proof (cases "fatent_ops fs")
    case fat12_ops
    then show ?thesis using fat12_next [OF wf p] n by simp
  next
    case fat16_ops
    then have "the (ent_p0 fe) < b_data fs (bhs fe ! 0) + (s_blocksize fs - 2)"
      "fe' = fe\<lparr>entry := Suc (entry fe), ent_p0 := Some (the (ent_p0 fe) + 2)\<rparr>"
      using n(1) by (auto simp: fat16_ent_next_def Let_def split: if_splits)
    then show ?thesis using fat_word_next [OF wf p, of 2] fat16_ops al by simp
  next
    case fat32_ops
    then have "the (ent_p0 fe) < b_data fs (bhs fe ! 0) + (s_blocksize fs - 4)"
      "fe' = fe\<lparr>entry := Suc (entry fe), ent_p0 := Some (the (ent_p0 fe) + 4)\<rparr>"
      using n(1) by (auto simp: fat32_ent_next_def Let_def split: if_splits)
    then show ?thesis using fat_word_next [OF wf p, of 4] fat32_ops al by simp
  qed
  then show ?thesis using e n(2) by simp
qed

end
