(* ===== verification/Fat_Mirror.thy ===== *)
theory Fat_Mirror
  imports Fat_Entry
begin

text \<open>
  What reading and writing an entry mean for the table as a whole: \<^verbatim>\<open>fat_ent_read\<close> gives the entry of the table, with or without
  the blocks it already holds, and \<^verbatim>\<open>fat_ent_write\<close> changes one entry and keeps the copies of the table
  (\<^verbatim>\<open>fat_mirror_bhs\<close>) equal to the first.  The definitions are those of \<open>Fat_Entry\<close>; this theory holds the lemmas
  the allocator is proved with.
\<close>

subsection \<open>Reading an entry\<close>

definition held :: "fat_fs \<Rightarrow> fat_entry \<Rightarrow> bool" where
  "held fs fe \<longleftrightarrow> nr_bhs fe = length (bhs fe) \<and> nr_bhs fe \<le> (if fatent_ops fs = fat12_ops then 2 else 1)"

lemma held_init [simp]: "held fs fatent_init"
  by (simp add: held_def fatent_init_def)

lemma held_brelse [simp]: "held fs (fatent_brelse fe)"
  by (simp add: held_def fatent_brelse_def)

lemma held_points: "points fs fe \<Longrightarrow> held fs fe"
  by (simp add: held_def points_def ent_blocks_def Let_def)

lemma held_geometry: "geometry fs' = geometry fs \<Longrightarrow> held fs' fe = held fs fe"
  using geometry_fields(8) [of fs' fs] by (simp add: held_def)

lemma is_fat12_ops: "wf_fat fs \<Longrightarrow> is_fat12 fs \<longleftrightarrow> fatent_ops fs = fat12_ops"
  by (auto simp: wf_fat_def is_fat12_def split: fatent_operations.splits)

lemma list_le_2: "length xs \<le> 2 \<Longrightarrow> xs = [] \<or> (\<exists>a. xs = [a]) \<or> (\<exists>a b. xs = [a, b])"
  by (cases xs rule: remdups_adj.cases) auto

lemma update_ptr_points:
  assumes wf: "wf_fat fs" and h: "held fs fe"
    and up: "fat_ent_update_ptr fs fe (ent_offset (fatent_ops fs) (entry fe) mod s_blocksize fs)
        (fat_start fs + ent_offset (fatent_ops fs) (entry fe) div s_blocksize fs) = (True, fe')"
  shows "points fs fe' \<and> entry fe' = entry fe"
proof -
  define off where "off = ent_offset (fatent_ops fs) (entry fe)"
  define b where "b = fat_start fs + off div s_blocksize fs"
  have base: "b_data fs b + off mod s_blocksize fs = fbase fs + off" unfolding b_def by (rule b_data_base)
  note up = up [folded off_def, folded b_def]
  show ?thesis
  proof (cases "fatent_ops fs = fat12_ops")
    case True
    have od: "ent_offset fat12_ops (entry fe) = off" using True by (simp add: off_def)
    have nb: "b_data fs (Suc b) = fbase fs + off + 1" if "off mod s_blocksize fs + 1 = s_blocksize fs"
      using base that by (simp add: b_data_def)
    have "bhs fe = [] \<or> (\<exists>a. bhs fe = [a]) \<or> (\<exists>a c. bhs fe = [a, c])"
      using h True by (intro list_le_2) (simp add: held_def)
    then show ?thesis
      using up True h nb base mod_last [OF wf, of off] is_fat12_ops [OF wf]
      by (elim disjE exE)
        (auto simp: fat_ent_update_ptr_def held_def points_def ent_blocks_def Let_def fat12_ent_set_ptr_def od
          simp flip: b_def simp del: ent_offset.simps split: if_splits)
  next
    case False
    have sp: "ent_set_ptr fs (fatent_ops fs) fe (off mod s_blocksize fs) =
        fe\<lparr>ent_p0 := Some (b_data fs (bhs fe ! 0) + off mod s_blocksize fs)\<rparr>"
      using False by (cases "fatent_ops fs") (simp_all add: fat16_ent_set_ptr_def fat32_ent_set_ptr_def)
    have "nr_bhs fe = 0 \<or> (\<exists>a. bhs fe = [a] \<and> nr_bhs fe = 1)"
      using h False by (cases "bhs fe" rule: remdups_adj.cases) (auto simp: held_def)
    then have "bhs fe = [b]" "nr_bhs fe = 1" "fe' = ent_set_ptr fs (fatent_ops fs) fe (off mod s_blocksize fs)"
      using up False is_fat12_ops [OF wf] by (auto simp: fat_ent_update_ptr_def split: if_splits)
    then show ?thesis
      using sp base points_16_32 [OF False, of fe'] by (simp add: Let_def b_def flip: off_def)
  qed
qed

lemma update_ptr_miss: "fat_ent_update_ptr fs fe offset blocknr = (False, fe') \<Longrightarrow> fe' = fe"
  by (auto simp: fat_ent_update_ptr_def Let_def split: if_splits)

lemma fat_ent_read_invalid:
  assumes "\<not> fat_valid_entry fs e"
  shows "run_state (fat_ent_read fe e) fs = ((Inl EIO, fatent_brelse fe), snd (run_state fat_fs_error fs))"
  using assms by (simp add: fat_ent_read_def split: prod.split)

lemma fat_ent_read_valid:
  assumes run: "run_state (fat_ent_read fe e) fs = ((r, fe'), fs')" and wf: "wf_fat fs" and h: "held fs fe"
    and v: "fat_valid_entry fs e"
  shows "only_faults fs fs'" "entry fe' = nat e" "held fs fe'"
    "r = Inl EIO \<or> (r = Inr (ftab fs (nat e)) \<and> points fs fe')"
proof -
  define fe0 where "fe0 = fatent_set_entry fe (nat e)"
  have e0: "entry fe0 = nat e" "held fs fe0" using h by (simp_all add: fe0_def fatent_set_entry_def held_def)
  let ?o = "ent_offset (fatent_ops fs) (entry fe0) mod s_blocksize fs"
  let ?b = "fat_start fs + ent_offset (fatent_ops fs) (entry fe0) div s_blocksize fs"
  obtain hit fe1 where up: "fat_ent_update_ptr fs fe0 ?o ?b = (hit, fe1)"
    by (cases "fat_ent_update_ptr fs fe0 ?o ?b")
  have "only_faults fs fs' \<and> entry fe' = nat e \<and> held fs fe' \<and> (r = Inl EIO \<or> (r = Inr (ftab fs (nat e)) \<and> points fs fe'))"
  proof (cases hit)
    case True
    then have p: "points fs fe1" "entry fe1 = nat e" using update_ptr_points [OF wf e0(2)] up e0(1) by auto
    then have "r = Inr (ent_get fs fe1)" "fe' = fe1" "fs' = fs"
      using run v up True e0(1) ent_blocknr_correct [OF wf, of "nat e"] by (auto simp: fat_ent_read_def Let_def simp flip: fe0_def)
    then show ?thesis using p held_points [OF p(1)] ent_get_points [OF p(1)] ofa.frame_refl by simp
  next
    case False
    have fe1: "fe1 = fe0" using up False update_ptr_miss by simp
    let ?be = "ent_bread (fatent_ops fs) (fatent_brelse fe0) ?o ?b"
    obtain r2 fe2 fs2 where rb: "run_state ?be fs = ((r2, fe2), fs2)" by (metis surj_pair)
    have of: "only_faults fs fs2" using keepsD [OF ofa_ent_bread rb] .
    have en: "entry (fatent_brelse fe0) = entry fe0" by (simp add: fatent_brelse_def)
    note bp = ent_bread_points [OF wf refl, of "fatent_brelse fe0", unfolded en, OF rb]
    have res: "fe' = fe2 \<and> fs' = fs2 \<and> r = (case r2 of Inl err \<Rightarrow> Inl err | Inr _ \<Rightarrow> Inr (ent_get fs2 fe2))"
      using run v up False fe1 e0(1) ent_blocknr_correct [OF wf, of "nat e"] rb
      by (auto simp: fat_ent_read_def Let_def simp flip: fe0_def split: sum.splits)
    show ?thesis
    proof (cases r2)
      case (Inl err)
      then show ?thesis using bp(3) res of en e0(1) by auto
    next
      case (Inr u)
      then have p: "points fs fe2" "entry fe2 = nat e" using bp(1,2) en e0(1) by auto
      have "points fs2 fe2" using p(1) geometry_fields(12) [OF only_faults_inv(1) [OF of]] by simp
      then have "ent_get fs2 fe2 = ftab fs (nat e)" using ent_get_points only_faults_inv(3) [OF of] p(2) by simp
      then show ?thesis using Inr res of p held_points [OF p(1)] by simp
    qed
  qed
  then show "only_faults fs fs'" "entry fe' = nat e" "held fs fe'"
    "r = Inl EIO \<or> (r = Inr (ftab fs (nat e)) \<and> points fs fe')" by auto
qed

subsection \<open>Where an entry is\<close>

fun ent_width :: "fatent_operations \<Rightarrow> nat" where
  "ent_width fat12_ops = 2"
| "ent_width fat16_ops = 2"
| "ent_width fat32_ops = 4"

lemma table_put_outside:
  "\<not> (base + ent_offset ops e \<le> a \<and> a < base + ent_offset ops e + ent_width ops) \<Longrightarrow> table_put ops base e v m a = m a"
  by (cases ops) (auto simp: fat12_ent_put_def fat16_ent_put_def fat32_ent_put_def put_le16_at_def put_le32_at_def Let_def)

lemma table_get_cong:
  "(\<And>a. base + ent_offset ops e \<le> a \<Longrightarrow> a < base + ent_offset ops e + ent_width ops \<Longrightarrow> m a = m' a) \<Longrightarrow>
     table_get ops base m e = table_get ops base m' e"
  by (cases ops) (simp_all add: fat12_ent_get_def fat16_ent_get_def fat32_ent_get_def le16_at_def le32_at_def)

lemma entry_in_table:
  assumes "wf_fat fs" and "e < max_cluster fs"
  shows "ent_offset (fatent_ops fs) e + ent_width (fatent_ops fs) \<le> fat_length fs * s_blocksize fs"
  using assms by (cases "fatent_ops fs") (auto simp: wf_fat_def)

definition in_table :: "fat_fs \<Rightarrow> nat \<Rightarrow> bool" where
  "in_table fs b \<longleftrightarrow> fat_start fs \<le> b \<and> b < fat_start fs + fat_length fs"

lemma blocksize_pos: "wf_fat fs \<Longrightarrow> 0 < s_blocksize fs"
  by (simp add: wf_fat_def)

lemma byte_in_blocks:
  assumes wf: "wf_fat fs" and a: "ent_offset (fatent_ops fs) e \<le> a" "a < ent_offset (fatent_ops fs) e + ent_width (fatent_ops fs)"
  shows "fat_start fs + a div s_blocksize fs \<in> set (ent_blocks fs e)"
proof -
  define off where "off = ent_offset (fatent_ops fs) e"
  obtain k where k: "a = off + k" using a(1) le_Suc_ex by (auto simp: off_def)
  have k': "k < ent_width (fatent_ops fs)" using a(2) k by (simp add: off_def)
  have "4 dvd s_blocksize fs"
    using wf le_imp_power_dvd [of 2 "s_blocksize_bits fs" "2 :: nat"] by (simp add: wf_fat_def)
  then have al: "off mod s_blocksize fs + k < s_blocksize fs" if "fatent_ops fs \<noteq> fat12_ops"
  proof -
    define w where "w = ent_width (fatent_ops fs)"
    have w: "w dvd s_blocksize fs" "w dvd off" "0 < w" "k < w"
      using that \<open>4 dvd s_blocksize fs\<close> k' by (cases "fatent_ops fs"; auto simp: w_def off_def)+
    then obtain i j where i: "off mod s_blocksize fs = w * i" and j: "s_blocksize fs = w * j"
      using dvd_mod [OF w(2,1)] by (auto elim!: dvdE)
    have "w * i < w * j" using i j blocksize_pos [OF wf] by (metis mod_less_divisor)
    then have "Suc i \<le> j" by simp
    then have "w * Suc i \<le> w * j" by (rule mult_le_mono2)
    then show ?thesis using i j w(4) by simp
  qed
  show ?thesis
  proof (cases "off mod s_blocksize fs + k < s_blocksize fs")
    case True
    then show ?thesis using same_block(1) [OF True] k by (auto simp: ent_blocks_def Let_def off_def)
  next
    case False
    then have f: "fatent_ops fs = fat12_ops" using al by blast
    then have k1: "k = 1" using k' False blocksize_pos [OF wf] by (cases k) auto
    then have "off mod s_blocksize fs + 1 = s_blocksize fs" using False by (intro mod_last [OF wf]) simp
    moreover have "(off + 1) div s_blocksize fs = off div s_blocksize fs + 1"
      using calculation by (metis add.commute add_diff_cancel_right' div_mult_mod_eq mod_Suc div_Suc plus_1_eq_Suc)
    ultimately show ?thesis using k k1 f by (simp add: ent_blocks_def Let_def flip: off_def f)
  qed
qed

lemma div_in_table: "wf_fat fs \<Longrightarrow> a < fat_length fs * s_blocksize fs \<Longrightarrow> in_table fs (fat_start fs + a div s_blocksize fs)"
  using blocksize_pos [of fs] by (simp add: in_table_def div_less_iff_less_mult)

lemma ent_blocks_in_table:
  assumes wf: "wf_fat fs" and e: "e < max_cluster fs" and b: "b \<in> set (ent_blocks fs e)"
  shows "in_table fs b"
proof -
  define off where "off = ent_offset (fatent_ops fs) e"
  have le: "off + ent_width (fatent_ops fs) \<le> fat_length fs * s_blocksize fs" using entry_in_table [OF wf e] by (simp add: off_def)
  have "0 < ent_width (fatent_ops fs)" by (cases "fatent_ops fs") simp_all
  then have d0: "in_table fs (fat_start fs + off div s_blocksize fs)" using le by (intro div_in_table [OF wf]) simp
  show ?thesis
  proof (cases "fatent_ops fs = fat12_ops \<and> off mod s_blocksize fs + 1 = s_blocksize fs")
    case True
    then have "(off + 1) div s_blocksize fs = off div s_blocksize fs + 1"
      by (metis add.commute div_Suc mod_Suc plus_1_eq_Suc)
    then have "in_table fs (fat_start fs + off div s_blocksize fs + 1)"
      using div_in_table [OF wf, of "off + 1"] le True by simp
    then show ?thesis using b True d0 by (auto simp: ent_blocks_def Let_def off_def)
  next
    case False
    then show ?thesis using b d0 by (auto simp: ent_blocks_def Let_def off_def split: if_splits)
  qed
qed

text \<open>Writing an entry changes bytes of its blocks only.\<close>

lemma ent_put_block:
  assumes wf: "wf_fat fs" and p: "points fs fe" and b: "b \<notin> set (bhs fe)" and i: "i < s_blocksize fs"
  shows "fdev (ent_put fe v fs) (b * s_blocksize fs + i) = fdev fs (b * s_blocksize fs + i)"
proof -
  let ?o = "ent_offset (fatent_ops fs) (entry fe)"
  have "\<not> (fbase fs + ?o \<le> b * s_blocksize fs + i \<and> b * s_blocksize fs + i < fbase fs + ?o + ent_width (fatent_ops fs))"
  proof
    assume a: "fbase fs + ?o \<le> b * s_blocksize fs + i \<and> b * s_blocksize fs + i < fbase fs + ?o + ent_width (fatent_ops fs)"
    define x where "x = b * s_blocksize fs + i - fbase fs"
    have x: "b * s_blocksize fs + i = x + fat_start fs * s_blocksize fs" using a by (simp add: x_def fbase_def)
    have "fat_start fs + x div s_blocksize fs \<in> set (ent_blocks fs (entry fe))"
      using a by (intro byte_in_blocks [OF wf]) (auto simp: x_def)
    moreover have "fat_start fs + x div s_blocksize fs = b"
      using arg_cong [OF x, of "\<lambda>n. n div s_blocksize fs"] i blocksize_pos [OF wf] by simp
    ultimately show False using b p by (simp add: points_def)
  qed
  then show ?thesis by (simp add: ent_put_points [OF p] table_put_outside)
qed

subsection \<open>The copies of the table\<close>

definition same_copy :: "fat_fs \<Rightarrow> nat \<Rightarrow> nat \<Rightarrow> bool" where
  "same_copy fs c b \<longleftrightarrow> (\<forall>i < s_blocksize fs.
     fdev fs ((fat_length fs * c + b) * s_blocksize fs + i) = fdev fs (b * s_blocksize fs + i))"

definition copies_agree :: "fat_fs \<Rightarrow> nat set \<Rightarrow> bool" where
  "copies_agree fs B \<longleftrightarrow> (\<forall>c b. 1 \<le> c \<and> c < fats fs \<and> in_table fs b \<and> b \<notin> B \<longrightarrow> same_copy fs c b)"

text \<open>A computation that writes past the first table only and does not spoil a block of a copy that is right.\<close>

definition mirrors :: "fat_fs \<Rightarrow> fat_fs \<Rightarrow> bool" where
  "mirrors fs fs' \<longleftrightarrow> fs' = fs\<lparr>fdev := fdev fs', faults := faults fs'\<rparr> \<and>
     (\<forall>a < (fat_start fs + fat_length fs) * s_blocksize fs. fdev fs' a = fdev fs a) \<and>
     (\<forall>c b. 1 \<le> c \<and> in_table fs b \<and> same_copy fs c b \<longrightarrow> same_copy fs' c b)"

lemma mirrors_geometry: "mirrors fs fs' \<Longrightarrow> geometry fs' = geometry fs"
  unfolding mirrors_def by (metis geometry_update(1,2))

lemma in_table_cong: "geometry fs' = geometry fs \<Longrightarrow> in_table fs' b = in_table fs b"
  using geometry_fields(4,5) [of fs' fs] by (simp add: in_table_def)

interpretation mir: frame_relation mirrors
proof
  show "mirrors s s" for s by (simp add: mirrors_def)
  show "mirrors s u" if "mirrors s t" "mirrors t u" for s t u
  proof -
    have t: "t = s\<lparr>fdev := fdev t, faults := faults t\<rparr>" using that(1) unfolding mirrors_def by blast
    have "u = t\<lparr>fdev := fdev u, faults := faults u\<rparr>" using that(2) unfolding mirrors_def by blast
    then have "u = s\<lparr>fdev := fdev u, faults := faults u\<rparr>" by (subst (asm) t) simp
    moreover have "fat_start t = fat_start s" "fat_length t = fat_length s" "s_blocksize t = s_blocksize s"
      using geometry_fields(1,4,5) [OF mirrors_geometry [OF that(1)]] by auto
    ultimately show ?thesis
      using that in_table_cong [OF mirrors_geometry [OF that(1)]] unfolding mirrors_def by auto
  qed
qed

lemma mirrors_only_faults: "only_faults fs fs' \<Longrightarrow> mirrors fs fs'"
  by (auto simp: only_faults_def mirrors_def same_copy_def)

lemma mirrors_fallible: "keeps mirrors (fallible e)"
  by (rule keeps_mono [OF ofa_fallible mirrors_only_faults])

lemma fdev_copy_block:
  assumes "i < s_blocksize fs"
  shows "fdev (copy_block t b fs) (x * s_blocksize fs + i) = fdev fs ((if x = t then b else x) * s_blocksize fs + i)"
proof -
  have "t * s_blocksize fs \<le> x * s_blocksize fs + i \<and> x * s_blocksize fs + i < t * s_blocksize fs + s_blocksize fs \<longleftrightarrow> x = t"
    (is "?lo \<and> ?hi \<longleftrightarrow> _")
  proof
    assume a: "?lo \<and> ?hi"
    have "\<not> Suc t \<le> x" using a mult_le_mono1 [of "Suc t" x "s_blocksize fs"] by auto
    moreover have "\<not> Suc x \<le> t" using a assms mult_le_mono1 [of "Suc x" t "s_blocksize fs"] by auto
    ultimately show "x = t" by simp
  qed (use assms in simp)
  then show ?thesis by (auto simp: copy_block_def add.commute)
qed

lemma copy_slot:
  assumes "in_table fs b" "in_table fs b'" "fat_length fs * c + b = fat_length fs * c' + b'"
  shows "b = b'"
proof -
  have "\<not> Suc c \<le> c'" using assms mult_le_mono2 [of "Suc c" c' "fat_length fs"] by (auto simp: in_table_def)
  moreover have "\<not> Suc c' \<le> c" using assms mult_le_mono2 [of "Suc c'" c "fat_length fs"] by (auto simp: in_table_def)
  ultimately show ?thesis using assms(3) by (metis add_left_cancel linorder_neqE_nat Suc_leI)
qed

lemma copy_block_mirrors:
  assumes b: "in_table fs b" and c: "1 \<le> c"
  shows "mirrors fs (copy_block (fat_length fs * c + b) b fs)" "same_copy (copy_block (fat_length fs * c + b) b fs) c b"
proof -
  let ?t = "fat_length fs * c + b"
  let ?fs = "copy_block ?t b fs"
  have f: "s_blocksize ?fs = s_blocksize fs" "fat_length ?fs = fat_length fs" by (simp_all add: copy_block_def)
  have "fat_length fs \<le> fat_length fs * c" using c by simp
  then have past: "fat_start fs + fat_length fs \<le> ?t" using b unfolding in_table_def by linarith
  have keep: "b' \<noteq> ?t" if "in_table fs b'" for b' using that past by (auto simp: in_table_def)
  have "fdev ?fs a = fdev fs a" if "a < (fat_start fs + fat_length fs) * s_blocksize fs" for a
  proof -
    have "\<not> ?t * s_blocksize fs \<le> a" using that mult_le_mono1 [OF past, of "s_blocksize fs"] by linarith
    then show ?thesis by (simp add: copy_block_def)
  qed
  moreover have "same_copy ?fs c' b'" if "in_table fs b'" "same_copy fs c' b'" for c' b'
    using that fdev_copy_block [of _ fs ?t b] keep [OF that(1)] copy_slot [OF b that(1), of c c'] by (auto simp: same_copy_def f)
  ultimately show "mirrors fs ?fs"
    by (auto simp: mirrors_def copy_block_def)
  show "same_copy ?fs c b"
    using fdev_copy_block [of _ fs ?t b] keep [OF b] by (auto simp: same_copy_def f)
qed

lemma mirrorsD: "mirrors fs fs' \<Longrightarrow> in_table fs b \<Longrightarrow> 1 \<le> c \<Longrightarrow> same_copy fs c b \<Longrightarrow> same_copy fs' c b"
  by (simp add: mirrors_def)

lemma mirror_blocks_spec:
  assumes "run_state (mirror_blocks (fat_length fs * c) bs) fs = (r, fs')" and "\<forall>b \<in> set bs. in_table fs b" and "1 \<le> c"
  shows "mirrors fs fs' \<and> (r = Inr () \<longrightarrow> (\<forall>b \<in> set bs. same_copy fs' c b))"
  using assms
proof (induction bs arbitrary: fs)
  case Nil
  then show ?case using mir.frame_refl by simp
next
  case (Cons b bs)
  obtain r1 fs1 where r1: "run_state (fallible ENOMEM) fs = (r1, fs1)" by (metis surj_pair)
  have m1: "mirrors fs fs1" using keepsD [OF mirrors_fallible r1] .
  show ?case
  proof (cases r1)
    case (Inl e)
    then show ?thesis using Cons.prems(1) r1 m1 by auto
  next
    case Inr1: (Inr u)
    define fs2 where "fs2 = copy_block (fat_length fs * c + b) b fs1"
    have L1: "fat_length fs1 = fat_length fs" using geometry_fields(5) [OF mirrors_geometry [OF m1]] .
    have b1: "in_table fs1 b" using in_table_cong [OF mirrors_geometry [OF m1]] Cons.prems(2) by simp
    have m2: "mirrors fs1 fs2" "same_copy fs2 c b" using copy_block_mirrors [OF b1 Cons.prems(3)] L1 by (simp_all add: fs2_def)
    define w where "w = (if s_synchronous fs2 then fallible EIO else ret (Inr ()))"
    have kw: "keeps mirrors w" unfolding w_def by (intro mir.keeps_intros mirrors_fallible)
    obtain r3 fs3 where r3: "run_state w fs2 = (r3, fs3)" by (metis surj_pair)
    have m3: "mirrors fs2 fs3" using keepsD [OF kw r3] .
    have m13: "mirrors fs fs3" using mir.frame_trans [OF m1 mir.frame_trans [OF m2(1) m3]] .
    have s3: "same_copy fs3 c b"
      using mirrorsD [OF m3 _ Cons.prems(3) m2(2)] in_table_cong [OF mirrors_geometry [OF m2(1)]] b1 by simp
    show ?thesis
    proof (cases r3)
      case (Inl e)
      then show ?thesis using Cons.prems(1) r1 Inr1 r3 m13
        by (auto simp: upd_fs_def w_def simp flip: fs2_def split: if_splits)
    next
      case (Inr v)
      have L3: "fat_length fs3 = fat_length fs" using geometry_fields(5) [OF mirrors_geometry [OF m13]] .
      have run: "run_state (mirror_blocks (fat_length fs3 * c) bs) fs3 = (r, fs')"
        using Cons.prems(1) r1 Inr1 r3 Inr L3
        by (auto simp: upd_fs_def w_def simp flip: fs2_def split: if_splits)
      have tb: "\<forall>b \<in> set bs. in_table fs3 b" using Cons.prems(2) in_table_cong [OF mirrors_geometry [OF m13]] by simp
      have "mirrors fs3 fs' \<and> (r = Inr () \<longrightarrow> (\<forall>b \<in> set bs. same_copy fs' c b))"
        by (rule Cons.IH [OF run tb Cons.prems(3)])
      moreover have "in_table fs3 b" using Cons.prems(2) in_table_cong [OF mirrors_geometry [OF m13]] by simp
      ultimately show ?thesis
        using mirrorsD [OF _ _ Cons.prems(3) s3] mir.frame_trans [OF m13] by auto
    qed
  qed
qed

lemma mirror_copies_spec:
  assumes "run_state (mirror_copies cs bs) fs = (r, fs')" and "\<forall>b \<in> set bs. in_table fs b" and "\<forall>c \<in> set cs. 1 \<le> c"
  shows "mirrors fs fs' \<and> (r = Inr () \<longrightarrow> (\<forall>c \<in> set cs. \<forall>b \<in> set bs. same_copy fs' c b))"
  using assms
proof (induction cs arbitrary: fs)
  case Nil
  then show ?case using mir.frame_refl by simp
next
  case (Cons c cs)
  obtain r1 fs1 where r1: "run_state (mirror_blocks (fat_length fs * c) bs) fs = (r1, fs1)" by (metis surj_pair)
  have m1: "mirrors fs fs1 \<and> (r1 = Inr () \<longrightarrow> (\<forall>b \<in> set bs. same_copy fs1 c b))"
    using mirror_blocks_spec [OF r1 Cons.prems(2)] Cons.prems(3) by simp
  then have tb: "in_table fs1 b = in_table fs b" for b using in_table_cong mirrors_geometry by blast
  show ?case
  proof (cases r1)
    case (Inl e)
    then show ?thesis using Cons.prems(1) r1 m1 by auto
  next
    case (Inr u)
    then have run: "run_state (mirror_copies cs bs) fs1 = (r, fs')" using Cons.prems(1) r1 by simp
    have "mirrors fs1 fs' \<and> (r = Inr () \<longrightarrow> (\<forall>c \<in> set cs. \<forall>b \<in> set bs. same_copy fs' c b))"
      using Cons.IH [OF run] Cons.prems(2,3) tb by simp
    then show ?thesis
      using m1 Inr tb Cons.prems(2,3) mirrorsD [of fs1 fs' _ c] mir.frame_trans [of fs fs1 fs'] by auto
  qed
qed

lemma fat_mirror_bhs_spec:
  assumes run: "run_state (fat_mirror_bhs bs) fs = (r, fs')" and bs: "\<forall>b \<in> set bs. in_table fs b"
  shows "mirrors fs fs'" and "r = Inr () \<Longrightarrow> copies_agree fs (set bs \<union> X) \<Longrightarrow> copies_agree fs' X"
proof -
  have "mirrors fs fs' \<and> (r = Inr () \<longrightarrow> (\<forall>c \<in> set [1..<fats fs]. \<forall>b \<in> set bs. same_copy fs' c b))"
    using run bs by (intro mirror_copies_spec) (simp_all add: fat_mirror_bhs_def)
  then show m: "mirrors fs fs'" and "r = Inr () \<Longrightarrow> copies_agree fs (set bs \<union> X) \<Longrightarrow> copies_agree fs' X"
    using mirrorsD [of fs fs'] in_table_cong [OF mirrors_geometry, of fs fs'] geometry_fields(7) [OF mirrors_geometry, of fs fs']
    by (auto simp: copies_agree_def) (metis Suc_leI atLeastLessThan_iff)
qed

lemma ofa_fat_sync_bhs: "keeps only_faults (fat_sync_bhs bs)"
  by (induction bs) (auto intro!: ofa.keeps_intros ofa_fallible)

lemma mirrors_ftab:
  assumes "wf_fat fs" and "mirrors fs fs'" and "e < max_cluster fs"
  shows "ftab fs' e = ftab fs e"
proof -
  have g: "fatent_ops fs' = fatent_ops fs" "fbase fs' = fbase fs"
    using geometry_fields(8,13) [OF mirrors_geometry [OF assms(2)]] by auto
  show ?thesis
    unfolding ftab_def g
  proof (rule table_get_cong)
    fix a assume "a < fbase fs + ent_offset (fatent_ops fs) e + ent_width (fatent_ops fs)"
    then have "a < (fat_start fs + fat_length fs) * s_blocksize fs"
      using entry_in_table [OF assms(1,3)] by (simp add: fbase_def distrib_right)
    then show "fdev fs' a = fdev fs a" using assms(2) by (simp add: mirrors_def)
  qed
qed

lemma copies_agree_put:
  assumes wf: "wf_fat fs" and p: "points fs fe" and e: "entry fe < max_cluster fs" and c: "copies_agree fs B"
  shows "copies_agree (ent_put fe v fs) (B \<union> set (bhs fe))"
proof -
  have g: "s_blocksize (ent_put fe v fs) = s_blocksize fs" "fat_length (ent_put fe v fs) = fat_length fs" "fats (ent_put fe v fs) = fats fs"
    "\<And>b. in_table (ent_put fe v fs) b = in_table fs b"
    by (simp_all add: ent_put_def in_table_def)
  have "same_copy (ent_put fe v fs) k b" if k: "1 \<le> k" "k < fats fs" and b: "in_table fs b" "b \<notin> B" "b \<notin> set (bhs fe)" for k b
  proof -
    have "fat_length fs \<le> fat_length fs * k" using k(1) by simp
    then have "\<not> in_table fs (fat_length fs * k + b)" using b(1) unfolding in_table_def by linarith
    then have "fat_length fs * k + b \<notin> set (bhs fe)" using ent_blocks_in_table [OF wf e] p by (auto simp: points_def)
    moreover have "same_copy fs k b" using c k b(1,2) by (simp add: copies_agree_def)
    ultimately show ?thesis using b(3) by (simp add: same_copy_def g ent_put_block [OF wf p])
  qed
  then show ?thesis by (simp add: copies_agree_def g)
qed

lemma copies_agree_only_faults: "only_faults fs fs' \<Longrightarrow> copies_agree fs' B = copies_agree fs B"
  by (auto simp: only_faults_def copies_agree_def same_copy_def in_table_def)

lemma bhs_in_table: "wf_fat fs \<Longrightarrow> points fs fe \<Longrightarrow> entry fe < max_cluster fs \<Longrightarrow> \<forall>b \<in> set (bhs fe). in_table fs b"
  using ent_blocks_in_table [of fs "entry fe"] by (simp add: points_def)

lemma ent_write_run:
  assumes wf: "wf_fat fs" and p: "points fs fe" and e: "entry fe < max_cluster fs" and run: "run_state (fat_ent_write fe v wait) fs = (r, fs')"
  obtains fs2 where "only_faults (ent_put fe v fs) fs2" "mirrors fs2 fs'" "r = Inr () \<and> copies_agree fs {} \<longrightarrow> copies_agree fs' {}"
proof -
  define w where "w = (if wait then fat_sync_bhs (bhs fe) else ret (Inr ()))"
  define fs1 where "fs1 = ent_put fe v fs"
  have kw: "keeps only_faults w" unfolding w_def by (intro ofa.keeps_intros ofa_fat_sync_bhs)
  obtain r2 fs2 where r2: "run_state w fs1 = (r2, fs2)" by (metis surj_pair)
  have of: "only_faults fs1 fs2" using keepsD [OF kw r2] .
  show thesis
  proof (cases r2)
    case (Inl err)
    then have "r = Inl err" "fs' = fs2"
      using run r2 by (auto simp: fat_ent_write_def upd_fs_def simp flip: w_def fs1_def)
    then show thesis using that [of fs2] of mir.frame_refl by (simp add: fs1_def)
  next
    case (Inr u)
    then have r3: "run_state (fat_mirror_bhs (bhs fe)) fs2 = (r, fs')"
      using run r2 by (auto simp: fat_ent_write_def upd_fs_def simp flip: w_def fs1_def)
    have g: "geometry fs2 = geometry fs" using only_faults_inv(1) [OF of] by (simp add: fs1_def)
    have tb: "\<forall>b \<in> set (bhs fe). in_table fs2 b" using bhs_in_table [OF wf p e] in_table_cong [OF g] by simp
    have "copies_agree fs2 (set (bhs fe))" if "copies_agree fs {}"
      using copies_agree_put [OF wf p e that] copies_agree_only_faults [OF of] by (simp add: fs1_def)
    then show thesis
      using that [of fs2] of fat_mirror_bhs_spec(1) [OF r3 tb] fat_mirror_bhs_spec(2) [OF r3 tb, of "{}"] by (simp add: fs1_def)
  qed
qed

lemma ent_write_table:
  assumes wf: "wf_fat fs" and p: "points fs fe" and v: "v < bad_of (fatent_ops fs) \<or> v = FAT_ENT_EOF"
    and of: "only_faults (ent_put fe v fs) fs2" and m: "mirrors fs2 fs'" and x: "x < max_cluster fs"
  shows "ftab fs' x = (if x = entry fe then v else ftab fs x)"
proof -
  have g: "geometry fs2 = geometry fs" using only_faults_inv(1) [OF of] by simp
  have "ftab fs' x = ftab fs2 x" using x geometry_fields(6,11) [OF g] wf by (intro mirrors_ftab [OF _ m]) simp_all
  moreover have "ftab fs2 = (ftab fs)(entry fe := v)" using only_faults_inv(3) [OF of] ftab_ent_put [OF p v] by simp
  ultimately show ?thesis by simp
qed

text \<open>
  C12 (writing an entry of the table).  When \<^verbatim>\<open>fat_ent_write\<close> on a positioned entry structure reports success, the table holds the
  new value at that entry and its old value at every other cluster; and if every copy of the table agreed with the first one,
  every copy agrees with it afterwards, also for a FAT12 entry that lies across two blocks.
\<close>

theorem fat_ent_write_mirrored:
  assumes wf: "wf_fat fs" and p: "points fs fe" and e: "entry fe < max_cluster fs"
    and v: "v < bad_of (fatent_ops fs) \<or> v = FAT_ENT_EOF" and c: "copies_agree fs {}"
    and run: "run_state (fat_ent_write fe v wait) fs = (Inr (), fs')"
  shows "(\<forall>x < max_cluster fs. ftab fs' x = (if x = entry fe then v else ftab fs x)) \<and> copies_agree fs' {}"
proof -
  obtain fs2 where fs2: "only_faults (ent_put fe v fs) fs2" "mirrors fs2 fs'" "copies_agree fs' {}"
    using ent_write_run [OF wf p e run] c by blast
  then show ?thesis using ent_write_table [OF wf p v fs2(1,2)] by simp
qed

definition ex_options :: fat_mount_options where
  "ex_options = \<lparr>fs_fmask = 18, fs_dmask = 18, time_offset = 0, sys_immutable = False, showexec = False, isvfat = True,
     usefree = False, tz_set = True, rodir = False, dos1xfloppy = False\<rparr>"

definition ex_fat12 :: fat_fs where
  "ex_fat12 = \<lparr>s_blocksize = 8, s_blocksize_bits = 3, s_rdonly = False, s_synchronous = True, fat_bits = 12, fats = 2,
     fat_start = 1, fat_length = 2, max_cluster = 10, prev_free = 2, free_clusters = 8, free_clus_valid = True,
     sec_per_clus = 1, data_start = 6, opt_discard = True, opt_errors = FAT_ERRORS_RO, fatent_shift = - 1, fatent_ops = fat12_ops,
     fsinfo_dirty = False, panicked = False, discarded = [], fdev = (\<lambda>_. 0), faults = [],
     cluster_bits = 3, s_maxbytes = 1000, dir_start = 5, dir_entries = 2, dir_per_block_bits = 0, root_cluster = 0,
     fsinfo_sector = 0, options = ex_options, tz_minuteswest = 0\<rparr>"

lemma ex_fat12_wf: "wf_fat ex_fat12"
  by (simp add: wf_fat_def ex_fat12_def fat_consts)

lemma ex_fat12_agree: "copies_agree ex_fat12 B"
  by (simp add: copies_agree_def same_copy_def ex_fat12_def)

definition ex_entry5 :: fat_entry where
  "ex_entry5 = \<lparr>entry = 5, ent_p0 = Some 15, ent_p1 = Some 16, nr_bhs = 2, bhs = [1, 2]\<rparr>"

lemma ex_entry5_points: "points ex_fat12 ex_entry5"
  by (simp add: points_def ex_fat12_def ex_entry5_def ent_blocks_def fbase_def)

theorem fat_ent_write_mirrored_witness:
  "case run_state (fat_ent_write ex_entry5 7 True) ex_fat12 of (r, fs') \<Rightarrow>
     r = Inr () \<and> ftab fs' 5 = 7 \<and> ftab fs' 4 = 0 \<and> ftab fs' 6 = 0 \<and> copies_agree fs' {}"
proof -
  obtain r fs' where run: "run_state (fat_ent_write ex_entry5 7 True) ex_fat12 = (r, fs')" by (metis surj_pair)
  then have r: "r = Inr ()"
    by (simp add: fat_ent_write_def upd_fs_def fat_mirror_bhs_def ex_entry5_def ex_fat12_def ent_put_def fallible_def copy_block_def upt_rec)
  have "ftab ex_fat12 4 = 0" "ftab ex_fat12 6 = 0"
    by (simp_all add: ex_fat12_def ftab_def fbase_def fat12_ent_get_def fat_consts)
  then show ?thesis
    using fat_ent_write_mirrored [OF ex_fat12_wf ex_entry5_points _ _ ex_fat12_agree run [unfolded r]] run r
    by (simp add: ex_fat12_def ex_entry5_def fat_consts)
qed

end
