(* ===== verification/Fat_Free.thy ===== *)
theory Fat_Free
  imports Fat_Mirror
begin

text \<open>
  Releasing a cluster chain and counting the free clusters: \<^verbatim>\<open>fat_free_clusters\<close> and \<^verbatim>\<open>fat_count_free_clusters\<close> of
  \<^verbatim>\<open>fat/fatent.c\<close>.  The loops follow numbers read from the table, so they are partial functions in the option
  monad, where not returning is \<open>None\<close>; that they return on every table, also on one whose chains have a cycle,
  is proved.
\<close>

subsection \<open>The operations\<close>

text \<open>Four KiB pages and 512-byte sectors.\<close>

definition MAX_BUF_PER_PAGE :: nat where "MAX_BUF_PER_PAGE = 8"

definition flush_bhs :: "bool \<Rightarrow> nat list \<Rightarrow> (fat_fs, errno + unit) state" where
  "flush_bhs sync bs = do {
     r \<leftarrow> (if sync then fat_sync_bhs bs else ret (Inr ()));
     case r of
       Inl e \<Rightarrow> ret (Inl e)
     | Inr _ \<Rightarrow> fat_mirror_bhs bs
   }"

definition free_entry :: "fat_entry \<Rightarrow> u32 \<Rightarrow> int \<Rightarrow> bool \<Rightarrow> fat_fs \<Rightarrow> int \<times> bool \<times> fat_fs" where
  "free_entry fe cluster first_cl dirty_fsinfo fs =
     (let (first_cl, fs) =
            (if opt_discard fs \<and> uint cluster \<noteq> int (entry fe) + 1
             then (let nr_clus = int (entry fe) - first_cl + 1
                   in (uint cluster, fs\<lparr>discarded := discarded fs @ [(fat_clus_to_blknr fs first_cl, nat nr_clus * sec_per_clus fs)]\<rparr>))
             else (first_cl, fs));
          fs = ent_put fe FAT_ENT_FREE fs
      in if free_clusters fs \<noteq> - 1 then (first_cl, True, fs\<lparr>free_clusters := free_clusters fs + 1\<rparr>)
         else (first_cl, dirty_fsinfo, fs))"

partial_function (option) free_loop ::
    "fat_entry \<Rightarrow> int \<Rightarrow> int \<Rightarrow> nat list \<Rightarrow> bool \<Rightarrow> fat_fs \<Rightarrow> ((errno + nat list) \<times> bool \<times> fat_fs) option" where
  "free_loop fe cluster first_cl bs dirty_fsinfo fs =
     (case run_state (fat_ent_read fe cluster) fs of ((r, fe), fs) \<Rightarrow>
        (case r of
           Inl err \<Rightarrow> Some (Inl err, dirty_fsinfo, fs)
         | Inr cluster \<Rightarrow>
             if cluster = FAT_ENT_FREE then Some (Inl EIO, dirty_fsinfo, snd (run_state fat_fs_error fs))
             else (case free_entry fe cluster first_cl dirty_fsinfo fs of (first_cl, dirty_fsinfo, fs) \<Rightarrow>
               (let full = MAX_BUF_PER_PAGE < length bs + nr_bhs fe
                in case (if full then run_state (flush_bhs (s_synchronous fs) bs) fs else (Inr (), fs)) of (r, fs) \<Rightarrow>
                  (case r of
                     Inl err \<Rightarrow> Some (Inl err, dirty_fsinfo, fs)
                   | Inr _ \<Rightarrow>
                       (let bs = fat_collect_bhs (if full then [] else bs) (bhs fe)
                        in if cluster \<noteq> FAT_ENT_EOF then free_loop fe (uint cluster) first_cl bs dirty_fsinfo fs
                           else Some (Inr bs, dirty_fsinfo, fs)))))))"

definition fat_free_clusters :: "int \<Rightarrow> fat_fs \<Rightarrow> ((errno + unit) \<times> fat_fs) option" where
  "fat_free_clusters cluster fs =
     (case free_loop fatent_init cluster cluster [] False fs of
        None \<Rightarrow> None
      | Some (r, dirty_fsinfo, fs) \<Rightarrow>
          (let (err, fs) = (case r of Inl err \<Rightarrow> (Inl err, fs) | Inr bs \<Rightarrow> run_state (flush_bhs (s_synchronous fs) bs) fs)
           in Some (err, if dirty_fsinfo then mark_fsinfo_dirty fs else fs)))"

partial_function (option) count_block :: "fat_entry \<Rightarrow> nat \<Rightarrow> fat_fs \<Rightarrow> (fat_entry \<times> nat) option" where
  "count_block fe free fs =
     (let free = (if ent_get fs fe = FAT_ENT_FREE then free + 1 else free)
      in case fat_ent_next fs fe of (again, fe) \<Rightarrow> if again then count_block fe free fs else Some (fe, free))"

partial_function (option) count_loop :: "fat_entry \<Rightarrow> nat \<Rightarrow> fat_fs \<Rightarrow> ((errno + nat) \<times> fat_fs) option" where
  "count_loop fe free fs =
     (if entry fe < max_cluster fs
      then (case run_state (fat_ent_read_block fe) fs of ((r, fe), fs) \<Rightarrow>
             (case r of
                Inl err \<Rightarrow> Some (Inl err, fs)
              | Inr _ \<Rightarrow> Option.bind (count_block fe free fs) (\<lambda>(fe, free). count_loop fe free fs)))
      else Some (Inr free, fs))"

definition fat_count_free_clusters :: "fat_fs \<Rightarrow> ((errno + unit) \<times> fat_fs) option" where
  "fat_count_free_clusters fs =
     (if free_clusters fs \<noteq> - 1 \<and> free_clus_valid fs then Some (Inr (), fs)
      else (case count_loop (fatent_set_entry fatent_init FAT_START_ENT) 0 fs of
              None \<Rightarrow> None
            | Some (Inl err, fs) \<Rightarrow> Some (Inl err, fs)
            | Some (Inr free, fs) \<Rightarrow>
                Some (Inr (), mark_fsinfo_dirty (fs\<lparr>free_clusters := of_nat free, free_clus_valid := True\<rparr>))))"

subsection \<open>Free and used clusters\<close>

definition valid_clus :: "fat_fs \<Rightarrow> nat \<Rightarrow> bool" where
  "valid_clus fs e \<longleftrightarrow> FAT_START_ENT \<le> e \<and> e < max_cluster fs"

definition free_set :: "fat_fs \<Rightarrow> nat set" where
  "free_set fs = {e. valid_clus fs e \<and> ftab fs e = FAT_ENT_FREE}"

definition used_set :: "fat_fs \<Rightarrow> nat set" where
  "used_set fs = {e. valid_clus fs e \<and> ftab fs e \<noteq> FAT_ENT_FREE}"

definition cnt_ok :: "fat_fs \<Rightarrow> bool" where
  "cnt_ok fs \<longleftrightarrow> free_clusters fs = - 1 \<or> free_clusters fs = of_nat (card (free_set fs))"

lemma finite_free_set [simp]: "finite (free_set fs)" "finite (used_set fs)"
  by (auto simp: free_set_def used_set_def valid_clus_def intro: finite_subset [of _ "{..<max_cluster fs}"])

lemma valid_clus_cong: "geometry fs' = geometry fs \<Longrightarrow> valid_clus fs' e = valid_clus fs e"
  using geometry_fields(6) [of fs' fs] by (simp add: valid_clus_def)

lemma valid_entry_clus: "fat_valid_entry fs e \<longleftrightarrow> 0 \<le> e \<and> valid_clus fs (nat e)"
  by (auto simp: fat_valid_entry_def valid_clus_def FAT_START_ENT_def)

text \<open>Same table, same accounting.\<close>

definition still :: "fat_fs \<Rightarrow> fat_fs \<Rightarrow> bool" where
  "still fs fs' \<longleftrightarrow> geometry fs' = geometry fs \<and> (\<forall>e < max_cluster fs. ftab fs' e = ftab fs e) \<and>
     free_clusters fs' = free_clusters fs \<and> prev_free fs' = prev_free fs \<and> free_clus_valid fs' = free_clus_valid fs"

lemma still_geometry: "still fs fs' \<Longrightarrow> geometry fs' = geometry fs"
  by (simp add: still_def)

lemma still_only_faults: "only_faults fs fs' \<Longrightarrow> still fs fs'"
  using only_faults_inv [of fs fs'] by (simp add: still_def)

lemma still_mirrors:
  assumes "wf_fat fs" and "mirrors fs fs'"
  shows "still fs fs'"
proof -
  have "free_clusters fs' = free_clusters fs \<and> prev_free fs' = prev_free fs \<and> free_clus_valid fs' = free_clus_valid fs"
    using assms(2) unfolding mirrors_def by (metis fat_fs.select_convs fat_fs.surjective fat_fs.update_convs(22,23))
  then show ?thesis using mirrors_geometry [OF assms(2)] mirrors_ftab [OF assms] by (simp add: still_def)
qed

lemma still_error: "still fs (snd (run_state fat_fs_error fs))"
  by (auto simp: still_def fat_fs_error_def upd_fs_def split: fat_errors.split)

lemma error_faults [simp]: "faults (snd (run_state fat_fs_error fs)) = faults fs"
  by (auto simp: fat_fs_error_def upd_fs_def split: fat_errors.split)

lemma still_mark: "still fs (mark_fsinfo_dirty fs)"
  by (simp add: still_def mark_fsinfo_dirty_def)

lemma still_sets:
  assumes "still fs fs'"
  shows "free_set fs' = free_set fs" "cnt_ok fs' = cnt_ok fs"
proof -
  show f: "free_set fs' = free_set fs"
    using assms valid_clus_cong [OF still_geometry [OF assms]] by (auto simp: still_def free_set_def valid_clus_def)
  show "cnt_ok fs' = cnt_ok fs" using assms by (simp add: cnt_ok_def f still_def)
qed

text \<open>The clusters \<open>cs\<close>, all in use before, are free and every other entry is as it was.\<close>

definition freed :: "fat_fs \<Rightarrow> nat list \<Rightarrow> fat_fs \<Rightarrow> bool" where
  "freed fs cs fs' \<longleftrightarrow> geometry fs' = geometry fs \<and> distinct cs \<and> set cs \<subseteq> used_set fs \<and>
     (\<forall>e < max_cluster fs. ftab fs' e = (if e \<in> set cs then FAT_ENT_FREE else ftab fs e)) \<and>
     (cnt_ok fs \<longrightarrow> cnt_ok fs') \<and> prev_free fs' = prev_free fs \<and> free_clus_valid fs' = free_clus_valid fs"

lemma freed_still: "still fs fs' \<Longrightarrow> freed fs [] fs'"
  using still_sets(2) [of fs fs'] by (simp add: freed_def still_def)

lemma freed_geometry: "freed fs cs fs' \<Longrightarrow> geometry fs' = geometry fs"
  by (simp add: freed_def)

lemma freed_used:
  assumes "freed fs cs fs'"
  shows "used_set fs' = used_set fs - set cs"
proof -
  have m: "max_cluster fs' = max_cluster fs" using freed_geometry [OF assms] by (rule geometry_fields(6))
  have "ftab fs' e = (if e \<in> set cs then FAT_ENT_FREE else ftab fs e)" if "e < max_cluster fs" for e
    using assms that by (simp add: freed_def)
  then show ?thesis by (auto simp: used_set_def valid_clus_def m split: if_splits)
qed

lemma freed_trans:
  assumes "freed fs cs fs1" and "freed fs1 ds fs2"
  shows "freed fs (cs @ ds) fs2"
proof -
  have m: "max_cluster fs1 = max_cluster fs" using freed_geometry [OF assms(1)] by (rule geometry_fields(6))
  have "set ds \<subseteq> used_set fs - set cs" using assms freed_used [OF assms(1)] by (simp add: freed_def)
  then show ?thesis using assms m by (auto simp: freed_def)
qed

lemma freed_still_trans: "freed fs cs fs1 \<Longrightarrow> still fs1 fs2 \<Longrightarrow> freed fs cs fs2"
  using freed_trans [OF _ freed_still, of fs cs fs1 fs2] by simp

lemma used_decreases:
  assumes "freed fs [c] fs'"
  shows "card (used_set fs') < card (used_set fs)"
proof -
  have "c \<in> used_set fs" using assms by (simp add: freed_def)
  then show ?thesis using freed_used [OF assms] card_Diff1_less [of "used_set fs" c] by simp
qed

lemma free_entry_freed:
  assumes wf: "wf_fat fs" and p: "points fs fe" and e: "entry fe \<in> used_set fs"
    and fe: "free_entry fe cluster first_cl dirty fs = (first_cl', dirty', fs')"
  shows "freed fs [entry fe] fs'" and "copies_agree fs B \<Longrightarrow> copies_agree fs' (B \<union> set (bhs fe))" and "faults fs' = faults fs"
proof -
  define fs0 where "fs0 = (if opt_discard fs \<and> uint cluster \<noteq> int (entry fe) + 1
      then fs\<lparr>discarded := discarded fs @ [(fat_clus_to_blknr fs first_cl, nat (int (entry fe) - first_cl + 1) * sec_per_clus fs)]\<rparr> else fs)"
  define fs1 where "fs1 = ent_put fe FAT_ENT_FREE fs0"
  have fs': "fs' = (if free_clusters fs1 \<noteq> - 1 then fs1\<lparr>free_clusters := free_clusters fs1 + 1\<rparr> else fs1)"
    using fe by (auto simp: free_entry_def Let_def fs1_def fs0_def split: if_splits)
  have g0: "geometry fs0 = geometry fs" "ftab fs0 = ftab fs" "fdev fs0 = fdev fs" "free_clusters fs0 = free_clusters fs"
    "prev_free fs0 = prev_free fs" "free_clus_valid fs0 = free_clus_valid fs" "faults fs0 = faults fs"
    by (simp_all add: fs0_def)
  have p0: "points fs0 fe" using p geometry_fields(12) [OF g0(1)] by simp
  have v: "FAT_ENT_FREE < bad_of (fatent_ops fs0) \<or> FAT_ENT_FREE = FAT_ENT_EOF" by (rule tab.free_ok)
  have t1: "ftab fs1 = (ftab fs)(entry fe := FAT_ENT_FREE)" using ftab_ent_put [OF p0 v] g0(2) by (simp add: fs1_def)
  have g1: "geometry fs1 = geometry fs" "free_clusters fs1 = free_clusters fs" "prev_free fs1 = prev_free fs"
    "free_clus_valid fs1 = free_clus_valid fs" "faults fs1 = faults fs"
    using g0 by (simp_all add: fs1_def ent_put_def geometry_def)
  have g': "geometry fs' = geometry fs" "prev_free fs' = prev_free fs" "free_clus_valid fs' = free_clus_valid fs"
    "faults fs' = faults fs" "ftab fs' = (ftab fs)(entry fe := FAT_ENT_FREE)" "fdev fs' = fdev fs1"
    using g1 t1 by (simp_all add: fs')
  have m: "max_cluster fs' = max_cluster fs" using geometry_fields(6) [OF g'(1)] .
  have "free_set fs' = insert (entry fe) (free_set fs)" "entry fe \<notin> free_set fs"
    using e g'(5) m by (auto simp: free_set_def used_set_def valid_clus_def split: if_splits)
  then have "cnt_ok fs \<longrightarrow> cnt_ok fs'" using g1(2) by (auto simp: cnt_ok_def fs')
  then show "freed fs [entry fe] fs'" using g' e by (simp add: freed_def)
  show "faults fs' = faults fs" by (rule g'(4))
  assume "copies_agree fs B"
  then have "copies_agree fs0 B"
    using geometry_fields [OF g0(1)] in_table_cong [OF g0(1)] g0(3) by (simp add: copies_agree_def same_copy_def)
  then have "copies_agree fs1 (B \<union> set (bhs fe))" unfolding fs1_def
    using wf geometry_fields(6,11) [OF g0(1)] e by (intro copies_agree_put p0) (simp_all add: used_set_def valid_clus_def)
  then show "copies_agree fs' (B \<union> set (bhs fe))" by (simp add: fs' copies_agree_def same_copy_def in_table_def)
qed

lemma set_collect_bhs [simp]: "set (fat_collect_bhs bs xs) = set bs \<union> set xs"
  by (induction bs xs rule: fat_collect_bhs.induct) auto

lemma flush_bhs_spec:
  assumes run: "run_state (flush_bhs sync bs) fs = (r, fs')" and bs: "\<forall>b \<in> set bs. in_table fs b"
  shows "mirrors fs fs'" and "r = Inr () \<Longrightarrow> copies_agree fs (set bs \<union> X) \<Longrightarrow> copies_agree fs' X"
proof -
  define w where "w = (if sync then fat_sync_bhs bs else ret (Inr ()))"
  have kw: "keeps only_faults w" unfolding w_def by (intro ofa.keeps_intros ofa_fat_sync_bhs)
  obtain r1 fs1 where r1: "run_state w fs = (r1, fs1)" by (metis surj_pair)
  have of: "only_faults fs fs1" using keepsD [OF kw r1] .
  have res: "(\<exists>e. r = Inl e \<and> fs' = fs1) \<or> run_state (fat_mirror_bhs bs) fs1 = (r, fs')"
    using run r1 by (auto simp: flush_bhs_def simp flip: w_def split: sum.splits)
  have tb: "\<forall>b \<in> set bs. in_table fs1 b" using bs in_table_cong [OF only_faults_inv(1) [OF of]] by simp
  show "mirrors fs fs'"
    using res mirrors_only_faults [OF of] fat_mirror_bhs_spec(1) [OF _ tb] mir.frame_trans by blast
  show "copies_agree fs' X" if "r = Inr ()" "copies_agree fs (set bs \<union> X)"
    using res that fat_mirror_bhs_spec(2) [OF _ tb, of r fs' X] copies_agree_only_faults [OF of] by auto
qed

subsection \<open>Runs in which no access fails\<close>

lemma fallible_calm [simp]: "faults fs = [] \<Longrightarrow> run_state (fallible e) fs = (Inr (), fs)"
  by (simp add: fallible_def)

lemma fat_sync_bhs_calm: "faults fs = [] \<Longrightarrow> run_state (fat_sync_bhs bs) fs = (Inr (), fs)"
  by (induction bs) simp_all

lemma mirror_blocks_calm: "faults fs = [] \<Longrightarrow> \<exists>fs'. run_state (mirror_blocks k bs) fs = (Inr (), fs') \<and> faults fs' = []"
proof (induction bs arbitrary: fs)
  case (Cons b bs)
  then show ?case by (simp add: upd_fs_def copy_block_def)
qed simp

lemma mirror_copies_calm: "faults fs = [] \<Longrightarrow> \<exists>fs'. run_state (mirror_copies cs bs) fs = (Inr (), fs') \<and> faults fs' = []"
proof (induction cs arbitrary: fs)
  case (Cons c cs)
  then obtain fs1 where "run_state (mirror_blocks (fat_length fs * c) bs) fs = (Inr (), fs1)" "faults fs1 = []"
    using mirror_blocks_calm by blast
  then show ?case using Cons.IH by simp
qed simp

lemma flush_bhs_calm: "faults fs = [] \<Longrightarrow> \<exists>fs'. run_state (flush_bhs sync bs) fs = (Inr (), fs') \<and> faults fs' = []"
  using mirror_copies_calm [of fs "[1..<fats fs]" bs] by (simp add: flush_bhs_def fat_mirror_bhs_def fat_sync_bhs_calm)

lemma ent_bread_calm: "faults fs = [] \<Longrightarrow> \<exists>fe'. run_state (ent_bread ops fe offset blocknr) fs = ((Inr (), fe'), fs)"
  by (cases ops) (simp_all add: fat12_ent_bread_def fat_ent_bread_def sb_bread_def)

lemma fat_ent_read_calm:
  assumes "faults fs = []" and "fat_valid_entry fs e"
  shows "\<exists>v fe'. run_state (fat_ent_read fe e) fs = ((Inr v, fe'), fs)"
proof -
  obtain offset blocknr where b: "ent_blocknr fs (fatent_ops fs) (nat e) = (offset, blocknr)" by (metis surj_pair)
  obtain hit fe1 where u: "fat_ent_update_ptr fs (fatent_set_entry fe (nat e)) offset blocknr = (hit, fe1)" by (metis surj_pair)
  obtain fe2 where "run_state (ent_bread (fatent_ops fs) (fatent_brelse fe1) offset blocknr) fs = ((Inr (), fe2), fs)"
    using ent_bread_calm [OF assms(1)] by blast
  then show ?thesis using assms(2) b u by (cases hit) (simp_all add: fat_ent_read_def)
qed

subsection \<open>Chains\<close>

definition file_chain :: "fat_fs \<Rightarrow> nat list \<Rightarrow> bool" where
  "file_chain fs cs \<longleftrightarrow> cs \<noteq> [] \<and> distinct cs \<and> (\<forall>c \<in> set cs. valid_clus fs c) \<and> chain (ftab fs) cs FAT_ENT_EOF"

lemma valid_small:
  assumes "wf_fat fs" and "valid_clus fs c"
  shows "unat (of_nat c :: u32) = c" and "(of_nat c :: u32) < bad_of (fatent_ops fs)" and "(of_nat c :: u32) \<noteq> FAT_ENT_FREE"
    and "(of_nat c :: u32) \<noteq> FAT_ENT_EOF"
proof -
  have le: "c < unat (bad_of (fatent_ops fs))" using assms by (simp add: wf_fat_def valid_clus_def)
  also have "\<dots> < 2 ^ 32" using unsigned_less [of "bad_of (fatent_ops fs)"] by simp
  finally show u: "unat (of_nat c :: u32) = c" by (simp add: unsigned_of_nat take_bit_nat_eq_self_iff)
  then show "(of_nat c :: u32) < bad_of (fatent_ops fs)" using le by (simp add: word_less_nat_alt)
  then show "(of_nat c :: u32) \<noteq> FAT_ENT_EOF" using tab.bad_range(2) [of "fatent_ops fs"] by auto
  show "(of_nat c :: u32) \<noteq> FAT_ENT_FREE" using u assms(2) by (auto simp: FAT_ENT_FREE_def valid_clus_def FAT_START_ENT_def)
qed

lemma chain_Cons: "ds \<noteq> [] \<Longrightarrow> chain f (c # ds) x \<longleftrightarrow> f c = of_nat (hd ds) \<and> chain f ds x"
  by (cases ds) simp_all

lemma chain_unique:
  assumes wf: "wf_fat fs" and "file_chain fs cs" and "file_chain fs ds" and "hd cs = hd ds"
  shows "cs = ds"
  using assms(2-4)
proof (induction cs arbitrary: ds)
  case (Cons c cs)
  from Cons.prems obtain ds' where ds: "ds = c # ds'" by (cases ds) (auto simp: file_chain_def)
  have tl: "file_chain fs xs" if "file_chain fs (c # xs)" "xs \<noteq> []" for xs
    using that chain_Cons [OF that(2)] by (simp add: file_chain_def)
  have nx: "ftab fs c = (if xs = [] then FAT_ENT_EOF else of_nat (hd xs))" if "file_chain fs (c # xs)" for xs
    using that chain_Cons [of xs] by (auto simp: file_chain_def)
  have v: "valid_clus fs (hd xs)" if "file_chain fs (c # xs)" "xs \<noteq> []" for xs using that by (simp add: file_chain_def)
  have "cs = [] \<longleftrightarrow> ds' = []"
    using nx [OF Cons.prems(1)] nx [OF Cons.prems(2) [unfolded ds]] v [OF Cons.prems(1)] v [OF Cons.prems(2) [unfolded ds]]
      valid_small(4) [OF wf] by (auto split: if_splits) metis+
  moreover have "cs = ds'" if "cs \<noteq> []" "ds' \<noteq> []"
  proof (rule Cons.IH [OF tl [OF Cons.prems(1) that(1)] tl [OF Cons.prems(2) [unfolded ds] that(2)]])
    have "(of_nat (hd cs) :: u32) = of_nat (hd ds')"
      using nx [OF Cons.prems(1)] nx [OF Cons.prems(2) [unfolded ds]] that by simp
    then show "hd cs = hd ds'"
      using valid_small(1) [OF wf] v [OF Cons.prems(1) that(1)] v [OF Cons.prems(2) [unfolded ds] that(2)] by metis
  qed
  ultimately show ?case using ds by auto
qed (simp add: file_chain_def)

lemma chain_freed:
  assumes "freed fs [c] fs'" and "c \<notin> set cs" and "\<forall>d \<in> set cs. d < max_cluster fs"
  shows "chain (ftab fs') cs x = chain (ftab fs) cs x"
  using assms by (intro chain_cong) (auto simp: freed_def)

subsection \<open>Releasing a chain\<close>

definition free_post :: "fat_fs \<Rightarrow> int \<Rightarrow> nat list \<Rightarrow> (errno + nat list) \<Rightarrow> fat_fs \<Rightarrow> bool" where
  "free_post fs cluster bs res fs' \<longleftrightarrow>
     (\<exists>cs. freed fs cs fs' \<and> (case res of Inl e \<Rightarrow> True | Inr bs' \<Rightarrow>
        cs \<noteq> [] \<and> hd cs = nat cluster \<and> chain (ftab fs) cs FAT_ENT_EOF \<and> (\<forall>b \<in> set bs'. in_table fs b) \<and>
        (copies_agree fs (set bs) \<longrightarrow> copies_agree fs' (set bs')))) \<and>
     (faults fs = [] \<longrightarrow> faults fs' = [] \<and>
        (\<forall>cs. file_chain fs cs \<and> int (hd cs) = cluster \<longrightarrow> (\<exists>bs'. res = Inr bs')))"

lemma free_post_error:
  assumes "still fs fs'" "faults fs = [] \<Longrightarrow> faults fs' = []"
    and "\<And>cs. faults fs = [] \<Longrightarrow> file_chain fs cs \<Longrightarrow> int (hd cs) = cluster \<Longrightarrow> False"
  shows "free_post fs cluster bs (Inl e) fs'"
  using assms freed_still [OF assms(1)] by (auto simp: free_post_def)

lemma file_chain_not_free:
  assumes "wf_fat fs" and "file_chain fs cs"
  shows "ftab fs (hd cs) \<noteq> FAT_ENT_FREE" "valid_clus fs (hd cs)"
proof -
  obtain c ds where cs: "cs = c # ds" using assms(2) by (cases cs) (auto simp: file_chain_def)
  show "valid_clus fs (hd cs)" using assms(2) cs by (simp add: file_chain_def)
  show "ftab fs (hd cs) \<noteq> FAT_ENT_FREE"
  proof (cases ds)
    case Nil
    then show ?thesis using assms(2) cs by (simp add: file_chain_def fat_consts)
  next
    case (Cons d es)
    then show ?thesis using assms(2) cs valid_small(3) [OF assms(1), of d] by (simp add: file_chain_def)
  qed
qed

text \<open>One turn: the entry is released and the chain continues behind it.\<close>

lemma free_post_step:
  assumes wf: "wf_fat fs" and e: "c \<in> used_set fs" and f1: "freed fs [c] fs1"
    and ag: "copies_agree fs (set bs) \<Longrightarrow> copies_agree fs1 (set bs1)" and fa: "faults fs = [] \<Longrightarrow> faults fs1 = []"
    and ne: "ftab fs c \<noteq> FAT_ENT_EOF"
    and post: "free_post fs1 (uint (ftab fs c)) bs1 res fs'"
  shows "free_post fs (int c) bs res fs'"
proof -
  have g: "geometry fs1 = geometry fs" using freed_geometry [OF f1] .
  have m: "max_cluster fs1 = max_cluster fs" using geometry_fields(6) [OF g] .
  obtain ds where ds: "freed fs1 ds fs'" and r: "case res of Inl e \<Rightarrow> True | Inr bs' \<Rightarrow>
        ds \<noteq> [] \<and> hd ds = nat (uint (ftab fs c)) \<and> chain (ftab fs1) ds FAT_ENT_EOF \<and> (\<forall>b \<in> set bs'. in_table fs1 b) \<and>
        (copies_agree fs1 (set bs1) \<longrightarrow> copies_agree fs' (set bs'))"
    using post by (auto simp: free_post_def)
  have all: "freed fs (c # ds) fs'" using freed_trans [OF f1 ds] by simp
  have fresh: "c \<notin> set ds" "\<forall>d \<in> set ds. d < max_cluster fs"
    using all by (auto simp: freed_def used_set_def valid_clus_def)
  have ok: "case res of Inl e \<Rightarrow> True | Inr bs' \<Rightarrow> c # ds \<noteq> [] \<and> hd (c # ds) = nat (int c) \<and>
      chain (ftab fs) (c # ds) FAT_ENT_EOF \<and> (\<forall>b \<in> set bs'. in_table fs b) \<and> (copies_agree fs (set bs) \<longrightarrow> copies_agree fs' (set bs'))"
  proof (cases res)
    case (Inr bs')
    then have d: "ds \<noteq> []" "hd ds = unat (ftab fs c)" "chain (ftab fs1) ds FAT_ENT_EOF" using r by simp_all
    then have "chain (ftab fs) (c # ds) FAT_ENT_EOF" using chain_freed [OF f1 fresh] chain_Cons [OF d(1)] by simp
    then show ?thesis using Inr r ag in_table_cong [OF g] by simp
  qed simp
  have calm: "\<exists>bs'. res = Inr bs'" if fc: "faults fs = []" "file_chain fs cs" "hd cs = c" for cs
  proof -
    obtain es where cs: "cs = c # es" using fc(2,3) by (cases cs) (auto simp: file_chain_def)
    then have es: "es \<noteq> []" using fc(2) ne by (auto simp: file_chain_def)
    have nx: "ftab fs c = of_nat (hd es)" "chain (ftab fs) es FAT_ENT_EOF"
      using fc(2) chain_Cons [OF es] by (simp_all add: cs file_chain_def)
    have v: "valid_clus fs (hd es)" using fc(2) es by (simp add: cs file_chain_def)
    have "file_chain fs1 es"
      using fc(2) es nx(2) valid_clus_cong [OF g] chain_freed [OF f1, of es FAT_ENT_EOF]
      by (auto simp: cs file_chain_def valid_clus_def)
    moreover have "int (hd es) = uint (ftab fs c)" using nx(1) valid_small(1) [OF wf v] by (metis uint_nat)
    ultimately show ?thesis using post fa [OF fc(1)] by (auto simp: free_post_def)
  qed
  have "faults fs = [] \<Longrightarrow> faults fs' = []" using fa post by (simp add: free_post_def)
  then show ?thesis
    unfolding free_post_def using all ok calm by (intro conjI exI [of _ "c # ds"]) auto
qed

lemma free_turn:
  assumes wf: "wf_fat fs" and p: "points fs fe" and e: "entry fe \<in> used_set fs" and bs: "\<forall>b \<in> set bs. in_table fs b"
    and fe: "free_entry fe cluster first_cl dirty fs = (first_cl', dirty', fs2)"
    and fl: "(if full then run_state (flush_bhs sync bs) fs2 else (Inr (), fs2)) = (r, fs3)"
  shows "freed fs [entry fe] fs3"
    and "r = Inr () \<Longrightarrow> copies_agree fs (set bs) \<Longrightarrow> copies_agree fs3 (set (fat_collect_bhs (if full then [] else bs) (bhs fe)))"
    and "\<forall>b \<in> set (fat_collect_bhs (if full then [] else bs) (bhs fe)). in_table fs b"
    and "faults fs = [] \<Longrightarrow> faults fs3 = [] \<and> r = Inr ()"
proof -
  note f = free_entry_freed [OF wf p e fe]
  have g: "geometry fs2 = geometry fs" using freed_geometry [OF f(1)] .
  have bs2: "\<forall>b \<in> set bs. in_table fs2 b" using bs in_table_cong [OF g] by simp
  have wf2: "wf_fat fs2" using wf geometry_fields(11) [OF g] by simp
  have "still fs2 fs3"
  proof (cases full)
    case True
    then show ?thesis using fl flush_bhs_spec(1) [OF _ bs2] by (intro still_mirrors [OF wf2]) simp
  next
    case False
    then show ?thesis using fl by (simp add: still_def)
  qed
  then show "freed fs [entry fe] fs3" by (rule freed_still_trans [OF f(1)])
  show "\<forall>b \<in> set (fat_collect_bhs (if full then [] else bs) (bhs fe)). in_table fs b"
    using bs bhs_in_table [OF wf p] e by (auto simp: used_set_def valid_clus_def)
  show "faults fs = [] \<Longrightarrow> faults fs3 = [] \<and> r = Inr ()"
    using fl f(3) flush_bhs_calm [of fs2 sync bs] by (auto split: if_splits)
  assume "r = Inr ()" "copies_agree fs (set bs)"
  then show "copies_agree fs3 (set (fat_collect_bhs (if full then [] else bs) (bhs fe)))"
    using fl f(2) [of "set bs"] flush_bhs_spec(2) [OF _ bs2, of sync r fs3 "set (bhs fe)"] by (auto split: if_splits)
qed

lemma free_post_last:
  assumes "freed fs [c] fs'" "c \<in> used_set fs" "faults fs = [] \<Longrightarrow> faults fs' = []"
    and "\<forall>b \<in> set bs'. in_table fs b" "copies_agree fs (set bs) \<Longrightarrow> copies_agree fs' (set bs')" "ftab fs c = FAT_ENT_EOF"
  shows "free_post fs (int c) bs (Inr bs') fs'"
  using assms by (auto simp: free_post_def intro!: exI [of _ "[c]"])

lemma free_loop_spec:
  assumes "wf_fat fs" and "held fs fe" and "\<forall>b \<in> set bs. in_table fs b"
  shows "\<exists>res d fs'. free_loop fe cluster first_cl bs dirty fs = Some (res, d, fs') \<and> free_post fs cluster bs res fs'"
  using assms
proof (induction "card (used_set fs)" arbitrary: fs fe cluster first_cl bs dirty rule: less_induct)
  case less
  note wf = less.prems(1)
  obtain r fe1 fs1 where rd: "run_state (fat_ent_read fe cluster) fs = ((r, fe1), fs1)" by (metis surj_pair)
  show ?case
  proof (cases "fat_valid_entry fs cluster")
    case False
    have e: "r = Inl EIO" "fs1 = snd (run_state fat_fs_error fs)" using rd fat_ent_read_invalid [OF False] by auto
    then have "free_post fs cluster bs (Inl EIO) fs1"
      using False still_error [of fs] file_chain_not_free(2) [OF wf] by (intro free_post_error) (auto simp: valid_entry_clus)
    then show ?thesis using rd e by (subst free_loop.simps) simp
  next
    case True
    note rv = fat_ent_read_valid [OF rd wf less.prems(2) True]
    define c where "c = nat cluster"
    have c: "cluster = int c" "valid_clus fs c" using True by (auto simp: valid_entry_clus c_def)
    have g1: "geometry fs1 = geometry fs" using only_faults_inv(1) [OF rv(1)] .
    have st1: "still fs fs1" by (rule still_only_faults [OF rv(1)])
    have calm1: "fs1 = fs \<and> r \<noteq> Inl x" if "faults fs = []" for x
      using fat_ent_read_calm [OF that True, of fe] rd by auto
    show ?thesis
    proof (cases "r = Inl EIO \<or> r = Inr FAT_ENT_FREE")
      case True
      define fs2 where "fs2 = (if r = Inl EIO then fs1 else snd (run_state fat_fs_error fs1))"
      have "still fs1 fs2" "faults fs2 = faults fs1"
        using still_error [of fs1] by (auto simp: fs2_def still_def)
      then have "still fs fs2" using st1 geometry_fields(6) [OF g1] by (simp add: still_def)
      moreover have "False" if "faults fs = []" "file_chain fs cs" "int (hd cs) = cluster" for cs
      proof -
        have "ftab fs c = FAT_ENT_FREE" using calm1 [OF that(1)] rv(4) True by (auto simp: c_def)
        then show False using file_chain_not_free(1) [OF wf that(2)] that(3) c(1) by simp
      qed
      moreover have "faults fs2 = []" if "faults fs = []" using \<open>faults fs2 = faults fs1\<close> calm1 [OF that] that by simp
      ultimately have "free_post fs cluster bs (Inl EIO) fs2" by (intro free_post_error)
      then show ?thesis using rd True by (subst free_loop.simps) (auto simp: fs2_def)
    next
      case False
      then have v: "r = Inr (ftab fs c)" "points fs fe1" "ftab fs c \<noteq> FAT_ENT_FREE" using rv(4) by (auto simp: c_def)
      have e1: "entry fe1 = c" using rv(2) by (simp add: c_def)
      have t1: "ftab fs1 c = ftab fs c" using only_faults_inv(3) [OF rv(1)] by simp
      have u: "c \<in> used_set fs" "c \<in> used_set fs1" using v(3) c(2) valid_clus_cong [OF g1] t1 by (auto simp: used_set_def)
      have wf1: "wf_fat fs1" "points fs1 fe1" using wf v(2) geometry_fields(11,12) [OF g1] by auto
      have bs1: "\<forall>b \<in> set bs. in_table fs1 b" using less.prems(3) in_table_cong [OF g1] by simp
      obtain fc2 d2 fs2 where fr: "free_entry fe1 (ftab fs c) first_cl dirty fs1 = (fc2, d2, fs2)" by (metis surj_pair)
      define full where "full = (MAX_BUF_PER_PAGE < length bs + nr_bhs fe1)"
      obtain r3 fs3 where fl: "(if full then run_state (flush_bhs (s_synchronous fs2) bs) fs2 else (Inr (), fs2)) = (r3, fs3)"
        by (metis surj_pair)
      define bs3 where "bs3 = fat_collect_bhs (if full then [] else bs) (bhs fe1)"
      note ft = free_turn [OF wf1 _ bs1 fr fl, unfolded e1, OF u(2), folded bs3_def]
      have f3: "freed fs [c] fs3" using freed_trans [OF freed_still [OF st1] ft(1)] by simp
      have ag: "copies_agree fs3 (set bs3)" if "r3 = Inr ()" "copies_agree fs (set bs)"
        using ft(2) that copies_agree_only_faults [OF rv(1)] by simp
      have tb: "\<forall>b \<in> set bs3. in_table fs b" using ft(3) in_table_cong [OF g1] by simp
      have ca: "faults fs3 = [] \<and> r3 = Inr ()" if "faults fs = []" using ft(4) calm1 [OF that] that by simp
      have unf: "free_loop fe cluster first_cl bs dirty fs = (case r3 of Inl err \<Rightarrow> Some (Inl err, d2, fs3)
          | Inr _ \<Rightarrow> if ftab fs c \<noteq> FAT_ENT_EOF then free_loop fe1 (uint (ftab fs c)) fc2 bs3 d2 fs3 else Some (Inr bs3, d2, fs3))"
        using rd v fr fl by (subst free_loop.simps) (simp add: Let_def full_def bs3_def split: sum.split)
      show ?thesis
      proof (cases r3)
        case (Inl err)
        then have "free_post fs cluster bs (Inl err) fs3" using f3 ca by (auto simp: free_post_def)
        then show ?thesis using unf Inl by simp
      next
        case (Inr x)
        have x: "r3 = Inr ()" using Inr by simp
        show ?thesis
        proof (cases "ftab fs c = FAT_ENT_EOF")
          case True
          then show ?thesis using unf x c(1) free_post_last [OF f3 u(1) _ tb ag [OF x] True] ca by auto
        next
          case False
          have g3: "geometry fs3 = geometry fs" using freed_geometry [OF f3] .
          obtain res d fs' where "free_loop fe1 (uint (ftab fs c)) fc2 bs3 d2 fs3 = Some (res, d, fs')"
              "free_post fs3 (uint (ftab fs c)) bs3 res fs'"
            using less.hyps [OF used_decreases [OF f3]] wf geometry_fields(11) [OF g3] rv(3) held_geometry [OF g3] tb in_table_cong [OF g3]
            by blast
          then show ?thesis
            using unf x False c(1) free_post_step [OF wf u(1) f3 ag [OF x] _ False] ca by auto
        qed
      qed
    qed
  qed
qed

lemma copies_agree_mark: "copies_agree (mark_fsinfo_dirty fs) B = copies_agree fs B"
  by (simp add: mark_fsinfo_dirty_def copies_agree_def same_copy_def in_table_def)

lemma faults_mark [simp]: "faults (mark_fsinfo_dirty fs) = faults fs"
  by (simp add: mark_fsinfo_dirty_def)

definition release_post :: "fat_fs \<Rightarrow> int \<Rightarrow> (errno + unit) \<Rightarrow> fat_fs \<Rightarrow> bool" where
  "release_post fs cluster r fs' \<longleftrightarrow>
     (\<exists>cs. freed fs cs fs' \<and> (r = Inr () \<longrightarrow>
        file_chain fs cs \<and> hd cs = nat cluster \<and> (copies_agree fs {} \<longrightarrow> copies_agree fs' {}))) \<and>
     (faults fs = [] \<longrightarrow> faults fs' = [] \<and> (\<forall>cs. file_chain fs cs \<and> int (hd cs) = cluster \<longrightarrow> r = Inr ()))"

lemma release_post_mark:
  assumes "release_post fs cluster r fs'"
  shows "release_post fs cluster r (if d then mark_fsinfo_dirty fs' else fs')"
  using assms freed_still_trans [OF _ still_mark] unfolding release_post_def by (fastforce simp: copies_agree_mark)

lemma free_clusters_spec:
  assumes wf: "wf_fat fs"
  shows "\<exists>r fs'. fat_free_clusters cluster fs = Some (r, fs') \<and> release_post fs cluster r fs'"
proof -
  obtain res d fs1 where l: "free_loop fatent_init cluster cluster [] False fs = Some (res, d, fs1)" and post: "free_post fs cluster [] res fs1"
    using free_loop_spec [OF wf held_init, of "[]" cluster cluster False] by auto
  from post obtain cs where cs: "freed fs cs fs1" and r: "case res of Inl e \<Rightarrow> True | Inr bs' \<Rightarrow>
        cs \<noteq> [] \<and> hd cs = nat cluster \<and> chain (ftab fs) cs FAT_ENT_EOF \<and> (\<forall>b \<in> set bs'. in_table fs b) \<and>
        (copies_agree fs {} \<longrightarrow> copies_agree fs1 (set bs'))"
    unfolding free_post_def list.set(1) by blast
  have g1: "geometry fs1 = geometry fs" using freed_geometry [OF cs] .
  have wf1: "wf_fat fs1" using wf geometry_fields(11) [OF g1] by simp
  have fa: "faults fs1 = []" "\<And>cs. file_chain fs cs \<Longrightarrow> int (hd cs) = cluster \<Longrightarrow> \<exists>bs'. res = Inr bs'" if "faults fs = []"
    using post that by (auto simp: free_post_def)
  obtain r2 fs2 where r2: "(case res of Inl err \<Rightarrow> (Inl err, fs1) | Inr bs \<Rightarrow> run_state (flush_bhs (s_synchronous fs1) bs) fs1) = (r2, fs2)"
    by (metis surj_pair)
  have "release_post fs cluster r2 fs2"
  proof (cases res)
    case (Inl e)
    then show ?thesis using r2 cs fa unfolding release_post_def by fastforce
  next
    case (Inr bs)
    then have fl: "run_state (flush_bhs (s_synchronous fs1) bs) fs1 = (r2, fs2)" using r2 by simp
    have tb: "\<forall>b \<in> set bs. in_table fs1 b" using r Inr in_table_cong [OF g1] by simp
    have f2: "freed fs cs fs2" using freed_still_trans [OF cs still_mirrors [OF wf1 flush_bhs_spec(1) [OF fl tb]]] .
    have "file_chain fs cs" using cs r Inr by (auto simp: file_chain_def freed_def used_set_def)
    moreover have "copies_agree fs2 {}" if "r2 = Inr ()" "copies_agree fs {}"
      using flush_bhs_spec(2) [OF fl tb that(1), of "{}"] r Inr that(2) by simp
    moreover have "faults fs2 = [] \<and> r2 = Inr ()" if "faults fs = []" 
      using flush_bhs_calm [OF fa(1) [OF that], of "s_synchronous fs1" bs] fl by simp
    ultimately show ?thesis using f2 r Inr unfolding release_post_def by auto
  qed
  then show ?thesis
    using l r2 release_post_mark by (simp add: fat_free_clusters_def)
qed

text \<open>
  C10 (releasing a chain ends).  On every well-formed file system \<^verbatim>\<open>fat_free_clusters\<close> returns, whatever the table holds, also when the numbers
  in it form a cycle.  Whether it succeeds or stops with an error, the clusters it changed were in use, each of them is now
  free, every other entry is unchanged, and an exact count of free clusters is still exact.
\<close>

theorem fat_free_clusters_returns:
  assumes "wf_fat fs"
  shows "\<exists>r fs' cs. fat_free_clusters cluster fs = Some (r, fs') \<and> distinct cs \<and> set cs \<subseteq> used_set fs \<and>
    (\<forall>e < max_cluster fs. ftab fs' e = (if e \<in> set cs then FAT_ENT_FREE else ftab fs e)) \<and> (cnt_ok fs \<longrightarrow> cnt_ok fs')"
  using free_clusters_spec [OF assms, of cluster] unfolding release_post_def freed_def by blast

definition ex_cycle :: fat_fs where
  "ex_cycle = ex_fat12\<lparr>fdev := table_put fat12_ops 8 3 4 (table_put fat12_ops 8 4 3 (\<lambda>_. 0)), free_clusters := 6\<rparr>"

theorem fat_free_clusters_returns_witness:
  "\<exists>r fs' cs. fat_free_clusters 3 ex_cycle = Some (r, fs') \<and> distinct cs \<and> set cs \<subseteq> used_set ex_cycle \<and>
    (\<forall>e < max_cluster ex_cycle. ftab fs' e = (if e \<in> set cs then FAT_ENT_FREE else ftab ex_cycle e)) \<and> (cnt_ok ex_cycle \<longrightarrow> cnt_ok fs')"
  by (rule fat_free_clusters_returns) (simp add: wf_fat_def ex_cycle_def ex_fat12_def fat_consts)

text \<open>
  C11 (releasing a file's chain).  When no access fails and \<open>cs\<close> is the cluster chain that begins at the given cluster, \<^verbatim>\<open>fat_free_clusters\<close> succeeds;
  exactly the clusters of the chain become free and, if the copies of the table agreed with the first one, they agree afterwards.
\<close>

theorem fat_free_clusters_frees_chain:
  assumes wf: "wf_fat fs" and c: "file_chain fs cs" and f: "faults fs = []" and ag: "copies_agree fs {}"
  shows "\<exists>fs'. fat_free_clusters (int (hd cs)) fs = Some (Inr (), fs') \<and>
    (\<forall>e < max_cluster fs. ftab fs' e = (if e \<in> set cs then FAT_ENT_FREE else ftab fs e)) \<and> copies_agree fs' {}"
proof -
  obtain r fs' where run: "fat_free_clusters (int (hd cs)) fs = Some (r, fs')" and post: "release_post fs (int (hd cs)) r fs'"
    using free_clusters_spec [OF wf] by blast
  have r: "r = Inr ()" using post f c by (auto simp: release_post_def)
  then obtain ds where ds: "freed fs ds fs'" "file_chain fs ds" "hd ds = hd cs" "copies_agree fs' {}"
    using post ag unfolding release_post_def by auto
  have "ds = cs" by (rule chain_unique [OF wf ds(2) c ds(3)])
  then show ?thesis using run r ds by (auto simp: freed_def)
qed

definition ex_file :: fat_fs where
  "ex_file = ex_fat12\<lparr>fdev := (\<lambda>a. if a = 12 \<or> a = 28 then 0x50 else if a = 15 \<or> a = 31 then 0xf0 else if a = 16 \<or> a = 32 then 0xff else 0),
     free_clusters := 6\<rparr>"

theorem fat_free_clusters_frees_chain_witness:
  "\<exists>fs'. fat_free_clusters 3 ex_file = Some (Inr (), fs') \<and> ftab ex_file 3 = 5 \<and> ftab fs' 3 = 0 \<and> ftab fs' 5 = 0 \<and> copies_agree fs' {}"
proof -
  have wf: "wf_fat ex_file" by (simp add: wf_fat_def ex_file_def ex_fat12_def fat_consts)
  have t: "ftab ex_file 3 = 5" "ftab ex_file 5 = FAT_ENT_EOF"
    by code_simp+
  have c: "file_chain ex_file [3, 5]" by (simp add: file_chain_def t valid_clus_def FAT_START_ENT_def) (simp add: ex_file_def ex_fat12_def)
  have b: "b = 1 \<or> b = 2" if "in_table ex_file b" for b using that by (auto simp: in_table_def ex_file_def ex_fat12_def)
  have a: "copies_agree ex_file {}"
    using b by (fastforce simp: copies_agree_def same_copy_def ex_file_def ex_fat12_def)
  show ?thesis
    using fat_free_clusters_frees_chain [OF wf c _ a] t by (auto simp: ex_file_def ex_fat12_def fat_consts)
qed

subsection \<open>Counting\<close>

definition nfree :: "fat_fs \<Rightarrow> nat \<Rightarrow> nat \<Rightarrow> nat" where
  "nfree fs a b = length (filter (\<lambda>e. ftab fs e = FAT_ENT_FREE) [a..<b])"

lemma nfree_split: "a \<le> b \<Longrightarrow> b \<le> c \<Longrightarrow> nfree fs a c = nfree fs a b + nfree fs b c"
  using upt_add_eq_append [of a b "c - b"] by (simp add: nfree_def)

lemma nfree_free_set: "nfree fs FAT_START_ENT (max_cluster fs) = card (free_set fs)"
  by (simp add: nfree_def distinct_length_filter) (rule arg_cong [of _ _ card], auto simp: free_set_def valid_clus_def)

lemma count_block_spec:
  assumes "wf_fat fs" and "points fs fe" and "entry fe < max_cluster fs"
  shows "\<exists>fe'. count_block fe n fs = Some (fe', n + nfree fs (entry fe) (entry fe')) \<and> entry fe < entry fe' \<and> entry fe' \<le> max_cluster fs"
  using assms
proof (induction "max_cluster fs - entry fe" arbitrary: fe n rule: less_induct)
  case less
  obtain again fe1 where nx: "fat_ent_next fs fe = (again, fe1)" by (metis surj_pair)
  have e1: "entry fe1 = Suc (entry fe)" using fat_ent_next_entry [of fs fe] nx by simp
  define n1 where "n1 = (if ent_get fs fe = FAT_ENT_FREE then n + 1 else n)"
  have n1: "n1 = n + nfree fs (entry fe) (entry fe1)"
    using ent_get_points [OF less.prems(2)] by (simp add: n1_def nfree_def e1)
  have unf: "count_block fe n fs = (if again then count_block fe1 n1 fs else Some (fe1, n1))"
    by (subst count_block.simps) (simp add: nx n1_def)
  show ?case
  proof (cases again)
    case True
    then have p1: "points fs fe1" "entry fe1 < max_cluster fs"
      using fat_ent_next_points [OF less.prems(1,2), of fe1] nx by auto
    have lt: "max_cluster fs - entry fe1 < max_cluster fs - entry fe" using e1 less.prems(3) by simp
    obtain fe' where "count_block fe1 n1 fs = Some (fe', n1 + nfree fs (entry fe1) (entry fe'))"
        "entry fe1 < entry fe'" "entry fe' \<le> max_cluster fs"
      using less.hyps [OF lt less.prems(1) p1, of n1] by blast
    then show ?thesis using unf True n1 e1 nfree_split [of "entry fe" "entry fe1" "entry fe'" fs] by auto
  next
    case False
    then show ?thesis using unf n1 e1 less.prems(3) by auto
  qed
qed

lemma count_loop_spec:
  assumes "wf_fat fs" and "entry fe \<le> max_cluster fs"
  shows "\<exists>r fs'. count_loop fe n fs = Some (r, fs') \<and> only_faults fs fs' \<and>
    (\<forall>k. r = Inr k \<longrightarrow> k = n + nfree fs (entry fe) (max_cluster fs)) \<and> (faults fs = [] \<longrightarrow> (\<exists>k. r = Inr k))"
  using assms
proof (induction "max_cluster fs - entry fe" arbitrary: fe n fs rule: less_induct)
  case less
  obtain r1 fe1 fs1 where rb: "run_state (fat_ent_read_block fe) fs = ((r1, fe1), fs1)" by (metis surj_pair)
  note sp = fat_ent_read_block_spec [OF rb less.prems(1)]
  have g: "geometry fs1 = geometry fs" using only_faults_inv(1) [OF sp(1)] .
  have m: "max_cluster fs1 = max_cluster fs" using geometry_fields(6) [OF g] .
  have t: "nfree fs1 = nfree fs" using only_faults_inv(3) [OF sp(1)] by (simp add: nfree_def fun_eq_iff)
  have calm: "faults fs1 = [] \<and> r1 = Inr ()" if "faults fs = []"
    using rb ent_bread_calm [OF that] that by (simp add: fat_ent_read_block_def split: prod.splits) (metis Pair_inject)
  show ?case
  proof (cases "entry fe < max_cluster fs")
    case True
    show ?thesis
    proof (cases r1)
      case (Inl e)
      then show ?thesis using True rb sp(1) calm by (subst count_loop.simps) auto
    next
      case (Inr u)
      then have p1: "points fs1 fe1" "wf_fat fs1" "entry fe1 < max_cluster fs1"
        using sp(2,3) geometry_fields(11,12) [OF g] less.prems(1) True m by auto
      obtain fe2 where cb: "count_block fe1 n fs1 = Some (fe2, n + nfree fs1 (entry fe1) (entry fe2))"
          and e2: "entry fe1 < entry fe2" "entry fe2 \<le> max_cluster fs1"
        using count_block_spec [OF p1(2,1,3)] by blast
      have lt: "max_cluster fs1 - entry fe2 < max_cluster fs - entry fe" using e2 sp(2) m True by simp
      obtain r fs' where l: "count_loop fe2 (n + nfree fs1 (entry fe1) (entry fe2)) fs1 = Some (r, fs')" "only_faults fs1 fs'"
          "\<forall>k. r = Inr k \<longrightarrow> k = n + nfree fs1 (entry fe1) (entry fe2) + nfree fs1 (entry fe2) (max_cluster fs1)"
          "faults fs1 = [] \<longrightarrow> (\<exists>k. r = Inr k)"
        using less.hyps [OF lt p1(2) e2(2), of "n + nfree fs1 (entry fe1) (entry fe2)"] by blast
      have "count_loop fe n fs = Some (r, fs')" using True rb Inr cb l(1) by (subst count_loop.simps) simp
      moreover have "nfree fs (entry fe) (entry fe2) + nfree fs (entry fe2) (max_cluster fs) = nfree fs (entry fe) (max_cluster fs)"
        using nfree_split [of "entry fe" "entry fe2" "max_cluster fs" fs] e2 sp(2) m by simp
      ultimately show ?thesis
        using l ofa.frame_trans [OF sp(1) l(2)] calm sp(2) by (simp add: t m add.assoc)
    qed
  next
    case False
    then show ?thesis using less.prems(2) ofa.frame_refl by (subst count_loop.simps) (simp add: nfree_def)
  qed
qed

text \<open>
  C13 (counting free clusters).  \<^verbatim>\<open>fat_count_free_clusters\<close> returns and leaves every entry of the table as it is; it succeeds when no read fails.
  When it succeeds without a count known to be valid, the new count is the number of clusters whose entry is free, and it is marked valid.
\<close>

theorem fat_count_free_clusters_exact:
  assumes "wf_fat fs"
  shows "\<exists>r fs'. fat_count_free_clusters fs = Some (r, fs') \<and> (\<forall>e < max_cluster fs. ftab fs' e = ftab fs e) \<and>
    (faults fs = [] \<longrightarrow> r = Inr ()) \<and>
    (r = Inr () \<and> (free_clusters fs = - 1 \<or> \<not> free_clus_valid fs) \<longrightarrow>
       free_clusters fs' = of_nat (card (free_set fs)) \<and> free_clus_valid fs')"
proof -
  let ?fe = "fatent_set_entry fatent_init FAT_START_ENT"
  have e: "entry ?fe = FAT_START_ENT" "entry ?fe \<le> max_cluster fs"
    using assms by (simp_all add: fatent_set_entry_def FAT_START_ENT_def wf_fat_def)
  obtain r fs' where l: "count_loop ?fe 0 fs = Some (r, fs')" "only_faults fs fs'"
      "\<forall>k. r = Inr k \<longrightarrow> k = card (free_set fs)" "faults fs = [] \<longrightarrow> (\<exists>k. r = Inr k)"
    using count_loop_spec [OF assms e(2), of 0] nfree_free_set [of fs] e(1) by auto
  have t: "ftab fs' = ftab fs" using only_faults_inv(3) [OF l(2)] .
  show ?thesis
  proof (cases "free_clusters fs \<noteq> - 1 \<and> free_clus_valid fs")
    case True
    then show ?thesis by (simp add: fat_count_free_clusters_def)
  next
    case False
    then show ?thesis using l t by (cases r) (auto simp: fat_count_free_clusters_def mark_fsinfo_dirty_def)
  qed
qed

theorem fat_count_free_clusters_exact_witness:
  "\<exists>fs'. fat_count_free_clusters (ex_file\<lparr>free_clus_valid := False\<rparr>) = Some (Inr (), fs') \<and> free_clusters fs' = 6 \<and> free_clus_valid fs'"
proof -
  let ?fs = "ex_file\<lparr>free_clus_valid := False\<rparr>"
  have wf: "wf_fat ?fs" by (simp add: wf_fat_def ex_file_def ex_fat12_def fat_consts)
  have "nfree ?fs FAT_START_ENT (max_cluster ?fs) = 6" by code_simp
  then have "card (free_set ?fs) = 6" using nfree_free_set [of ?fs] by simp
  moreover have "faults ?fs = []" "free_clus_valid ?fs = False" by (simp_all add: ex_file_def ex_fat12_def)
  ultimately show ?thesis using fat_count_free_clusters_exact [OF wf] by auto
qed

end
