(* ===== verification/Fat_Alloc.thy ===== *)
theory Fat_Alloc
  imports Fat_Free
begin

text \<open>
  Allocation of clusters: \<^verbatim>\<open>fat_alloc_clusters\<close> of \<^verbatim>\<open>fat/fatent.c\<close>.  The search begins behind the cluster allocated last, walks over the
  table block by block, wraps round at its end and stops when enough free entries were linked into a chain or
  when every entry was visited once; after a failure the clusters linked so far are released again.
  The two nested loops are \<open>alloc_loop\<close> and \<open>alloc_block\<close>; \<open>alloc_take\<close> is the body for a free entry.
\<close>

subsection \<open>The operations\<close>

definition alloc_take :: "fat_entry \<Rightarrow> fat_entry \<Rightarrow> nat list \<Rightarrow> nat list \<Rightarrow> fat_fs \<Rightarrow> nat list \<times> nat list \<times> fat_fs" where
  "alloc_take fe prev_ent bs cl fs =
     (let e = entry fe;
          fs = ent_put fe FAT_ENT_EOF fs;
          fs = (if nr_bhs prev_ent \<noteq> 0 then ent_put prev_ent (of_nat e) fs else fs);
          bs = fat_collect_bhs bs (bhs fe);
          fs = fs\<lparr>prev_free := of_nat e\<rparr>;
          fs = (if free_clusters fs \<noteq> - 1 then fs\<lparr>free_clusters := free_clusters fs - 1\<rparr> else fs)
      in (bs, cl @ [e], fs))"

partial_function (option) alloc_block ::
    "nat \<Rightarrow> fat_entry \<Rightarrow> fat_entry \<Rightarrow> nat list \<Rightarrow> nat list \<Rightarrow> nat \<Rightarrow> fat_fs \<Rightarrow>
       (bool \<times> fat_entry \<times> fat_entry \<times> nat list \<times> nat list \<times> nat \<times> fat_fs) option" where
  "alloc_block nr_cluster fe prev_ent bs cl count fs =
     (let is_free = (ent_get fs fe = FAT_ENT_FREE)
      in case (if is_free then alloc_take fe prev_ent bs cl fs else (bs, cl, fs)) of (bs, cl, fs) \<Rightarrow>
         if is_free \<and> length cl = nr_cluster then Some (True, fe, prev_ent, bs, cl, count, fs)
         else (let prev_ent = (if is_free then fe else prev_ent);
                   count = count + 1
               in if count = max_cluster fs then Some (False, fe, prev_ent, bs, cl, count, fs)
                  else (case fat_ent_next fs fe of (again, fe) \<Rightarrow>
                    if again then alloc_block nr_cluster fe prev_ent bs cl count fs
                    else Some (False, fe, prev_ent, bs, cl, count, fs))))"

partial_function (option) alloc_loop ::
    "nat \<Rightarrow> fat_entry \<Rightarrow> fat_entry \<Rightarrow> nat list \<Rightarrow> nat list \<Rightarrow> nat \<Rightarrow> fat_fs \<Rightarrow>
       ((errno + unit) \<times> nat list \<times> nat list \<times> fat_fs) option" where
  "alloc_loop nr_cluster fe prev_ent bs cl count fs =
     (if count < max_cluster fs
      then (let fe = (if max_cluster fs \<le> entry fe then fe\<lparr>entry := FAT_START_ENT\<rparr> else fe);
                fe = fatent_set_entry fe (entry fe)
            in case run_state (fat_ent_read_block fe) fs of ((r, fe), fs) \<Rightarrow>
              (case r of
                 Inl err \<Rightarrow> Some (Inl err, bs, cl, fs)
               | Inr _ \<Rightarrow>
                   Option.bind (alloc_block nr_cluster fe prev_ent bs cl count fs) (\<lambda>(fin, fe, prev_ent, bs, cl, count, fs).
                     if fin then Some (Inr (), bs, cl, fs)
                     else alloc_loop nr_cluster fe prev_ent bs cl count fs)))
      else Some (Inl ENOSPC, bs, cl, fs\<lparr>free_clusters := 0, free_clus_valid := True\<rparr>))"

text \<open>\<^verbatim>\<open>BUG_ON\<close> on the number of clusters is the first \<open>None\<close>; \<open>sync\<close> is \<^verbatim>\<open>inode_needs_sync\<close>.\<close>

definition fat_alloc_clusters :: "nat \<Rightarrow> bool \<Rightarrow> fat_fs \<Rightarrow> ((errno + unit) \<times> nat list \<times> fat_fs) option" where
  "fat_alloc_clusters nr_cluster sync fs =
     (if MAX_BUF_PER_PAGE div 2 < nr_cluster then None
      else if free_clusters fs \<noteq> - 1 \<and> free_clus_valid fs \<and> free_clusters fs < of_nat nr_cluster then Some (Inl ENOSPC, [], fs)
      else (case alloc_loop nr_cluster (fatent_set_entry fatent_init (unat (prev_free fs + 1))) fatent_init [] [] FAT_START_ENT fs of
              None \<Rightarrow> None
            | Some (r, bs, cl, fs) \<Rightarrow>
                (let fs = mark_fsinfo_dirty fs;
                     (err, fs) = (case r of Inl e \<Rightarrow> (Inl e, fs) | Inr _ \<Rightarrow> run_state (flush_bhs sync bs) fs)
                 in if err \<noteq> Inr () \<and> cl \<noteq> []
                    then (case fat_free_clusters (int (cl ! 0)) fs of
                            None \<Rightarrow> None
                          | Some (_, fs) \<Rightarrow> Some (err, cl, fs))
                    else Some (err, cl, fs))))"

subsection \<open>The order of the search\<close>

definition clusters :: "fat_fs \<Rightarrow> nat" where
  "clusters fs = max_cluster fs - FAT_START_ENT"

definition pos :: "fat_fs \<Rightarrow> nat \<Rightarrow> nat \<Rightarrow> nat" where
  "pos fs a k = FAT_START_ENT + (a + k) mod clusters fs"

lemma pos_less:
  assumes "0 < clusters fs"
  shows "pos fs a k < max_cluster fs"
proof -
  have "(a + k) mod clusters fs < clusters fs" using assms by simp
  then show ?thesis using assms unfolding pos_def clusters_def by linarith
qed

lemma pos_valid: "0 < clusters fs \<Longrightarrow> valid_clus fs (pos fs a k)"
  using pos_less [of fs a k] by (simp add: pos_def valid_clus_def)

lemma pos_Suc:
  assumes "0 < clusters fs"
  shows "pos fs a (Suc k) = (if Suc (pos fs a k) < max_cluster fs then Suc (pos fs a k) else FAT_START_ENT)"
proof -
  have "max_cluster fs = FAT_START_ENT + clusters fs" using assms by (simp add: clusters_def)
  moreover have "(a + k) mod clusters fs < clusters fs" using assms by simp
  ultimately show ?thesis by (auto simp: pos_def mod_Suc)
qed

lemma mod_shift_inj:
  assumes "x \<le> y" "y < (n :: nat)" "(a + x) mod n = (a + y) mod n"
  shows "x = y"
proof -
  have "n dvd (a + y) - (a + x)" using assms(1,3) mod_eq_dvd_iff_nat [of "a + x" "a + y" n] by simp
  then have "n dvd y - x" by simp
  moreover have "y - x < n" using assms(2) by simp
  ultimately have "y - x = 0" using dvd_imp_le [of n "y - x"] by linarith
  then show ?thesis using assms(1) by simp
qed

lemma pos_inj: "inj_on (pos fs a) {0..<clusters fs}"
proof (rule inj_onI)
  fix x y
  assume "x \<in> {0..<clusters fs}" "y \<in> {0..<clusters fs}" "pos fs a x = pos fs a y"
  then show "x = y"
    using mod_shift_inj [of x y "clusters fs" a] mod_shift_inj [of y x "clusters fs" a] by (cases "x \<le> y") (auto simp: pos_def)
qed

lemma pos_fresh: "k < clusters fs \<Longrightarrow> pos fs a k \<notin> pos fs a ` {0..<k}"
  using inj_onD [OF pos_inj, of fs a k] by fastforce

lemma pos_image: "pos fs a ` {0..<clusters fs} = {e. valid_clus fs e}"
proof (rule card_subset_eq)
  have eq: "{e. valid_clus fs e} = {FAT_START_ENT..<max_cluster fs}" by (auto simp: valid_clus_def)
  then show "finite {e. valid_clus fs e}" by simp
  show "pos fs a ` {0..<clusters fs} \<subseteq> {e. valid_clus fs e}" using pos_valid by fastforce
  show "card (pos fs a ` {0..<clusters fs}) = card {e. valid_clus fs e}"
    unfolding eq card_image [OF pos_inj] by (simp add: clusters_def)
qed

subsection \<open>The invariant of the search\<close>

definition prev_ok :: "fat_fs \<Rightarrow> bool" where
  "prev_ok fs \<longleftrightarrow> valid_clus fs (unat (prev_free fs))"

definition alloc_inv :: "fat_fs \<Rightarrow> nat \<Rightarrow> fat_entry \<Rightarrow> nat list \<Rightarrow> nat list \<Rightarrow> nat \<Rightarrow> fat_fs \<Rightarrow> bool" where
  "alloc_inv fs0 a prev bs cl k fs \<longleftrightarrow>
     geometry fs = geometry fs0 \<and> distinct cl \<and> set cl = pos fs0 a ` {0..<k} \<inter> free_set fs0 \<and>
     (\<forall>e < max_cluster fs0. e \<notin> set cl \<longrightarrow> ftab fs e = ftab fs0 e) \<and> chain (ftab fs) cl FAT_ENT_EOF \<and>
     (if cl = [] then nr_bhs prev = 0 else points fs0 prev \<and> entry prev = last cl \<and> set (bhs prev) \<subseteq> set bs) \<and>
     (\<forall>b \<in> set bs. in_table fs0 b) \<and> (copies_agree fs0 {} \<longrightarrow> copies_agree fs (set bs)) \<and>
     (cnt_ok fs0 \<longrightarrow> cnt_ok fs) \<and> prev_ok fs \<and> (faults fs0 = [] \<longrightarrow> faults fs = [])"

lemma alloc_inv_geometry: "alloc_inv fs0 a prev bs cl k fs \<Longrightarrow> geometry fs = geometry fs0"
  by (simp add: alloc_inv_def)

lemma alloc_inv_skip:
  assumes "alloc_inv fs0 a prev bs cl k fs" and "ftab fs (pos fs0 a k) \<noteq> FAT_ENT_FREE" and "k < clusters fs0"
  shows "alloc_inv fs0 a prev bs cl (Suc k) fs"
proof -
  have "0 < clusters fs0" using assms(3) by simp
  then have lt: "pos fs0 a k < max_cluster fs0" by (rule pos_less)
  have "pos fs0 a k \<notin> set cl" using assms(1) pos_fresh [OF assms(3), of a] by (auto simp: alloc_inv_def)
  then have "pos fs0 a k \<notin> free_set fs0" using assms(1,2) lt by (auto simp: alloc_inv_def free_set_def)
  then show ?thesis using assms(1) by (simp add: alloc_inv_def atLeast0_lessThan_Suc)
qed

text \<open>Linking one more entry: its own end mark, then the link from the cluster before.\<close>

definition link :: "fat_entry \<Rightarrow> fat_entry \<Rightarrow> fat_fs \<Rightarrow> fat_fs" where
  "link fe prev fs = (let fs = ent_put fe FAT_ENT_EOF fs in if nr_bhs prev \<noteq> 0 then ent_put prev (of_nat (entry fe)) fs else fs)"

lemma points_nr: "points fs fe \<Longrightarrow> nr_bhs fe \<noteq> 0"
  by (simp add: points_def ent_blocks_def Let_def)

lemma link_geometry [simp]: "geometry (link fe prev fs) = geometry fs"
  by (simp add: link_def Let_def)

lemma link_other [simp]:
  "faults (link fe prev fs) = faults fs" "free_clusters (link fe prev fs) = free_clusters fs"
  by (simp_all add: link_def Let_def ent_put_def)

lemma link_table:
  assumes wf: "wf_fat fs" and p: "points fs fe" and v: "valid_clus fs (entry fe)"
    and prev: "if cl = [] then nr_bhs prev = 0 else points fs prev \<and> entry prev = last cl"
  shows "ftab (link fe prev fs) = (if cl = [] then (ftab fs)(entry fe := FAT_ENT_EOF)
      else (ftab fs)(entry fe := FAT_ENT_EOF, last cl := of_nat (entry fe)))"
proof -
  define fs1 where "fs1 = ent_put fe FAT_ENT_EOF fs"
  have t1: "ftab fs1 = (ftab fs)(entry fe := FAT_ENT_EOF)" unfolding fs1_def by (rule ftab_ent_put [OF p]) simp
  have g1: "geometry fs1 = geometry fs" by (simp add: fs1_def)
  show ?thesis
  proof (cases "cl = []")
    case True
    then show ?thesis using prev t1 by (simp add: link_def flip: fs1_def)
  next
    case False
    then have p1: "points fs1 prev" using prev geometry_fields(12) [OF g1] by simp
    have "of_nat (entry fe) < bad_of (fatent_ops fs1)" using valid_small(2) [OF wf v] geometry_fields(8) [OF g1] by simp
    then have "ftab (ent_put prev (of_nat (entry fe)) fs1) = (ftab fs1)(entry prev := of_nat (entry fe))"
      by (intro ftab_ent_put [OF p1]) simp
    then show ?thesis using False prev t1 points_nr [OF p1] by (simp add: link_def flip: fs1_def)
  qed
qed

lemma link_chain:
  assumes "chain f cl FAT_ENT_EOF" and "distinct cl" and "c \<notin> set cl"
    and g: "g = (if cl = [] then f(c := FAT_ENT_EOF) else f(c := FAT_ENT_EOF, last cl := of_nat c))"
  shows "chain g (cl @ [c]) FAT_ENT_EOF"
proof (cases "cl = []")
  case False
  have bl: "last cl \<notin> set (butlast cl)"
    using False assms(2) by (metis append_butlast_last_id distinct.simps(2) distinct1_rotate rotate1.simps(2))
  have "chain f (butlast cl) (of_nat (last cl))"
    using assms(1) False chain_append [of f "butlast cl" "last cl"] by simp
  then have "chain g (butlast cl) (of_nat (last cl))"
    using bl assms(3) False by (subst chain_cong [where g = f]) (auto simp: g dest: in_set_butlastD)
  then have "chain g (butlast cl @ [last cl]) (of_nat c)" using False by (subst chain_append) (simp add: g)
  moreover have "c \<noteq> last cl" using False assms(3) by auto
  ultimately show ?thesis using False by (simp add: chain_append) (simp add: g)
qed (simp add: g)

lemma copies_agree_link:
  assumes wf: "wf_fat fs" and p: "points fs fe" and e: "entry fe < max_cluster fs" and c: "copies_agree fs B"
    and prev: "nr_bhs prev \<noteq> 0 \<Longrightarrow> points fs prev \<and> entry prev < max_cluster fs \<and> set (bhs prev) \<subseteq> B"
  shows "copies_agree (link fe prev fs) (B \<union> set (bhs fe))"
proof -
  define fs1 where "fs1 = ent_put fe FAT_ENT_EOF fs"
  have g1: "geometry fs1 = geometry fs" by (simp add: fs1_def)
  have c1: "copies_agree fs1 (B \<union> set (bhs fe))" unfolding fs1_def by (rule copies_agree_put [OF wf p e c])
  show ?thesis
  proof (cases "nr_bhs prev = 0")
    case True
    then show ?thesis using c1 by (simp add: link_def flip: fs1_def)
  next
    case False
    then have "copies_agree (ent_put prev (of_nat (entry fe)) fs1) (B \<union> set (bhs fe) \<union> set (bhs prev))"
      using prev wf geometry_fields(6,11,12) [OF g1] by (intro copies_agree_put c1) auto
    moreover have "B \<union> set (bhs fe) \<union> set (bhs prev) = B \<union> set (bhs fe)" using False prev by auto
    ultimately show ?thesis using False by (simp add: link_def flip: fs1_def)
  qed
qed

definition account :: "nat \<Rightarrow> fat_fs \<Rightarrow> fat_fs" where
  "account e fs = (let fs = fs\<lparr>prev_free := of_nat e\<rparr>
     in if free_clusters fs \<noteq> - 1 then fs\<lparr>free_clusters := free_clusters fs - 1\<rparr> else fs)"

lemma alloc_take_eq: "alloc_take fe prev bs cl fs = (fat_collect_bhs bs (bhs fe), cl @ [entry fe], account (entry fe) (link fe prev fs))"
  by (simp add: alloc_take_def account_def link_def Let_def)

lemma account_fields [simp]:
  "geometry (account e fs) = geometry fs" "ftab (account e fs) = ftab fs" "faults (account e fs) = faults fs"
  "copies_agree (account e fs) B = copies_agree fs B" "prev_free (account e fs) = of_nat e"
  by (simp_all add: account_def Let_def copies_agree_def same_copy_def in_table_def)

lemma free_set_take:
  assumes c: "c \<in> free_set fs" and m: "max_cluster fs' = max_cluster fs"
    and t: "\<And>e. valid_clus fs e \<Longrightarrow> ftab fs' e = FAT_ENT_FREE \<longleftrightarrow> e \<noteq> c \<and> ftab fs e = FAT_ENT_FREE"
  shows "free_set fs' = free_set fs - {c}"
  using c t by (auto simp: free_set_def valid_clus_def m)

lemma cnt_ok_take:
  assumes "c \<in> free_set fs" and "free_set fs' = free_set fs - {c}" and "free_clusters fs' = free_clusters fs" and "cnt_ok fs"
  shows "cnt_ok (account c fs')"
proof -
  have "free_set (account c fs') = free_set fs'"
    by (simp add: free_set_def valid_clus_def account_def Let_def)
  moreover have "0 < card (free_set fs)" using assms(1) by (auto simp: card_gt_0_iff)
  moreover then have "of_nat (card (free_set fs) - 1) = (of_nat (card (free_set fs)) - 1 :: u32)" by (simp add: of_nat_diff)
  ultimately show ?thesis
    using assms by (auto simp: cnt_ok_def account_def Let_def)
qed

lemma alloc_inv_take:
  assumes wf: "wf_fat fs0" and inv: "alloc_inv fs0 a prev bs cl k fs" and p: "points fs0 fe" and e: "entry fe = pos fs0 a k"
    and k: "k < clusters fs0" and f: "ftab fs (entry fe) = FAT_ENT_FREE"
    and tk: "alloc_take fe prev bs cl fs = (bs', cl', fs')"
  shows "alloc_inv fs0 a fe bs' cl' (Suc k) fs'" and "cl' = cl @ [entry fe]"
proof -
  define c where "c = entry fe"
  define fs1 where "fs1 = link fe prev fs"
  have res: "bs' = fat_collect_bhs bs (bhs fe)" "cl' = cl @ [c]" "fs' = account c fs1"
    using tk by (simp_all add: alloc_take_eq c_def fs1_def)
  show "cl' = cl @ [entry fe]" by (simp add: res c_def)
  have g: "geometry fs = geometry fs0" using alloc_inv_geometry [OF inv] .
  have m: "max_cluster fs = max_cluster fs0" using geometry_fields(6) [OF g] .
  have w: "wf_fat fs" "points fs fe" using wf p geometry_fields(11,12) [OF g] by auto
  have "0 < clusters fs0" using k by simp
  then have v: "valid_clus fs0 c" "valid_clus fs c" using pos_valid e valid_clus_cong [OF g] by (auto simp: c_def)
  have fresh: "c \<notin> set cl" using inv pos_fresh [OF k, of a] e by (auto simp: alloc_inv_def c_def)
  have c0: "c \<in> free_set fs0" using inv f fresh v(1) by (auto simp: alloc_inv_def free_set_def c_def valid_clus_def)
  have prev: "if cl = [] then nr_bhs prev = 0 else points fs prev \<and> entry prev = last cl"
    using inv geometry_fields(12) [OF g] by (auto simp: alloc_inv_def)
  have t: "ftab fs1 = (if cl = [] then (ftab fs)(c := FAT_ENT_EOF) else (ftab fs)(c := FAT_ENT_EOF, last cl := of_nat c))"
    unfolding fs1_def c_def by (rule link_table [OF w v(2) [unfolded c_def] prev])
  have ch: "chain (ftab fs1) (cl @ [c]) FAT_ENT_EOF"
    using inv fresh by (intro link_chain [OF _ _ _ t]) (auto simp: alloc_inv_def)
  have cl: "last cl < max_cluster fs" if "cl \<noteq> []"
    using inv m last_in_set [OF that] by (auto simp: alloc_inv_def free_set_def valid_clus_def)
  have "copies_agree fs1 (set bs')" if "copies_agree fs0 {}"
    unfolding fs1_def res(1) set_collect_bhs
  proof (rule copies_agree_link [OF w])
    show "entry fe < max_cluster fs" using v(2) by (simp add: valid_clus_def c_def)
    show "copies_agree fs (set bs)" using inv that by (simp add: alloc_inv_def)
    show "points fs prev \<and> entry prev < max_cluster fs \<and> set (bhs prev) \<subseteq> set bs" if "nr_bhs prev \<noteq> 0"
      using inv that prev cl by (auto simp: alloc_inv_def split: if_splits)
  qed
  moreover have "cnt_ok fs'" if "cnt_ok fs0"
  proof -
    have "cnt_ok fs" using inv that by (simp add: alloc_inv_def)
    moreover have cf: "c \<in> free_set fs" using f v(2) by (simp add: free_set_def c_def)
    moreover have "free_set fs1 = free_set fs - {c}"
      using cf
    proof (rule free_set_take)
      show "max_cluster fs1 = max_cluster fs" by (rule geometry_fields(6)) (simp add: fs1_def)
      have "ftab fs (last cl) = FAT_ENT_EOF" if "cl \<noteq> []" using inv chain_last that by (auto simp: alloc_inv_def)
      then show "ftab fs1 x = FAT_ENT_FREE \<longleftrightarrow> x \<noteq> c \<and> ftab fs x = FAT_ENT_FREE" for x
        using valid_small(3) [OF wf v(1)] by (auto simp: t fat_consts)
    qed
    ultimately show ?thesis unfolding res(3) by (intro cnt_ok_take) (simp_all add: fs1_def)
  qed
  moreover have "prev_ok fs'"
    using v(1) valid_small(1) [OF wf v(1)] geometry_fields(6) [of fs' fs0] g by (simp add: prev_ok_def res(3) valid_clus_def fs1_def)
  moreover have "set (cl @ [c]) = pos fs0 a ` {0..<Suc k} \<inter> free_set fs0"
    using inv c0 e by (auto simp: alloc_inv_def atLeast0_lessThan_Suc c_def)
  moreover have "ftab fs1 x = ftab fs0 x" if "x < max_cluster fs0" "x \<notin> set (cl @ [c])" for x
    using inv that by (auto simp: t alloc_inv_def)
  moreover have "\<forall>b \<in> set bs'. in_table fs0 b"
    using inv bhs_in_table [OF wf p] v(1) by (auto simp: alloc_inv_def res(1) c_def valid_clus_def)
  ultimately show "alloc_inv fs0 a fe bs' cl' (Suc k) fs'"
    using inv fresh ch p g by (auto simp: alloc_inv_def res c_def fs1_def)
qed

subsection \<open>The search\<close>

definition wrapped :: "fat_fs \<Rightarrow> nat \<Rightarrow> nat" where
  "wrapped fs e = (if max_cluster fs \<le> e then FAT_START_ENT else e)"

definition block_at :: "fat_fs \<Rightarrow> nat \<Rightarrow> nat \<Rightarrow> nat \<Rightarrow> bool \<times> fat_entry \<times> fat_entry \<times> nat list \<times> nat list \<times> nat \<times> fat_fs \<Rightarrow> bool" where
  "block_at fs0 a nr k = (\<lambda>(fin, fe, prev, bs, cl, count, fs).
     if fin then (\<exists>prev. alloc_inv fs0 a prev bs cl k fs) \<and> length cl = nr
     else alloc_inv fs0 a prev bs cl k fs \<and> length cl < nr \<and> count = FAT_START_ENT + k \<and>
       (k < clusters fs0 \<longrightarrow> wrapped fs0 (entry fe) = pos fs0 a k))"

definition block_post :: "fat_fs \<Rightarrow> nat \<Rightarrow> nat \<Rightarrow> nat \<Rightarrow> bool \<times> fat_entry \<times> fat_entry \<times> nat list \<times> nat list \<times> nat \<times> fat_fs \<Rightarrow> bool" where
  "block_post fs0 a nr k x \<longleftrightarrow> (\<exists>k'. k < k' \<and> k' \<le> clusters fs0 \<and> block_at fs0 a nr k' x)"

lemma block_postI: "block_at fs0 a nr (Suc k) x \<Longrightarrow> k < clusters fs0 \<Longrightarrow> block_post fs0 a nr k x"
  unfolding block_post_def by (intro exI [of _ "Suc k"]) simp

lemma block_post_mono: "block_post fs0 a nr k' x \<Longrightarrow> k \<le> k' \<Longrightarrow> block_post fs0 a nr k x"
  unfolding block_post_def using le_less_trans by blast

lemma wrapped_Suc: "0 < clusters fs \<Longrightarrow> e = pos fs a k \<Longrightarrow> wrapped fs (Suc e) = pos fs a (Suc k)"
  by (simp add: wrapped_def pos_Suc)

text \<open>The body for one entry, before the loop decides whether to go on.\<close>

lemma alloc_entry:
  assumes wf: "wf_fat fs0" and inv: "alloc_inv fs0 a prev bs cl k fs" and p: "points fs0 fe" and e: "entry fe = pos fs0 a k"
    and k: "k < clusters fs0" and l: "length cl < nr"
    and st: "(if ent_get fs fe = FAT_ENT_FREE then alloc_take fe prev bs cl fs else (bs, cl, fs)) = (bs1, cl1, fs1)"
    and prev1: "prev1 = (if ent_get fs fe = FAT_ENT_FREE then fe else prev)"
  shows "alloc_inv fs0 a prev1 bs1 cl1 (Suc k) fs1 \<and> (length cl1 < nr \<or> ent_get fs fe = FAT_ENT_FREE \<and> length cl1 = nr)"
proof -
  have "points fs fe" using p geometry_fields(12) [OF alloc_inv_geometry [OF inv]] by simp
  then have get: "ent_get fs fe = ftab fs (entry fe)" by (rule ent_get_points)
  show ?thesis
  proof (cases "ent_get fs fe = FAT_ENT_FREE")
    case True
    then have tk: "alloc_take fe prev bs cl fs = (bs1, cl1, fs1)" using st by simp
    show ?thesis
      using alloc_inv_take [OF wf inv p e k _ tk] True get l by (auto simp: prev1)
  next
    case False
    then show ?thesis using alloc_inv_skip [OF inv _ k] get e st l by (simp add: prev1)
  qed
qed

lemma alloc_block_spec:
  assumes "wf_fat fs0" and "alloc_inv fs0 a prev bs cl k fs" and "points fs0 fe" and "entry fe = pos fs0 a k"
    and "k < clusters fs0" and "length cl < nr"
  shows "\<exists>x. alloc_block nr fe prev bs cl (FAT_START_ENT + k) fs = Some x \<and> block_post fs0 a nr k x"
  using assms
proof (induction "clusters fs0 - k" arbitrary: fe prev bs cl k fs rule: less_induct)
  case less
  note wf = less.prems(1) and k = less.prems(5)
  define is_free where "is_free = (ent_get fs fe = FAT_ENT_FREE)"
  define prev1 where "prev1 = (if is_free then fe else prev)"
  obtain bs1 cl1 fs1 where st: "(if is_free then alloc_take fe prev bs cl fs else (bs, cl, fs)) = (bs1, cl1, fs1)" by (metis surj_pair)
  have inv1: "alloc_inv fs0 a prev1 bs1 cl1 (Suc k) fs1" and len: "length cl1 < nr \<or> is_free \<and> length cl1 = nr"
    using alloc_entry [OF less.prems(1-6), of bs1 cl1 fs1 prev1] st prev1_def is_free_def by auto
  have g1: "geometry fs1 = geometry fs0" using alloc_inv_geometry [OF inv1] .
  have m1: "max_cluster fs1 = max_cluster fs0" using geometry_fields(6) [OF g1] .
  have last: "FAT_START_ENT + Suc k = max_cluster fs0 \<longleftrightarrow> Suc k = clusters fs0" using k by (auto simp: clusters_def)
  obtain again fe1 where nx: "fat_ent_next fs1 fe = (again, fe1)" by (metis surj_pair)
  have e1: "entry fe1 = Suc (entry fe)" using fat_ent_next_entry [of fs1 fe] nx by simp
  have w1: "wrapped fs0 (entry fe1) = pos fs0 a (Suc k)" using wrapped_Suc [OF _ less.prems(4)] k e1 by simp
  have unf: "alloc_block nr fe prev bs cl (FAT_START_ENT + k) fs =
      (if is_free \<and> length cl1 = nr then Some (True, fe, prev, bs1, cl1, FAT_START_ENT + k, fs1)
       else if Suc k = clusters fs0 then Some (False, fe, prev1, bs1, cl1, FAT_START_ENT + Suc k, fs1)
       else if again then alloc_block nr fe1 prev1 bs1 cl1 (FAT_START_ENT + Suc k) fs1
       else Some (False, fe1, prev1, bs1, cl1, FAT_START_ENT + Suc k, fs1))"
    using st nx last m1 by (subst alloc_block.simps) (simp add: Let_def prev1_def flip: is_free_def)
  have base: "block_post fs0 a nr k (False, fe', prev1, bs1, cl1, FAT_START_ENT + Suc k, fs1)"
    if "length cl1 < nr" "Suc k < clusters fs0 \<longrightarrow> wrapped fs0 (entry fe') = pos fs0 a (Suc k)" for fe'
    using inv1 that k by (intro block_postI) (simp_all add: block_at_def)
  consider "is_free \<and> length cl1 = nr" | "length cl1 < nr" "Suc k = clusters fs0"
    | "length cl1 < nr" "Suc k < clusters fs0" "again" | "length cl1 < nr" "Suc k < clusters fs0" "\<not> again"
    using len k by fastforce
  then show ?case
  proof cases
    case 1
    then have "block_post fs0 a nr k (True, fe, prev, bs1, cl1, FAT_START_ENT + k, fs1)"
      using inv1 k by (intro block_postI) (auto simp: block_at_def)
    then show ?thesis using unf 1 by simp
  next
    case 2
    then show ?thesis using unf base [of fe] by auto
  next
    case 3
    have "points fs1 fe" "wf_fat fs1" using less.prems(1,3) geometry_fields(11,12) [OF g1] by auto
    then have p1: "points fs0 fe1" and lt: "entry fe1 < max_cluster fs0"
      using fat_ent_next_points [of fs1 fe fe1] nx 3(3) geometry_fields(12) [OF g1] m1 by auto
    have e: "entry fe1 = pos fs0 a (Suc k)" using w1 lt by (simp add: wrapped_def)
    have dec: "clusters fs0 - Suc k < clusters fs0 - k" using k by simp
    obtain x where "alloc_block nr fe1 prev1 bs1 cl1 (FAT_START_ENT + Suc k) fs1 = Some x" "block_post fs0 a nr (Suc k) x"
      using less.hyps [OF dec wf inv1 p1 e 3(2,1)] by blast
    then show ?thesis using unf 3 block_post_mono [of fs0 a nr "Suc k" x k] by simp
  next
    case 4
    then show ?thesis using unf base [of fe1] w1 by simp
  qed
qed

lemma chain_used:
  assumes "wf_fat fs" and "chain f cl FAT_ENT_EOF" and "\<forall>c \<in> set cl. valid_clus fs c" and "c \<in> set cl"
  shows "f c \<noteq> FAT_ENT_FREE"
  using assms(2-4)
proof (induction f cl FAT_ENT_EOF rule: chain.induct)
  case (3 f c d cs)
  then show ?case using valid_small(3) [OF assms(1), of d] by auto
qed (auto simp: fat_consts)

lemma alloc_inv_valid: "alloc_inv fs0 a prev bs cl k fs \<Longrightarrow> \<forall>c \<in> set cl. valid_clus fs0 c"
  by (auto simp: alloc_inv_def free_set_def)

lemma alloc_inv_full:
  assumes wf: "wf_fat fs0" and inv: "alloc_inv fs0 a prev bs cl (clusters fs0) fs"
  shows "alloc_inv fs0 a prev bs cl (clusters fs0) (fs\<lparr>free_clusters := 0, free_clus_valid := b\<rparr>)"
proof -
  let ?fs = "fs\<lparr>free_clusters := 0, free_clus_valid := b\<rparr>"
  have g: "geometry fs = geometry fs0" using alloc_inv_geometry [OF inv] .
  have "ftab fs e \<noteq> FAT_ENT_FREE" if v: "valid_clus fs0 e" for e
  proof (cases "e \<in> set cl")
    case True
    then show ?thesis using chain_used [OF wf _ alloc_inv_valid [OF inv]] inv by (auto simp: alloc_inv_def)
  next
    case False
    then have "e \<notin> free_set fs0" using inv v pos_image [of fs0 a] by (auto simp: alloc_inv_def)
    then show ?thesis using inv False v by (auto simp: alloc_inv_def free_set_def valid_clus_def)
  qed
  then have "free_set ?fs = {}" using valid_clus_cong [OF g] by (auto simp: free_set_def valid_clus_def)
  then have "cnt_ok ?fs" by (simp add: cnt_ok_def)
  then show ?thesis using inv by (simp add: alloc_inv_def copies_agree_def same_copy_def in_table_def prev_ok_def valid_clus_def)
qed

lemma alloc_inv_still:
  assumes "alloc_inv fs0 a prev bs cl k fs" and "only_faults fs fs1" and "faults fs0 = [] \<Longrightarrow> faults fs1 = []"
  shows "alloc_inv fs0 a prev bs cl k fs1"
  using assms only_faults_inv [OF assms(2)] copies_agree_only_faults [OF assms(2)] still_sets(2) [OF still_only_faults [OF assms(2)]]
    valid_clus_cong [OF only_faults_inv(1) [OF assms(2)]]
  by (simp add: alloc_inv_def prev_ok_def)

definition loop_post :: "fat_fs \<Rightarrow> nat \<Rightarrow> nat \<Rightarrow> (errno + unit) \<times> nat list \<times> nat list \<times> fat_fs \<Rightarrow> bool" where
  "loop_post fs0 a nr = (\<lambda>(res, bs, cl, fs). \<exists>prev k. k \<le> clusters fs0 \<and> alloc_inv fs0 a prev bs cl k fs \<and>
     (case res of Inr _ \<Rightarrow> length cl = nr
      | Inl e \<Rightarrow> length cl < nr \<and> (e = ENOSPC \<and> k = clusters fs0 \<or> e = EIO \<and> faults fs0 \<noteq> [])))"

lemma alloc_loop_spec:
  assumes "wf_fat fs0" and "alloc_inv fs0 a prev bs cl k fs" and "k \<le> clusters fs0" and "0 < clusters fs0"
    and "k < clusters fs0 \<longrightarrow> wrapped fs0 (entry fe) = pos fs0 a k" and "length cl < nr"
  shows "\<exists>x. alloc_loop nr fe prev bs cl (FAT_START_ENT + k) fs = Some x \<and> loop_post fs0 a nr x"
  using assms
proof (induction "clusters fs0 - k" arbitrary: fe prev bs cl k fs rule: less_induct)
  case less
  note wf = less.prems(1) and inv = less.prems(2)
  have g: "geometry fs = geometry fs0" using alloc_inv_geometry [OF inv] .
  have m: "max_cluster fs = max_cluster fs0" "wf_fat fs" using geometry_fields(6,11) [OF g] wf by auto
  have max: "max_cluster fs0 = FAT_START_ENT + clusters fs0" using less.prems(4) by (simp add: clusters_def)
  show ?case
  proof (cases "k < clusters fs0")
    case False
    then have "k = clusters fs0" using less.prems(3) by simp
    then have "loop_post fs0 a nr (Inl ENOSPC, bs, cl, fs\<lparr>free_clusters := 0, free_clus_valid := True\<rparr>)"
      using alloc_inv_full [OF wf, of a prev bs cl fs] inv less.prems(6) unfolding loop_post_def by auto
    then show ?thesis using False m max by (subst alloc_loop.simps) simp
  next
    case True
    define fe0 where "fe0 = fatent_set_entry fe (wrapped fs0 (entry fe))"
    have fe0: "(let fe = (if max_cluster fs \<le> entry fe then fe\<lparr>entry := FAT_START_ENT\<rparr> else fe) in fatent_set_entry fe (entry fe)) = fe0"
      by (simp add: fe0_def wrapped_def m fatent_set_entry_def)
    obtain r1 fe1 fs1 where rb: "run_state (fat_ent_read_block fe0) fs = ((r1, fe1), fs1)" by (metis surj_pair)
    note sp = fat_ent_read_block_spec [OF rb m(2)]
    have calm: "faults fs1 = [] \<and> r1 = Inr ()" if "faults fs0 = []"
    proof -
      have "faults fs = []" using inv that by (simp add: alloc_inv_def)
      then show ?thesis using rb ent_bread_calm [of fs] by (simp add: fat_ent_read_block_def split: prod.splits) (metis Pair_inject)
    qed
    have inv1: "alloc_inv fs0 a prev bs cl k fs1" using calm by (intro alloc_inv_still [OF inv sp(1)]) simp
    have unf: "alloc_loop nr fe prev bs cl (FAT_START_ENT + k) fs = (case r1 of Inl err \<Rightarrow> Some (Inl err, bs, cl, fs1)
        | Inr _ \<Rightarrow> Option.bind (alloc_block nr fe1 prev bs cl (FAT_START_ENT + k) fs1) (\<lambda>(fin, fe, prev_ent, bs, cl, count, fs).
                     if fin then Some (Inr (), bs, cl, fs) else alloc_loop nr fe prev_ent bs cl count fs))"
      using True m max rb fe0 by (subst alloc_loop.simps) (simp add: Let_def)
    show ?thesis
    proof (cases r1)
      case (Inl e)
      then have "loop_post fs0 a nr (Inl e, bs, cl, fs1)"
        using inv1 calm sp(4) less.prems(3,6) unfolding loop_post_def by auto
      then show ?thesis using unf Inl by simp
    next
      case (Inr u)
      have p1: "points fs0 fe1" using sp(3) Inr geometry_fields(12) [OF g] by simp
      have e1: "entry fe1 = pos fs0 a k" using sp(2) less.prems(5) True by (simp add: fe0_def fatent_set_entry_def)
      obtain x where ab: "alloc_block nr fe1 prev bs cl (FAT_START_ENT + k) fs1 = Some x" and bp: "block_post fs0 a nr k x"
        using alloc_block_spec [OF wf inv1 p1 e1 True less.prems(6)] by blast
      obtain fin fe2 prev2 bs2 cl2 count2 fs2 where x: "x = (fin, fe2, prev2, bs2, cl2, count2, fs2)" by (cases x)
      obtain k2 where k2: "k < k2" "k2 \<le> clusters fs0" "block_at fs0 a nr k2 x" using bp by (auto simp: block_post_def)
      show ?thesis
      proof (cases fin)
        case True
        then have "loop_post fs0 a nr (Inr (), bs2, cl2, fs2)"
          using k2 x unfolding loop_post_def by (auto simp: block_at_def)
        then show ?thesis using unf Inr ab x True by simp
      next
        case False
        then have inv2: "alloc_inv fs0 a prev2 bs2 cl2 k2 fs2" "length cl2 < nr" "count2 = FAT_START_ENT + k2"
            "k2 < clusters fs0 \<longrightarrow> wrapped fs0 (entry fe2) = pos fs0 a k2"
          using k2(3) x by (simp_all add: block_at_def)
        have dec: "clusters fs0 - k2 < clusters fs0 - k" using k2(1) True by simp
        show ?thesis
          using less.hyps [OF dec wf inv2(1) k2(2) less.prems(4) inv2(4,2)] unf Inr ab x False inv2(3) by simp
      qed
    qed
  qed
qed

subsection \<open>Allocation\<close>

lemma prev_ok_still: "still fs fs' \<Longrightarrow> prev_ok fs' = prev_ok fs"
  using valid_clus_cong [OF still_geometry] by (simp add: prev_ok_def still_def)

lemma still_trans: "still fs fs1 \<Longrightarrow> still fs1 fs2 \<Longrightarrow> still fs fs2"
  using geometry_fields(6) [OF still_geometry, of fs fs1] by (auto simp: still_def)

lemma alloc_inv_chain:
  assumes "alloc_inv fs0 a prev bs cl k fs" and "still fs fs'" and "cl \<noteq> []"
  shows "file_chain fs' cl"
proof -
  have g: "geometry fs = geometry fs0" using alloc_inv_geometry [OF assms(1)] .
  have v: "\<forall>c \<in> set cl. valid_clus fs c" using alloc_inv_valid [OF assms(1)] valid_clus_cong [OF g] by simp
  have "chain (ftab fs') cl FAT_ENT_EOF"
    using assms(1,2) v by (subst chain_cong [where g = "ftab fs"]) (auto simp: alloc_inv_def still_def valid_clus_def)
  then show ?thesis
    using assms v valid_clus_cong [OF still_geometry [OF assms(2)]] by (simp add: file_chain_def alloc_inv_def)
qed

lemma rollback:
  assumes wf: "wf_fat fs0" and inv: "alloc_inv fs0 a prev bs cl k fs" and st: "still fs fs2" and ne: "cl \<noteq> []"
  obtains r fs3 where "fat_free_clusters (int (cl ! 0)) fs2 = Some (r, fs3)" "cnt_ok fs0 \<longrightarrow> cnt_ok fs3"
    "faults fs2 = [] \<longrightarrow> faults fs3 = [] \<and> (\<forall>e < max_cluster fs0. ftab fs3 e = ftab fs0 e)" "geometry fs3 = geometry fs0" "prev_ok fs3"
proof -
  have g: "geometry fs = geometry fs0" using alloc_inv_geometry [OF inv] .
  have g2: "geometry fs2 = geometry fs0" using still_geometry [OF st] g by simp
  have m: "max_cluster fs = max_cluster fs0" "max_cluster fs2 = max_cluster fs0" "wf_fat fs2"
    using geometry_fields(6) [OF g] geometry_fields(6,11) [OF g2] wf by auto
  have fc: "file_chain fs2 cl" by (rule alloc_inv_chain [OF inv st ne])
  obtain r fs3 where run: "fat_free_clusters (int (cl ! 0)) fs2 = Some (r, fs3)" and post: "release_post fs2 (int (cl ! 0)) r fs3"
    using free_clusters_spec [OF m(3)] by blast
  obtain ds where ds: "freed fs2 ds fs3" "r = Inr () \<Longrightarrow> file_chain fs2 ds \<and> hd ds = cl ! 0"
    using post unfolding release_post_def by auto
  have "cnt_ok fs0 \<longrightarrow> cnt_ok fs3"
    using inv still_sets(2) [OF st] ds(1) by (auto simp: alloc_inv_def freed_def)
  moreover have "faults fs3 = [] \<and> (\<forall>e < max_cluster fs0. ftab fs3 e = ftab fs0 e)" if "faults fs2 = []"
  proof -
    have r: "r = Inr ()" "faults fs3 = []" using post that fc ne by (auto simp: release_post_def hd_conv_nth)
    then have "ds = cl" using chain_unique [OF m(3) _ fc] ds(2) ne by (simp add: hd_conv_nth)
    then show ?thesis
      using ds(1) st inv m r(2) by (auto simp: freed_def still_def alloc_inv_def free_set_def)
  qed
  moreover have g3: "geometry fs3 = geometry fs0" using freed_geometry [OF ds(1)] g2 by simp
  moreover have "prev_ok fs3"
    using prev_ok_still [OF st] inv ds(1) valid_clus_cong [OF freed_geometry [OF ds(1)]] by (simp add: prev_ok_def freed_def alloc_inv_def)
  ultimately show thesis using that [OF run] by blast
qed

definition alloc_post :: "fat_fs \<Rightarrow> nat \<Rightarrow> (errno + unit) \<Rightarrow> nat list \<Rightarrow> fat_fs \<Rightarrow> bool" where
  "alloc_post fs nr r cl fs' \<longleftrightarrow> geometry fs' = geometry fs \<and> prev_ok fs' \<and> (faults fs = [] \<longrightarrow> faults fs' = []) \<and> (cnt_ok fs \<longrightarrow> cnt_ok fs') \<and>
     (r = Inr () \<longrightarrow> length cl = nr \<and> set cl \<subseteq> free_set fs \<and> file_chain fs' cl \<and>
        (\<forall>e < max_cluster fs. e \<notin> set cl \<longrightarrow> ftab fs' e = ftab fs e) \<and> (copies_agree fs {} \<longrightarrow> copies_agree fs' {})) \<and>
     (faults fs = [] \<and> cnt_ok fs \<and> r \<noteq> Inr () \<longrightarrow> r = Inl ENOSPC \<and> card (free_set fs) < nr \<and> (\<forall>e < max_cluster fs. ftab fs' e = ftab fs e))"

lemma alloc_success:
  assumes wf: "wf_fat fs0" and inv: "alloc_inv fs0 a prev bs cl k fs" and l: "length cl = nr" "0 < nr"
    and st: "still fs fs'" and ag: "copies_agree fs (set bs) \<longrightarrow> copies_agree fs' {}" and fa: "faults fs0 = [] \<Longrightarrow> faults fs' = []"
  shows "alloc_post fs0 nr (Inr ()) cl fs'"
proof -
  have g: "geometry fs = geometry fs0" using alloc_inv_geometry [OF inv] .
  have "file_chain fs' cl" using l by (intro alloc_inv_chain [OF inv st]) auto
  then show ?thesis
    using inv l st ag fa g still_sets(2) [OF st] prev_ok_still [OF st] geometry_fields(6) [OF g]
    by (auto simp: alloc_post_def alloc_inv_def still_def)
qed

lemma alloc_failure:
  assumes wf: "wf_fat fs0" and inv: "alloc_inv fs0 a prev bs cl k fs" and st: "still fs fs2"
    and calm: "faults fs0 = [] \<Longrightarrow> e = ENOSPC \<and> k = clusters fs0 \<and> faults fs2 = []" and l: "length cl < nr \<or> faults fs0 \<noteq> []"
    and x: "x = (if cl \<noteq> [] then case fat_free_clusters (int (cl ! 0)) fs2 of None \<Rightarrow> None | Some (_, fs) \<Rightarrow> Some (Inl e, cl, fs)
      else Some (Inl e, cl, fs2))"
  shows "\<exists>r cl fs'. x = Some (r, cl, fs') \<and> alloc_post fs0 nr r cl fs'"
proof -
  have g: "geometry fs = geometry fs0" using alloc_inv_geometry [OF inv] .
  have card: "card (free_set fs0) < nr" if "faults fs0 = []"
  proof -
    have "set cl = free_set fs0"
      using inv calm [OF that] pos_image [of fs0 a] by (auto simp: alloc_inv_def free_set_def)
    then have "card (free_set fs0) = length cl" using inv distinct_card [of cl] by (simp add: alloc_inv_def)
    then show ?thesis using l that by auto
  qed
  show ?thesis
  proof (cases "cl = []")
    case True
    then have "alloc_post fs0 nr (Inl e) cl fs2"
      using inv st g still_sets(2) [OF st] prev_ok_still [OF st] calm card geometry_fields(6) [OF g] by (auto simp: alloc_post_def alloc_inv_def still_def)
    then show ?thesis using True x by auto
  next
    case False
    obtain r fs3 where "fat_free_clusters (int (cl ! 0)) fs2 = Some (r, fs3)" "cnt_ok fs0 \<longrightarrow> cnt_ok fs3"
        "faults fs2 = [] \<longrightarrow> faults fs3 = [] \<and> (\<forall>e < max_cluster fs0. ftab fs3 e = ftab fs0 e)" "geometry fs3 = geometry fs0" "prev_ok fs3"
      using rollback [OF wf inv st False] .
    then show ?thesis using False calm card x by (auto simp: alloc_post_def)
  qed
qed

lemma search_start:
  assumes wf: "wf_fat fs" and prev: "prev_ok fs"
  shows "0 < clusters fs" and "wrapped fs (unat (prev_free fs + 1)) = pos fs (unat (prev_free fs) - 1) 0"
proof -
  let ?p = "unat (prev_free fs)"
  have p: "2 \<le> ?p" "?p < max_cluster fs" using prev by (simp_all add: prev_ok_def valid_clus_def FAT_START_ENT_def)
  then show c: "0 < clusters fs" by (simp add: clusters_def FAT_START_ENT_def)
  have "?p < unat (bad_of (fatent_ops fs))" using p wf by (simp add: wf_fat_def)
  then have "prev_free fs < bad_of (fatent_ops fs)" by (simp add: word_less_nat_alt)
  then have "prev_free fs \<noteq> - 1" by (auto simp: not_less word_n1_ge)
  then have "prev_free fs + 1 \<noteq> 0" by (simp add: eq_neg_iff_add_eq_0)
  then have u: "unat (prev_free fs + 1) = ?p + 1" by (simp add: unatSuc add.commute)
  show "wrapped fs (unat (prev_free fs + 1)) = pos fs (?p - 1) 0"
  proof (cases "?p + 1 < max_cluster fs")
    case True
    then show ?thesis using p u by (simp add: wrapped_def pos_def clusters_def FAT_START_ENT_def)
  next
    case False
    then have "?p - 1 = clusters fs" using p by (simp add: clusters_def FAT_START_ENT_def)
    then show ?thesis using False u by (simp add: wrapped_def pos_def)
  qed
qed

lemma early_exit:
  assumes wf: "wf_fat fs" and c: "cnt_ok fs" and f: "free_clusters fs \<noteq> - 1" "free_clusters fs < of_nat nr" and nr: "nr \<le> 4"
  shows "card (free_set fs) < nr"
proof -
  have "card (free_set fs) \<le> card {..<max_cluster fs}" by (rule card_mono) (auto simp: free_set_def valid_clus_def)
  also have "\<dots> \<le> unat (bad_of (fatent_ops fs))" using wf by (simp add: wf_fat_def)
  also have "\<dots> < 2 ^ 32" using unsigned_less [of "bad_of (fatent_ops fs)"] by simp
  finally have "unat (of_nat (card (free_set fs)) :: u32) = card (free_set fs)"
    by (simp add: unsigned_of_nat take_bit_nat_eq_self_iff)
  moreover have "unat (of_nat nr :: u32) = nr" using nr by (simp add: unsigned_of_nat take_bit_nat_eq_self_iff)
  ultimately show ?thesis using c f by (simp add: cnt_ok_def word_less_nat_alt)
qed

lemma alloc_clusters_spec:
  assumes wf: "wf_fat fs" and prev: "prev_ok fs" and nr: "0 < nr" "nr \<le> 4"
  shows "\<exists>r cl fs'. fat_alloc_clusters nr sync fs = Some (r, cl, fs') \<and> alloc_post fs nr r cl fs'"
proof (cases "free_clusters fs \<noteq> - 1 \<and> free_clus_valid fs \<and> free_clusters fs < of_nat nr")
  case True
  then have "alloc_post fs nr (Inl ENOSPC) [] fs" using early_exit [OF wf _ _ _ nr(2)] prev by (auto simp: alloc_post_def)
  then show ?thesis using True nr by (auto simp: fat_alloc_clusters_def MAX_BUF_PER_PAGE_def)
next
  case False
  define a where "a = unat (prev_free fs) - 1"
  let ?fe = "fatent_set_entry fatent_init (unat (prev_free fs + 1))"
  note ss = search_start [OF wf prev]
  have inv0: "alloc_inv fs a fatent_init [] [] 0 fs" using prev by (simp add: alloc_inv_def fatent_init_def)
  have start: "0 < clusters fs \<longrightarrow> wrapped fs (entry ?fe) = pos fs a 0" using ss by (simp add: a_def fatent_set_entry_def)
  obtain x where l: "alloc_loop nr ?fe fatent_init [] [] (FAT_START_ENT + 0) fs = Some x" and lp: "loop_post fs a nr x"
    using alloc_loop_spec [OF wf inv0 _ ss(1) start, of nr] nr(1) by auto
  obtain res bs cl fs1 where x: "x = (res, bs, cl, fs1)" by (cases x)
  obtain prev1 k where inv: "alloc_inv fs a prev1 bs cl k fs1" and res: "case res of Inr _ \<Rightarrow> length cl = nr
      | Inl e \<Rightarrow> length cl < nr \<and> (e = ENOSPC \<and> k = clusters fs \<or> e = EIO \<and> faults fs \<noteq> [])"
    using lp by (auto simp: loop_post_def x)
  define fs2 where "fs2 = mark_fsinfo_dirty fs1"
  have st2: "still fs1 fs2" unfolding fs2_def by (rule still_mark)
  have g2: "geometry fs2 = geometry fs" using still_geometry [OF st2] alloc_inv_geometry [OF inv] by simp
  have fa2: "faults fs2 = []" if "faults fs = []" using inv that by (simp add: alloc_inv_def fs2_def)
  obtain err fs3 where fl: "(case res of Inl e \<Rightarrow> (Inl e, fs2) | Inr _ \<Rightarrow> run_state (flush_bhs sync bs) fs2) = (err, fs3)" by (metis surj_pair)
  have unf: "fat_alloc_clusters nr sync fs = (if err \<noteq> Inr () \<and> cl \<noteq> []
      then case fat_free_clusters (int (cl ! 0)) fs3 of None \<Rightarrow> None | Some (_, fs) \<Rightarrow> Some (err, cl, fs) else Some (err, cl, fs3))"
    unfolding fat_alloc_clusters_def if_not_P [OF False] using nr l x fl by (simp add: MAX_BUF_PER_PAGE_def flip: fs2_def)
  show ?thesis
  proof (cases res)
    case (Inl e)
    then have e: "err = Inl e" "fs3 = fs2" using fl by auto
    show ?thesis
      using res Inl fa2 unf e by (intro alloc_failure [OF wf inv st2, of e nr]) auto
  next
    case (Inr u)
    have wf2: "wf_fat fs2" using wf geometry_fields(11) [OF g2] by simp
    have tb: "\<forall>b \<in> set bs. in_table fs2 b" using inv in_table_cong [OF g2] by (simp add: alloc_inv_def)
    have fl': "run_state (flush_bhs sync bs) fs2 = (err, fs3)" using fl Inr by simp
    have st3: "still fs1 fs3" by (rule still_trans [OF st2 still_mirrors [OF wf2 flush_bhs_spec(1) [OF fl' tb]]])
    show ?thesis
    proof (cases err)
      case (Inl e)
      have "faults fs \<noteq> []" using flush_bhs_calm [OF fa2, of sync bs] fl' Inl by auto
      then show ?thesis using unf Inl by (intro alloc_failure [OF wf inv st3, of e nr]) auto
    next
      case Inr2: (Inr v)
      have "copies_agree fs1 (set bs) \<longrightarrow> copies_agree fs3 {}"
        using flush_bhs_spec(2) [OF fl' tb, of "{}"] Inr2 by (simp add: fs2_def copies_agree_mark)
      moreover have "faults fs3 = []" if "faults fs = []" using flush_bhs_calm [OF fa2 [OF that], of sync bs] fl' by auto
      ultimately have "alloc_post fs nr (Inr ()) cl fs3" using res Inr nr(1) by (intro alloc_success [OF wf inv _ _ st3]) auto
      then show ?thesis using unf Inr2 by auto
    qed
  qed
qed

text \<open>
  C8 (what an allocation gives).  \<^verbatim>\<open>fat_alloc_clusters\<close> returns on every well-formed file system for a number of clusters from 1 to 4, and keeps an exact count of
  free clusters exact.  If it reports success, it gives that many clusters, all free before, which form a chain of distinct clusters closed by the
  end mark; every other entry is unchanged, and the copies of the table agree if they did before.
\<close>

theorem fat_alloc_clusters_sound:
  assumes "wf_fat fs" and "prev_ok fs" and "0 < nr" and "nr \<le> 4"
  shows "\<exists>r cl fs'. fat_alloc_clusters nr sync fs = Some (r, cl, fs') \<and> (cnt_ok fs \<longrightarrow> cnt_ok fs') \<and>
    (r = Inr () \<longrightarrow> length cl = nr \<and> set cl \<subseteq> free_set fs \<and> file_chain fs' cl \<and>
       (\<forall>e < max_cluster fs. e \<notin> set cl \<longrightarrow> ftab fs' e = ftab fs e) \<and> (copies_agree fs {} \<longrightarrow> copies_agree fs' {}))"
  using alloc_clusters_spec [OF assms, of sync] unfolding alloc_post_def by blast

lemma ex_file_facts:
  "wf_fat ex_file" "prev_ok ex_file" "faults ex_file = []" "card (free_set ex_file) = 6" "cnt_ok ex_file"
proof -
  show "wf_fat ex_file" by (simp add: wf_fat_def ex_file_def ex_fat12_def fat_consts)
  show "prev_ok ex_file" by (simp add: prev_ok_def valid_clus_def FAT_START_ENT_def ex_file_def ex_fat12_def)
  show "faults ex_file = []" by (simp add: ex_file_def ex_fat12_def)
  have "nfree ex_file FAT_START_ENT (max_cluster ex_file) = 6" by code_simp
  then show c: "card (free_set ex_file) = 6" using nfree_free_set [of ex_file] by simp
  show "cnt_ok ex_file" unfolding cnt_ok_def c by (simp add: ex_file_def)
qed

theorem fat_alloc_clusters_sound_witness:
  "\<exists>r cl fs'. fat_alloc_clusters 3 True ex_file = Some (r, cl, fs') \<and> cnt_ok fs' \<and>
    (r = Inr () \<longrightarrow> length cl = 3 \<and> set cl \<subseteq> free_set ex_file \<and> file_chain fs' cl)"
  using fat_alloc_clusters_sound [OF ex_file_facts(1,2), of 3 True] ex_file_facts(5) by auto

text \<open>
  C9 (an allocation fails only when the disk is full).  When no access fails and the count of free clusters is exact or unknown, \<^verbatim>\<open>fat_alloc_clusters\<close> succeeds
  unless fewer clusters than requested are free; then it reports no space and every entry of the table is as it was, so the
  clusters linked before the search ran out were given back.
\<close>

theorem fat_alloc_clusters_complete:
  assumes "wf_fat fs" and "prev_ok fs" and "0 < nr" and "nr \<le> 4" and "faults fs = []" and "cnt_ok fs"
  shows "\<exists>r cl fs'. fat_alloc_clusters nr sync fs = Some (r, cl, fs') \<and>
    (if nr \<le> card (free_set fs) then r = Inr ()
     else r = Inl ENOSPC \<and> (\<forall>e < max_cluster fs. ftab fs' e = ftab fs e))"
proof -
  obtain r cl fs' where run: "fat_alloc_clusters nr sync fs = Some (r, cl, fs')" and post: "alloc_post fs nr r cl fs'"
    using alloc_clusters_spec [OF assms(1-4)] by blast
  have "r \<noteq> Inr ()" if "card (free_set fs) < nr"
  proof
    assume "r = Inr ()"
    then have "length cl = nr" "set cl \<subseteq> free_set fs" "distinct cl" using post by (auto simp: alloc_post_def file_chain_def)
    then have "nr \<le> card (free_set fs)" using card_mono [of "free_set fs" "set cl"] distinct_card [of cl] by simp
    then show False using that by simp
  qed
  then show ?thesis using run post assms(5,6) by (auto simp: alloc_post_def)
qed

definition ex_full :: fat_fs where
  "ex_full = ex_file\<lparr>max_cluster := 5, free_clusters := - 1\<rparr>"

theorem fat_alloc_clusters_complete_witness:
  "(\<exists>cl fs'. fat_alloc_clusters 4 True ex_file = Some (Inr (), cl, fs')) \<and>
   (\<exists>cl fs'. fat_alloc_clusters 3 True ex_full = Some (Inl ENOSPC, cl, fs') \<and> ftab fs' 2 = ftab ex_full 2 \<and> ftab fs' 4 = ftab ex_full 4)"
proof -
  have "nfree ex_full FAT_START_ENT (max_cluster ex_full) = 2" by code_simp
  then have c: "card (free_set ex_full) = 2" using nfree_free_set [of ex_full] by simp
  have f: "wf_fat ex_full" "prev_ok ex_full" "faults ex_full = []" "cnt_ok ex_full" "max_cluster ex_full = 5"
    by (simp_all add: wf_fat_def prev_ok_def valid_clus_def FAT_START_ENT_def cnt_ok_def ex_full_def ex_file_def ex_fat12_def fat_consts)
  show ?thesis
    using fat_alloc_clusters_complete [OF ex_file_facts(1,2) _ _ ex_file_facts(3,5), of 4 True] ex_file_facts(4)
      fat_alloc_clusters_complete [OF f(1,2) _ _ f(3,4), of 3 True] c f(5) by auto
qed

end
