(* ===== verification/Fat_Time.thy ===== *)
theory Fat_Time
  imports Fat_Mirror
begin

text \<open>
  Time stamps on disk, after \<^verbatim>\<open>fat/misc.c\<close>: the conversions between the packed date and time of a directory entry and
  Unix time, and the truncation of the times kept in memory.  Breaking a Unix time down into year, month and day is the kernel's
  \<^verbatim>\<open>time64_to_tm\<close>, which is an argument of the conversion; \<open>broken_down\<close> says what it promises.
\<close>

subsection \<open>Definitions\<close>

record timespec64 =
  tv_sec :: int
  tv_nsec :: int

record tm =
  tm_sec :: int
  tm_min :: int
  tm_hour :: int
  tm_mday :: int
  tm_mon :: int
  tm_year :: int

definition SECS_PER_MIN :: int where "SECS_PER_MIN = 60"
definition SECS_PER_HOUR :: int where "SECS_PER_HOUR = 60 * 60"
definition SECS_PER_DAY :: int where "SECS_PER_DAY = SECS_PER_HOUR * 24"
definition DAYS_DELTA :: int where "DAYS_DELTA = 365 * 10 + 2"
definition YEAR_2100 :: int where "YEAR_2100 = 120"

lemmas sec_consts = SECS_PER_MIN_def SECS_PER_HOUR_def SECS_PER_DAY_def DAYS_DELTA_def YEAR_2100_def

definition IS_LEAP_YEAR :: "int \<Rightarrow> bool" where
  "IS_LEAP_YEAR y \<longleftrightarrow> y AND 3 = 0 \<and> y \<noteq> YEAR_2100"

definition days_in_year :: "int list" where
  "days_in_year = [0, 0, 31, 59, 90, 120, 151, 181, 212, 243, 273, 304, 334, 0, 0, 0]"

definition fat_tz_offset :: "fat_fs \<Rightarrow> int" where
  "fat_tz_offset fs = (if tz_set (options fs) then - time_offset (options fs) else tz_minuteswest fs) * SECS_PER_MIN"

definition fat_time_fat2unix :: "fat_fs \<Rightarrow> u16 \<Rightarrow> u16 \<Rightarrow> u8 \<Rightarrow> timespec64" where
  "fat_time_fat2unix fs time date time_cs =
     (let year = uint (drop_bit 9 date);
          month = max 1 (uint (drop_bit 5 date AND 0xf));
          day = max 1 (uint (date AND 0x1f)) - 1;
          leap_day = (year + 3) div 4;
          leap_day = (if YEAR_2100 < year then leap_day - 1 else leap_day);
          leap_day = (if IS_LEAP_YEAR year \<and> 2 < month then leap_day + 1 else leap_day);
          second = uint (push_bit 1 (time AND 0x1f));
          second = second + uint (drop_bit 5 time AND 0x3f) * SECS_PER_MIN;
          second = second + uint (drop_bit 11 time) * SECS_PER_HOUR;
          second = second + (year * 365 + leap_day + days_in_year ! nat month + day + DAYS_DELTA) * SECS_PER_DAY;
          second = second + fat_tz_offset fs
      in if time_cs \<noteq> 0
         then \<lparr>tv_sec = second + uint time_cs div 100, tv_nsec = uint time_cs mod 100 * 10000000\<rparr>
         else \<lparr>tv_sec = second, tv_nsec = 0\<rparr>)"

definition fat_time_unix2fat :: "(int \<Rightarrow> int \<Rightarrow> tm) \<Rightarrow> fat_fs \<Rightarrow> timespec64 \<Rightarrow> u16 \<times> u16 \<times> u8" where
  "fat_time_unix2fat time64_to_tm fs ts =
     (let t = time64_to_tm (tv_sec ts) (- fat_tz_offset fs)
      in if tm_year t < 1980 - 1900 then (0, word_of_int (push_bit 9 0 OR push_bit 5 1 OR 1), 0)
         else if 2107 - 1900 < tm_year t
         then (word_of_int (push_bit 11 23 OR push_bit 5 59 OR 29), word_of_int (push_bit 9 127 OR push_bit 5 12 OR 31), 199)
         else (let year = tm_year t - 80; mon = tm_mon t + 1; sec = drop_bit 1 (tm_sec t)
               in (word_of_int (push_bit 11 (tm_hour t) OR push_bit 5 (tm_min t) OR sec),
                   word_of_int (push_bit 9 year OR push_bit 5 mon OR tm_mday t),
                   word_of_int ((tv_sec ts AND 1) * 100 + tv_nsec ts div 10000000))))"

definition fat_timespec64_trunc_2secs :: "timespec64 \<Rightarrow> timespec64" where
  "fat_timespec64_trunc_2secs ts = \<lparr>tv_sec = tv_sec ts AND NOT 1, tv_nsec = 0\<rparr>"

text \<open>\<^verbatim>\<open>div_s64_rem\<close> gives the remainder of the division towards zero.\<close>

definition div_s64_rem :: "int \<Rightarrow> int \<Rightarrow> int" where
  "div_s64_rem a b = sgn a * (\<bar>a\<bar> mod b)"

definition fat_truncate_atime :: "fat_fs \<Rightarrow> timespec64 \<Rightarrow> timespec64" where
  "fat_truncate_atime fs ts =
     (let seconds = tv_sec ts - fat_tz_offset fs;
          remainder = div_s64_rem seconds SECS_PER_DAY;
          seconds = seconds + fat_tz_offset fs - remainder
      in \<lparr>tv_sec = seconds, tv_nsec = 0\<rparr>)"

definition fat_truncate_mtime :: "fat_fs \<Rightarrow> timespec64 \<Rightarrow> timespec64" where
  "fat_truncate_mtime fs ts = fat_timespec64_trunc_2secs ts"

subsection \<open>The calendar\<close>

definition leap :: "int \<Rightarrow> bool" where
  "leap y \<longleftrightarrow> 4 dvd y \<and> \<not> 100 dvd y \<or> 400 dvd y"

definition leaps :: "int \<Rightarrow> int" where
  "leaps y = y div 4 - y div 100 + y div 400"

definition month_lengths :: "bool \<Rightarrow> int list" where
  "month_lengths l = [31, if l then 29 else 28, 31, 30, 31, 30, 31, 31, 30, 31, 30, 31]"

text \<open>Days from 1 January 1970 to a date of the Gregorian calendar; months count from 0, days from 1.\<close>

definition civil_days :: "int \<Rightarrow> int \<Rightarrow> int \<Rightarrow> int" where
  "civil_days y m d = 365 * (y - 1970) + (leaps (y - 1) - leaps 1969) + sum_list (take (nat m) (month_lengths (leap y))) + (d - 1)"

definition broken_down :: "tm \<Rightarrow> int \<Rightarrow> bool" where
  "broken_down t s \<longleftrightarrow> 0 \<le> tm_sec t \<and> tm_sec t < 60 \<and> 0 \<le> tm_min t \<and> tm_min t < 60 \<and> 0 \<le> tm_hour t \<and> tm_hour t < 24 \<and>
     0 \<le> tm_mon t \<and> tm_mon t < 12 \<and> 1 \<le> tm_mday t \<and> tm_mday t \<le> month_lengths (leap (1900 + tm_year t)) ! nat (tm_mon t) \<and>
     s = civil_days (1900 + tm_year t) (tm_mon t) (tm_mday t) * 86400 + tm_hour t * 3600 + tm_min t * 60 + tm_sec t"

subsection \<open>Packing\<close>

lemma small_bit: "0 \<le> (x :: int) \<Longrightarrow> x < 2 ^ k \<Longrightarrow> k \<le> n \<Longrightarrow> \<not> bit x n"
  by (metis bit_take_bit_iff linorder_not_less take_bit_int_eq_self_iff)

text \<open>Three fields packed into a 16-bit word, as both the date and the time are.\<close>

lemma packed:
  fixes hi mid lo :: int and w :: u16
  assumes hi: "0 \<le> hi" "hi < 2 ^ (16 - a)" and mid: "0 \<le> mid" "mid < 2 ^ (a - b)" and lo: "0 \<le> lo" "lo < 2 ^ b"
    and ab: "b < a" "a < 16" and w: "w = word_of_int (push_bit a hi OR push_bit b mid OR lo)"
  shows "uint (drop_bit a w) = hi" "uint (drop_bit b w AND mask (a - b)) = mid" "uint (w AND mask b) = lo"
proof -
  have bt: "\<not> bit hi n" if "16 - a \<le> n" for n using small_bit [OF hi] that by simp
  have bm: "\<not> bit mid n" if "a - b \<le> n" for n using small_bit [OF mid] that by simp
  have bl: "\<not> bit lo n" if "b \<le> n" for n using small_bit [OF lo] that by simp
  have small: "uint (word_of_int x :: u16) = x" if "0 \<le> x" "x < 2 ^ k" "k \<le> 16" for x k
  proof -
    have "x < 2 ^ 16" using that power_increasing [of k 16 "2 :: int"] by linarith
    then show ?thesis using that by (simp add: unsigned_of_int take_bit_int_eq_self)
  qed
  have lt: "a + n < 16" if "bit hi n" for n using bt [of n] that by linarith
  have "drop_bit a w = word_of_int hi"
    using bm bl ab lt by (intro bit_word_eqI) (auto simp: w bit_simps)
  then show "uint (drop_bit a w) = hi" using small [OF hi] by simp
  have ltm: "b + n < 16 \<and> n < a - b" if "bit mid n" for n using bm [of n] that ab by linarith
  have ltl: "n < b" if "bit lo n" for n using bl [of n] that by linarith
  have "drop_bit b w AND mask (a - b) = word_of_int mid"
    using ltm bl ab by (intro bit_word_eqI) (auto simp: w bit_simps)
  then show "uint (drop_bit b w AND mask (a - b)) = mid" using small [OF mid] ab by simp
  have "w AND mask b = word_of_int lo"
    using ltl ab by (intro bit_word_eqI) (auto simp: w bit_simps)
  then show "uint (w AND mask b) = lo" using small [OF lo] ab by simp
qed

lemma uint_small: "0 \<le> x \<Longrightarrow> x < (y :: int) \<Longrightarrow> y \<le> 256 \<Longrightarrow> uint (word_of_int x :: u8) = x"
  by (simp add: unsigned_of_int take_bit_int_eq_self)

lemma and_3: "(y :: int) AND 3 = y mod 4"
  using take_bit_eq_mask [of 2 y] by (simp add: take_bit_eq_mod mask_eq_exp_minus_1)

lemma dvd_range: "0 < (k :: int) \<Longrightarrow> \<not> k dvd x" if "k * q < x" "x < k * (q + 1)"
  using that by (auto elim!: dvdE)

lemma leap_1980:
  assumes "0 \<le> y" "y \<le> 127"
  shows "leap (1980 + y) \<longleftrightarrow> IS_LEAP_YEAR y"
proof -
  have four: "4 dvd 1980 + y \<longleftrightarrow> y mod 4 = 0" by presburger
  consider "y < 20" | "y = 20" | "20 < y" "y < 120" | "y = 120" | "120 < y" by linarith
  then show ?thesis
  proof cases
    case 1
    then show ?thesis using assms dvd_range [of 100 19 "1980 + y"] dvd_range [of 400 4 "1980 + y"] four
      by (simp add: leap_def IS_LEAP_YEAR_def and_3 YEAR_2100_def)
  next
    case 3
    then show ?thesis using dvd_range [of 100 20 "1980 + y"] dvd_range [of 400 5 "1980 + y"] four
      by (simp add: leap_def IS_LEAP_YEAR_def and_3 YEAR_2100_def)
  next
    case 5
    then show ?thesis using assms dvd_range [of 100 21 "1980 + y"] dvd_range [of 400 5 "1980 + y"] four
      by (simp add: leap_def IS_LEAP_YEAR_def and_3 YEAR_2100_def)
  qed (simp_all add: leap_def IS_LEAP_YEAR_def and_3 YEAR_2100_def)
qed

lemma leaps_1980:
  assumes "0 \<le> y" "y \<le> 127"
  shows "leaps (1979 + y) - leaps 1969 = 2 + (y + 3) div 4 - (if 120 < y then 1 else 0)"
proof -
  have four: "(1979 + y) div 4 = 494 + (y + 3) div 4" by simp
  have hund: "(1979 + y) div 100 = (if y < 21 then 19 else if y < 121 then 20 else 21)"
    using assms by (auto intro: div_pos_geq int_div_pos_eq)
  have fourh: "(1979 + y) div 400 = (if y < 21 then 4 else 5)"
    using assms by (auto intro: int_div_pos_eq)
  show ?thesis unfolding leaps_def four hund fourh by simp
qed

lemma months:
  assumes "0 \<le> (m :: int)" "m < 12"
  shows "m \<in> {0, 1, 2, 3, 4, 5, 6, 7, 8, 9, 10, 11}"
proof -
  obtain k where k: "m = int k" using assms(1) nonneg_int_cases by blast
  then have "k \<in> {0, 1, 2, 3, 4, 5, 6, 7, 8, 9, 10, 11}" using assms(2) by (simp add: numeral_eq_Suc less_Suc_eq)
  then show ?thesis unfolding k by (elim insertE emptyE) simp_all
qed

lemma month_offset:
  assumes "0 \<le> m" "m < 12"
  shows "sum_list (take (nat m) (month_lengths l)) = days_in_year ! nat (m + 1) + (if l \<and> 2 < m + 1 then 1 else 0)"
  using months [OF assms] by (elim insertE emptyE) (simp_all add: month_lengths_def days_in_year_def)

lemma month_length_le:
  assumes "0 \<le> m" "m < 12"
  shows "month_lengths l ! nat m \<le> 31"
  using months [OF assms] by (elim insertE emptyE) (simp_all add: month_lengths_def)

subsection \<open>Round trip\<close>

lemma fat_day:
  assumes "80 \<le> Y" "Y \<le> 207" "0 \<le> m" "m < 12"
  shows "civil_days (1900 + Y) m d = (Y - 80) * 365 + (((Y - 80) + 3) div 4 - (if YEAR_2100 < Y - 80 then 1 else 0) +
    (if IS_LEAP_YEAR (Y - 80) \<and> 2 < m + 1 then 1 else 0)) + days_in_year ! nat (m + 1) + (d - 1) + DAYS_DELTA"
proof -
  define y where "y = Y - 80"
  have y: "0 \<le> y" "y \<le> 127" "1900 + Y = 1980 + y" "1980 + y - 1 = 1979 + y" using assms by (simp_all add: y_def)
  show ?thesis
    unfolding civil_days_def y(3,4) month_offset [OF assms(3,4)] leap_1980 [OF y(1,2)] leaps_1980 [OF y(1,2)]
    by (simp add: sec_consts flip: y_def)
qed

lemma even_offset: "even (fat_tz_offset fs)"
  by (simp add: fat_tz_offset_def SECS_PER_MIN_def)

lemma and_1: "(x :: int) AND 1 = x mod 2"
  by (simp add: and_one_eq)

lemma and_not_1: "(x :: int) AND NOT 1 = 2 * (x div 2)"
  by (subst and_int_rec) simp

lemma unix2fat_fat2unix:
  assumes tm: "broken_down (time64_to_tm (tv_sec ts) (- fat_tz_offset fs)) (tv_sec ts - fat_tz_offset fs)"
    and yr: "80 \<le> tm_year (time64_to_tm (tv_sec ts) (- fat_tz_offset fs))" "tm_year (time64_to_tm (tv_sec ts) (- fat_tz_offset fs)) \<le> 207"
    and ns: "0 \<le> tv_nsec ts" "tv_nsec ts < 1000000000"
  shows "case fat_time_unix2fat time64_to_tm fs ts of (time, date, time_cs) \<Rightarrow>
    fat_time_fat2unix fs time date time_cs = \<lparr>tv_sec = tv_sec ts, tv_nsec = tv_nsec ts div 10000000 * 10000000\<rparr> \<and>
    fat_time_fat2unix fs time date 0 = fat_truncate_mtime fs ts"
proof -
  define t where "t = time64_to_tm (tv_sec ts) (- fat_tz_offset fs)"
  define y m where "y = tm_year t - 80" and "m = tm_mon t + 1"
  have b: "broken_down t (tv_sec ts - fat_tz_offset fs)" "80 \<le> tm_year t" "tm_year t \<le> 207" using tm yr by (simp_all add: t_def)
  have md: "tm_mday t \<le> 31" using b(1) month_length_le [of "tm_mon t"] by (auto simp: broken_down_def intro: order_trans)
  define date :: u16 where "date = word_of_int (push_bit 9 y OR push_bit 5 m OR tm_mday t)"
  define time :: u16 where "time = word_of_int (push_bit 11 (tm_hour t) OR push_bit 5 (tm_min t) OR drop_bit 1 (tm_sec t))"
  define cs :: u8 where "cs = word_of_int ((tv_sec ts AND 1) * 100 + tv_nsec ts div 10000000)"
  have conv: "fat_time_unix2fat time64_to_tm fs ts = (time, date, cs)"
    using b(2,3) by (simp add: fat_time_unix2fat_def Let_def date_def time_def cs_def y_def m_def flip: t_def)
  have mk: "(0xf :: u16) = mask (9 - 5)" "(0x1f :: u16) = mask 5" "(0x3f :: u16) = mask (11 - 5)"
    by (simp_all add: mask_eq_exp_minus_1)
  have d: "uint (drop_bit 9 date) = y" "uint (drop_bit 5 date AND 0xf) = m" "uint (date AND 0x1f) = tm_mday t"
    unfolding mk using b md by (intro packed [OF _ _ _ _ _ _ _ _ date_def]; simp add: broken_down_def y_def m_def)+
  have f: "0 \<le> tm_sec t" "tm_sec t < 60" "0 \<le> tm_min t" "tm_min t < 60" "0 \<le> tm_hour t" "tm_hour t < 24"
      "0 \<le> tm_mon t" "tm_mon t < 12" "1 \<le> tm_mday t"
    and s: "tv_sec ts = civil_days (1900 + tm_year t) (tm_mon t) (tm_mday t) * 86400 + tm_hour t * 3600 + tm_min t * 60 + tm_sec t + fat_tz_offset fs"
    using b(1) by (simp_all add: broken_down_def)
  have half: "0 \<le> drop_bit 1 (tm_sec t)" "drop_bit 1 (tm_sec t) < 32" "2 * drop_bit 1 (tm_sec t) = tm_sec t - tm_sec t mod 2"
    using f(1,2) minus_mod_eq_mult_div [of "tm_sec t" 2] by (simp_all add: drop_bit_eq_div)
  have h: "uint (drop_bit 11 time) = tm_hour t" "uint (drop_bit 5 time AND 0x3f) = tm_min t" "uint (time AND 0x1f) = drop_bit 1 (tm_sec t)"
    unfolding mk using f half by (intro packed [OF _ _ _ _ _ _ _ _ time_def]; simp)+
  have "uint (push_bit 1 (time AND 0x1f)) = 2 * drop_bit 1 (tm_sec t)"
    unfolding unsigned_push_bit_eq h(3) using half(1,2) by (simp add: push_bit_eq_mult take_bit_int_eq_self)
  then have sec: "uint (push_bit 1 (time AND 0x1f)) = tm_sec t - tm_sec t mod 2" using half(3) by simp
  define lo where "lo = tv_sec ts - tm_sec t mod 2"
  define D where "D = civil_days (1900 + tm_year t) (tm_mon t) (tm_mday t)"
  have dy: "y * 365 + (if IS_LEAP_YEAR y \<and> 2 < m then (if YEAR_2100 < y then (y + 3) div 4 - 1 else (y + 3) div 4) + 1
      else (if YEAR_2100 < y then (y + 3) div 4 - 1 else (y + 3) div 4)) + days_in_year ! nat m + (tm_mday t - 1) + DAYS_DELTA = D"
    using fat_day [OF b(2,3) f(7,8), of "tm_mday t"] by (simp add: D_def flip: y_def m_def)
  have mx: "max 1 m = m" "max 1 (tm_mday t) = tm_mday t" using f(7,9) by (simp_all add: m_def)
  have secs: "fat_time_fat2unix fs time date x = (if x \<noteq> 0 then \<lparr>tv_sec = lo + uint x div 100, tv_nsec = uint x mod 100 * 10000000\<rparr>
      else \<lparr>tv_sec = lo, tv_nsec = 0\<rparr>)" for x
    unfolding fat_time_fat2unix_def Let_def d h(1,2) sec mx dy unfolding lo_def s D_def [symmetric] sec_consts by simp
  have par: "tv_sec ts mod 2 = tm_sec t mod 2"
    using even_offset [of fs] unfolding s by (auto elim!: evenE) presburger
  have k: "0 \<le> (tv_sec ts AND 1) * 100 + tv_nsec ts div 10000000" "(tv_sec ts AND 1) * 100 + tv_nsec ts div 10000000 < 200"
    using ns by (simp_all add: and_1)
  have c: "uint cs = (tv_sec ts AND 1) * 100 + tv_nsec ts div 10000000"
    unfolding cs_def using uint_small [OF k(1), of 200] k(2) by simp
  have lo: "lo = tv_sec ts AND NOT 1"
    using par and_not_1 [of "tv_sec ts"] minus_mod_eq_mult_div [of "tv_sec ts" 2] by (simp add: lo_def)
  define r q where "r = tm_sec t mod 2" and "q = tv_nsec ts div 10000000"
  have rq: "0 \<le> r" "r \<le> 1" "0 \<le> q" "q < 100" "uint cs = r * 100 + q" "lo = tv_sec ts - r"
    using ns c par by (simp_all add: r_def q_def and_1 lo_def)
  have dm: "uint cs div 100 = r" "uint cs mod 100 = q" unfolding rq(5) using rq(3,4) by simp_all
  have z: "r = 0 \<and> q = 0" if "cs = 0" using dm that by simp
  have "fat_time_fat2unix fs time date cs = \<lparr>tv_sec = tv_sec ts, tv_nsec = q * 10000000\<rparr>"
    unfolding secs dm rq(6) using z by auto
  moreover have "fat_time_fat2unix fs time date 0 = fat_truncate_mtime fs ts"
    unfolding secs using lo by (simp add: fat_truncate_mtime_def fat_timespec64_trunc_2secs_def)
  ultimately show ?thesis unfolding conv by (simp add: q_def)
qed

text \<open>
  C29 (time stamps survive the disk).  Let \<^verbatim>\<open>time64_to_tm\<close> break a local time between 1980 and 2107 down into its date and time of day in the Gregorian calendar.  Packing
  the time with \<^verbatim>\<open>fat_time_unix2fat\<close> and reading it back with \<^verbatim>\<open>fat_time_fat2unix\<close> gives the same second and the nanoseconds rounded down to ten
  milliseconds, in every time zone; without the hundredths byte it gives the time truncated to two seconds, which is \<^verbatim>\<open>fat_truncate_mtime\<close>.
\<close>

theorem fat_time_roundtrip:
  assumes tm: "broken_down (time64_to_tm (tv_sec ts) (- fat_tz_offset fs)) (tv_sec ts - fat_tz_offset fs)"
    and yr: "80 \<le> tm_year (time64_to_tm (tv_sec ts) (- fat_tz_offset fs))" "tm_year (time64_to_tm (tv_sec ts) (- fat_tz_offset fs)) \<le> 207"
    and ns: "0 \<le> tv_nsec ts" "tv_nsec ts < 1000000000"
  shows "case fat_time_unix2fat time64_to_tm fs ts of (time, date, time_cs) \<Rightarrow>
    fat_time_fat2unix fs time date time_cs = \<lparr>tv_sec = tv_sec ts, tv_nsec = tv_nsec ts div 10000000 * 10000000\<rparr> \<and>
    fat_time_fat2unix fs time date 0 = fat_truncate_mtime fs ts"
  using assms by (rule unix2fat_fat2unix)

text \<open>28 February 2024, 23:59:59.29, one hour east of Greenwich; the day before a leap day.\<close>

definition ex_tm :: "int \<Rightarrow> int \<Rightarrow> tm" where
  "ex_tm s off = \<lparr>tm_sec = 59, tm_min = 59, tm_hour = 23, tm_mday = 28, tm_mon = 1, tm_year = 124\<rparr>"

definition ex_cet :: fat_fs where
  "ex_cet = ex_fat12\<lparr>options := ex_options\<lparr>tz_set := True, time_offset := 60\<rparr>\<rparr>"

theorem fat_time_roundtrip_witness:
  "case fat_time_unix2fat ex_tm ex_cet \<lparr>tv_sec = 1709161199, tv_nsec = 290000000\<rparr> of (time, date, time_cs) \<Rightarrow>
    fat_time_fat2unix ex_cet time date time_cs = \<lparr>tv_sec = 1709161199, tv_nsec = 290000000\<rparr> \<and>
    fat_time_fat2unix ex_cet time date 0 = \<lparr>tv_sec = 1709161198, tv_nsec = 0\<rparr>"
  using fat_time_roundtrip [of ex_tm "\<lparr>tv_sec = 1709161199, tv_nsec = 290000000\<rparr>" ex_cet]
  by (simp add: ex_tm_def broken_down_def civil_days_def leaps_def leap_def month_lengths_def fat_tz_offset_def ex_cet_def SECS_PER_MIN_def
      fat_truncate_mtime_def fat_timespec64_trunc_2secs_def)

end
