(* ===== verification/Fat_Inode.thy ===== *)
theory Fat_Inode
  imports Fat_Time
begin

text \<open>
  The in-memory inode and its directory entry: attributes and modes (\<^verbatim>\<open>fat/fat.h\<close>), the truncation of time stamps (\<^verbatim>\<open>fat/misc.c\<close>), writing an inode into
  its 32-byte directory entry and filling an inode of a file from one (\<^verbatim>\<open>__fat_write_inode\<close> and the branch of \<^verbatim>\<open>fat_fill_inode\<close> for files in
  \<^verbatim>\<open>fat/inode.c\<close>).  The entry is bytes of the buffer cache at the offsets of the disk format.
\<close>

subsection \<open>Inodes\<close>

record fat_cache =
  nr_contig :: int
  fcluster :: int
  dcluster :: int

record msdos_inode =
  cache_lru :: "fat_cache list"
  nr_caches :: int
  cache_valid_id :: u32
  mmu_private :: nat
  i_start :: int
  i_logstart :: int
  i_attrs :: u8
  i_pos :: nat
  i_crtime :: timespec64
  i_root :: bool
  i_mode :: u16
  i_size :: nat
  i_blocks :: nat
  i_atime :: timespec64
  i_mtime :: timespec64
  i_ctime :: timespec64
  i_sync :: bool
  i_dirsync :: bool
  i_immutable :: bool
  i_dirty :: bool

definition ATTR_RO :: u8 where "ATTR_RO = 1"
definition ATTR_HIDDEN :: u8 where "ATTR_HIDDEN = 2"
definition ATTR_SYS :: u8 where "ATTR_SYS = 4"
definition ATTR_VOLUME :: u8 where "ATTR_VOLUME = 8"
definition ATTR_DIR :: u8 where "ATTR_DIR = 16"
definition ATTR_ARCH :: u8 where "ATTR_ARCH = 32"
definition ATTR_UNUSED :: u8 where "ATTR_UNUSED = ATTR_VOLUME OR ATTR_ARCH OR ATTR_SYS OR ATTR_HIDDEN"

lemmas attr_defs = ATTR_RO_def ATTR_HIDDEN_def ATTR_SYS_def ATTR_VOLUME_def ATTR_DIR_def ATTR_ARCH_def ATTR_UNUSED_def

definition S_IFDIR :: u16 where "S_IFDIR = 0x4000"
definition S_IFREG :: u16 where "S_IFREG = 0x8000"
definition S_IFMT :: u16 where "S_IFMT = 0xf000"
definition S_IRWXUGO :: u16 where "S_IRWXUGO = 0x1ff"
definition S_IRUGO :: u16 where "S_IRUGO = 0x124"
definition S_IWUGO :: u16 where "S_IWUGO = 0x92"
definition S_IXUGO :: u16 where "S_IXUGO = 0x49"

definition S_ISDIR :: "u16 \<Rightarrow> bool" where "S_ISDIR m \<longleftrightarrow> m AND S_IFMT = S_IFDIR"
definition S_ISREG :: "u16 \<Rightarrow> bool" where "S_ISREG m \<longleftrightarrow> m AND S_IFMT = S_IFREG"

lemmas mode_defs = S_IFDIR_def S_IFREG_def S_IFMT_def S_IRWXUGO_def S_IRUGO_def S_IWUGO_def S_IXUGO_def

definition inode_needs_sync :: "msdos_inode \<Rightarrow> bool" where
  "inode_needs_sync ino \<longleftrightarrow> i_sync ino \<or> S_ISDIR (i_mode ino) \<and> i_dirsync ino"

definition mark_inode_dirty :: "msdos_inode \<Rightarrow> msdos_inode" where
  "mark_inode_dirty ino = ino\<lparr>i_dirty := True\<rparr>"

subsection \<open>Attributes and modes\<close>

definition fat_mode_can_hold_ro :: "fat_fs \<Rightarrow> msdos_inode \<Rightarrow> bool" where
  "fat_mode_can_hold_ro fs ino \<longleftrightarrow>
     (if S_ISDIR (i_mode ino)
      then rodir (options fs) \<and> NOT (fs_dmask (options fs)) AND S_IWUGO \<noteq> 0
      else NOT (fs_fmask (options fs)) AND S_IWUGO \<noteq> 0)"

definition fat_make_mode :: "fat_fs \<Rightarrow> u8 \<Rightarrow> u16 \<Rightarrow> u16" where
  "fat_make_mode fs attrs mode =
     (let mode = (if attrs AND ATTR_RO \<noteq> 0 \<and> \<not> (attrs AND ATTR_DIR \<noteq> 0 \<and> \<not> rodir (options fs)) then mode AND NOT S_IWUGO else mode)
      in if attrs AND ATTR_DIR \<noteq> 0 then (mode AND NOT (fs_dmask (options fs))) OR S_IFDIR
         else (mode AND NOT (fs_fmask (options fs))) OR S_IFREG)"

definition fat_make_attrs :: "fat_fs \<Rightarrow> msdos_inode \<Rightarrow> u8" where
  "fat_make_attrs fs ino =
     (let attrs = i_attrs ino;
          attrs = (if S_ISDIR (i_mode ino) then attrs OR ATTR_DIR else attrs)
      in if fat_mode_can_hold_ro fs ino \<and> i_mode ino AND S_IWUGO = 0 then attrs OR ATTR_RO else attrs)"

definition fat_save_attrs :: "fat_fs \<Rightarrow> msdos_inode \<Rightarrow> u8 \<Rightarrow> msdos_inode" where
  "fat_save_attrs fs ino attrs =
     (if fat_mode_can_hold_ro fs ino then ino\<lparr>i_attrs := attrs AND ATTR_UNUSED\<rparr>
      else ino\<lparr>i_attrs := attrs AND (ATTR_UNUSED OR ATTR_RO)\<rparr>)"

subsection \<open>Times\<close>

definition S_ATIME :: nat where "S_ATIME = 1"
definition S_MTIME :: nat where "S_MTIME = 2"
definition S_CTIME :: nat where "S_CTIME = 4"

text \<open>\<open>now\<close> is the time passed in or, for a null pointer, what \<^verbatim>\<open>current_time\<close> gives.\<close>

definition fat_truncate_time :: "fat_fs \<Rightarrow> timespec64 \<Rightarrow> nat \<Rightarrow> msdos_inode \<Rightarrow> msdos_inode" where
  "fat_truncate_time fs now flags ino =
     (if i_root ino then ino
      else (let ino = (if flags AND S_ATIME \<noteq> 0 then ino\<lparr>i_atime := fat_truncate_atime fs now\<rparr> else ino)
            in if flags AND S_MTIME \<noteq> 0
               then ino\<lparr>i_mtime := fat_truncate_mtime fs now, i_ctime := fat_truncate_mtime fs now\<rparr> else ino))"

subsection \<open>Directory entries\<close>

definition fat_get_blknr_offset :: "fat_fs \<Rightarrow> nat \<Rightarrow> nat \<times> nat" where
  "fat_get_blknr_offset fs pos = (drop_bit (dir_per_block_bits fs) pos, pos AND (2 ^ dir_per_block_bits fs - 1))"

definition le16_entry :: "nat \<Rightarrow> mem \<Rightarrow> u16" where
  "le16_entry p m = ucast (m p) OR push_bit 8 (ucast (m (p + 1)))"

definition put_le16_entry :: "nat \<Rightarrow> u16 \<Rightarrow> mem \<Rightarrow> mem" where
  "put_le16_entry p v m = m(p := ucast v, p + 1 := ucast (drop_bit 8 v))"

definition fat_get_start :: "fat_fs \<Rightarrow> nat \<Rightarrow> mem \<Rightarrow> int" where
  "fat_get_start fs de m =
     (let cluster = uint (le16_entry (de + 26) m)
      in if is_fat32 fs then signed_take_bit 31 (cluster OR push_bit 16 (uint (le16_entry (de + 20) m))) else cluster)"

definition fat_set_start :: "nat \<Rightarrow> int \<Rightarrow> mem \<Rightarrow> mem" where
  "fat_set_start de cluster m = put_le16_entry (de + 20) (word_of_int (drop_bit 16 cluster)) (put_le16_entry (de + 26) (word_of_int cluster) m)"

text \<open>The assignments of \<^verbatim>\<open>__fat_write_inode\<close> to the raw entry at address \<open>de\<close>.\<close>

definition raw_entry :: "(int \<Rightarrow> int \<Rightarrow> tm) \<Rightarrow> fat_fs \<Rightarrow> msdos_inode \<Rightarrow> nat \<Rightarrow> mem \<Rightarrow> mem" where
  "raw_entry time64_to_tm fs ino de m =
     (let m = put_le32_at (de + 28) (if S_ISDIR (i_mode ino) then 0 else of_nat (i_size ino)) m;
          m = m(de + 11 := fat_make_attrs fs ino);
          m = fat_set_start de (i_logstart ino) m;
          (time, date, _) = fat_time_unix2fat time64_to_tm fs (i_mtime ino);
          m = put_le16_entry (de + 24) date (put_le16_entry (de + 22) time m)
      in if isvfat (options fs)
         then (let (_, adate, _) = fat_time_unix2fat time64_to_tm fs (i_atime ino);
                   m = put_le16_entry (de + 18) adate m;
                   (ctime, cdate, ctime_cs) = fat_time_unix2fat time64_to_tm fs (i_crtime ino)
               in (put_le16_entry (de + 16) cdate (put_le16_entry (de + 14) ctime m))(de + 13 := ctime_cs))
         else m)"

text \<open>
  The position is read, the block fetched and the position checked again under the lock, with a retry when it moved meanwhile; here the inode
  does not change during the call.
\<close>

definition raw_write_inode :: "(int \<Rightarrow> int \<Rightarrow> tm) \<Rightarrow> msdos_inode \<Rightarrow> bool \<Rightarrow> (fat_fs, errno + unit) state" where
  "raw_write_inode time64_to_tm ino wait = do {
     fs \<leftarrow> State_Monad.get;
     if i_root ino then ret (Inr ())
     else if i_pos ino = 0 then ret (Inr ())
     else (let (blocknr, offset) = fat_get_blknr_offset fs (i_pos ino)
           in do {
             bh \<leftarrow> sb_bread blocknr;
             case bh of
               Inl _ \<Rightarrow> ret (Inl EIO)
             | Inr _ \<Rightarrow> do {
                 _ \<leftarrow> upd_fs (\<lambda>fs. fs\<lparr>fdev := raw_entry time64_to_tm fs ino (b_data fs blocknr + 32 * offset) (fdev fs)\<rparr>);
                 if wait then fallible EIO else ret (Inr ())
               }
           })
   }"

text \<open>The information sector of FAT32: two signatures, the number of free clusters and the cluster allocated last.\<close>

definition IS_FSINFO :: "nat \<Rightarrow> mem \<Rightarrow> bool" where
  "IS_FSINFO p m \<longleftrightarrow> le32_at p m = 0x41615252 \<and> le32_at (p + 484) m = 0x61417272"

definition fat_clusters_flush :: "(fat_fs, errno + unit) state" where
  "fat_clusters_flush = do {
     fs \<leftarrow> State_Monad.get;
     if \<not> is_fat32 fs then ret (Inr ())
     else do {
       bh \<leftarrow> sb_bread (fsinfo_sector fs);
       case bh of
         Inl _ \<Rightarrow> ret (Inl EIO)
       | Inr _ \<Rightarrow> do {
           _ \<leftarrow> upd_fs (\<lambda>fs.
             let fsinfo = b_data fs (fsinfo_sector fs); m = fdev fs
             in if \<not> IS_FSINFO fsinfo m then fs
                else (let m = (if free_clusters fs \<noteq> - 1 then put_le32_at (fsinfo + 488) (free_clusters fs) m else m);
                          m = (if prev_free fs \<noteq> - 1 then put_le32_at (fsinfo + 492) (prev_free fs) m else m)
                      in fs\<lparr>fdev := m\<rparr>));
           ret (Inr ())
         }
     }
   }"

text \<open>\<open>is_fsinfo\<close> tells the pseudo inode of the information sector, \<open>sync_all\<close> the kind of write-back.\<close>

definition fat_write_inode :: "(int \<Rightarrow> int \<Rightarrow> tm) \<Rightarrow> bool \<Rightarrow> msdos_inode \<Rightarrow> bool \<Rightarrow> (fat_fs, errno + unit) state" where
  "fat_write_inode time64_to_tm is_fsinfo ino sync_all =
     (if is_fsinfo then fat_clusters_flush else raw_write_inode time64_to_tm ino sync_all)"

definition fat_sync_inode :: "(int \<Rightarrow> int \<Rightarrow> tm) \<Rightarrow> msdos_inode \<Rightarrow> (fat_fs, errno + unit) state" where
  "fat_sync_inode time64_to_tm ino = raw_write_inode time64_to_tm ino True"

definition exe_extensions :: "u8 list list" where
  "exe_extensions = [[0x45, 0x58, 0x45], [0x43, 0x4f, 0x4d], [0x42, 0x41, 0x54]]"

definition is_exec :: "nat \<Rightarrow> mem \<Rightarrow> bool" where
  "is_exec p m \<longleftrightarrow> [m p, m (p + 1), m (p + 2)] \<in> set exe_extensions"

definition fill_file_inode :: "fat_fs \<Rightarrow> nat \<Rightarrow> msdos_inode \<Rightarrow> msdos_inode" where
  "fill_file_inode fs de ino =
     (let m = fdev fs;
          attr = m (de + 11);
          ino = ino\<lparr>i_pos := 0\<rparr>;
          ino = ino\<lparr>i_mode := fat_make_mode fs attr (if showexec (options fs) \<and> \<not> is_exec (de + 8) m then S_IRUGO OR S_IWUGO else S_IRWXUGO),
                    i_start := fat_get_start fs de m, i_logstart := fat_get_start fs de m,
                    i_size := unat (le32_at (de + 28) m), mmu_private := unat (le32_at (de + 28) m)\<rparr>;
          ino = (if attr AND ATTR_SYS \<noteq> 0 \<and> sys_immutable (options fs) then ino\<lparr>i_immutable := True\<rparr> else ino);
          ino = fat_save_attrs fs ino attr;
          ino = ino\<lparr>i_blocks := drop_bit 9 ((i_size ino + (2 ^ cluster_bits fs - 1)) div 2 ^ cluster_bits fs * 2 ^ cluster_bits fs)\<rparr>;
          mtime = fat_time_fat2unix fs (le16_entry (de + 22) m) (le16_entry (de + 24) m) 0;
          ino = ino\<lparr>i_mtime := mtime, i_ctime := mtime\<rparr>
      in if isvfat (options fs)
         then ino\<lparr>i_atime := fat_time_fat2unix fs 0 (le16_entry (de + 18) m) 0,
                  i_crtime := fat_time_fat2unix fs (le16_entry (de + 14) m) (le16_entry (de + 16) m) (m (de + 13))\<rparr>
         else ino\<lparr>i_atime := fat_truncate_atime fs mtime\<rparr>)"

subsection \<open>What is written is what is read\<close>

lemma le16_put_same [simp]: "le16_entry p (put_le16_entry p v m) = v"
  by (rule bit_word_eqI) (auto simp: le16_entry_def put_le16_entry_def bit_simps)

lemma start_halves:
  assumes "0 \<le> c" "c < 2 ^ 32"
  shows "uint (word_of_int c :: u16) OR push_bit 16 (uint (word_of_int (drop_bit 16 c) :: u16)) = c"
proof (rule bit_eqI)
  fix n
  have "\<not> bit c n" if "32 \<le> n" using small_bit [OF assms] that by simp
  then show "bit (uint (word_of_int c :: u16) OR push_bit 16 (uint (word_of_int (drop_bit 16 c) :: u16))) n = bit c n"
    by (cases "n < 16"; cases "n < 32") (auto simp: bit_simps bit_uint_iff)
qed

lemma raw_entry_fields:
  assumes m'_def: "m' = raw_entry time64_to_tm fs ino de m"
  shows "m' (de + 11) = fat_make_attrs fs ino" and "le32_at (de + 28) m' = (if S_ISDIR (i_mode ino) then 0 else of_nat (i_size ino))"
    and "le16_entry (de + 26) m' = word_of_int (i_logstart ino)" and "le16_entry (de + 20) m' = word_of_int (drop_bit 16 (i_logstart ino))"
    and "(le16_entry (de + 22) m', le16_entry (de + 24) m') = (case fat_time_unix2fat time64_to_tm fs (i_mtime ino) of (t, d, _) \<Rightarrow> (t, d))"
proof -
  obtain t d cs where mt: "fat_time_unix2fat time64_to_tm fs (i_mtime ino) = (t, d, cs)" by (metis surj_pair)
  obtain at ad acs where at: "fat_time_unix2fat time64_to_tm fs (i_atime ino) = (at, ad, acs)" by (metis surj_pair)
  obtain ct cd ccs where ct: "fat_time_unix2fat time64_to_tm fs (i_crtime ino) = (ct, cd, ccs)" by (metis surj_pair)
  define z :: u32 where "z = (if S_ISDIR (i_mode ino) then 0 else of_nat (i_size ino))"
  define s l where "s = (word_of_int (i_logstart ino) :: u16)" and "l = (word_of_int (drop_bit 16 (i_logstart ino)) :: u16)"
  note defs = raw_entry_def Let_def mt at ct z_def [symmetric] fat_set_start_def s_def [symmetric] l_def [symmetric] put_le16_entry_def put_le32_at_def
  have bytes: "m' (de + 11) = fat_make_attrs fs ino"
    "m' (de + 28) = ucast z" "m' (de + 29) = ucast (drop_bit 8 z)" "m' (de + 30) = ucast (drop_bit 16 z)" "m' (de + 31) = ucast (drop_bit 24 z)"
    "m' (de + 26) = ucast s" "m' (de + 27) = ucast (drop_bit 8 s)" "m' (de + 20) = ucast l" "m' (de + 21) = ucast (drop_bit 8 l)"
    "m' (de + 22) = ucast t" "m' (de + 23) = ucast (drop_bit 8 t)" "m' (de + 24) = ucast d" "m' (de + 25) = ucast (drop_bit 8 d)"
    unfolding m'_def by (simp_all add: defs)
  have two: "le16_entry p m' = v" if "m' p = ucast v" "m' (p + 1) = ucast (drop_bit 8 v)" for p v
    using le16_put_same [of p v m'] that by (simp add: le16_entry_def put_le16_entry_def)
  have four: "le32_at p m' = v" if "m' p = ucast v" "m' (p + 1) = ucast (drop_bit 8 v)" "m' (p + 2) = ucast (drop_bit 16 v)"
      "m' (p + 3) = ucast (drop_bit 24 v)" for p v
    using le32_put [of p v m'] that by (simp add: le32_at_def put_le32_at_def)
  show "m' (de + 11) = fat_make_attrs fs ino" by (rule bytes)
  show "le32_at (de + 28) m' = (if S_ISDIR (i_mode ino) then 0 else of_nat (i_size ino))"
    using four [of "de + 28" z] bytes(2-5) by (simp add: z_def add.commute)
  show "le16_entry (de + 26) m' = word_of_int (i_logstart ino)" using two [of "de + 26" s] bytes(6,7) by (simp add: s_def add.commute)
  show "le16_entry (de + 20) m' = word_of_int (drop_bit 16 (i_logstart ino))" using two [of "de + 20" l] bytes(8,9) by (simp add: l_def add.commute)
  show "(le16_entry (de + 22) m', le16_entry (de + 24) m') = (case fat_time_unix2fat time64_to_tm fs (i_mtime ino) of (t, d, _) \<Rightarrow> (t, d))"
    using two [of "de + 22" t] two [of "de + 24" d] bytes(10-13) by (simp add: mt add.commute)
qed

lemma attrs_kept:
  assumes "(x :: u8) AND NOT M = 0"
  shows "x AND M = x"
proof (rule bit_word_eqI)
  fix n assume "n < LENGTH(8)"
  then have "\<not> bit (x AND NOT M) n" using assms by simp
  then show "bit (x AND M) n = bit x n" using \<open>n < LENGTH(8)\<close> by (auto simp: bit_simps)
qed

lemma attr_ro_and: "(x OR ATTR_RO) AND ATTR_UNUSED = x AND ATTR_UNUSED"
  by (rule bit_word_eqI) (auto simp: attr_defs bit_simps)

lemma not_dir_attr:
  assumes "(x :: u8) AND NOT (ATTR_UNUSED OR ATTR_RO) = 0"
  shows "x AND ATTR_DIR = 0" "(x OR ATTR_RO) AND ATTR_DIR = 0"
proof -
  have "x AND ATTR_DIR = (x AND (ATTR_UNUSED OR ATTR_RO)) AND ATTR_DIR" using attrs_kept [OF assms] by simp
  also have "\<dots> = 0" by (simp add: and.assoc attr_defs)
  finally show "x AND ATTR_DIR = 0" .
  then show "(x OR ATTR_RO) AND ATTR_DIR = 0" by (simp add: bit.conj_disj_distrib2 attr_defs)
qed

lemma reg_mode:
  assumes "p AND S_IFMT = 0"
  shows "\<not> S_ISDIR ((p AND q) OR S_IFREG)" and "((p AND q) OR S_IFREG) AND S_IWUGO = p AND q AND S_IWUGO"
proof -
  have "((p AND q) OR S_IFREG) AND S_IFMT = (q AND (p AND S_IFMT)) OR (S_IFREG AND S_IFMT)"
    by (simp add: bit.conj_disj_distrib bit.conj_disj_distrib2 ac_simps)
  also have "\<dots> = S_IFREG" using assms by (simp add: mode_defs)
  finally show "\<not> S_ISDIR ((p AND q) OR S_IFREG)" by (simp add: S_ISDIR_def mode_defs)
  show "((p AND q) OR S_IFREG) AND S_IWUGO = p AND q AND S_IWUGO"
    by (simp add: bit.conj_disj_distrib2 mode_defs and.assoc)
qed

definition holdable :: "fat_fs \<Rightarrow> bool" where
  "holdable fs \<longleftrightarrow> NOT (fs_fmask (options fs)) AND S_IWUGO \<noteq> 0"

lemma can_hold_file: "\<not> S_ISDIR (i_mode ino) \<Longrightarrow> fat_mode_can_hold_ro fs ino = holdable fs"
  by (simp add: fat_mode_can_hold_ro_def holdable_def)

lemma make_mode_file:
  assumes a: "a AND ATTR_DIR = 0" and p: "p AND S_IFMT = 0" "p AND S_IWUGO = S_IWUGO"
  shows "\<not> S_ISDIR (fat_make_mode fs a p)"
    and "holdable fs \<Longrightarrow> fat_make_mode fs a p AND S_IWUGO = 0 \<longleftrightarrow> a AND ATTR_RO \<noteq> 0"
proof -
  define q where "q = (if a AND ATTR_RO \<noteq> 0 then p AND NOT S_IWUGO else p)"
  have mm: "fat_make_mode fs a p = (q AND NOT (fs_fmask (options fs))) OR S_IFREG"
    using a by (simp add: fat_make_mode_def q_def)
  have "p AND NOT S_IWUGO AND S_IFMT = (p AND S_IFMT) AND NOT S_IWUGO" by (simp only: and.assoc and.commute and.left_commute)
  then have q: "q AND S_IFMT = 0" using p(1) by (simp add: q_def and.assoc)
  show "\<not> S_ISDIR (fat_make_mode fs a p)" unfolding mm by (rule reg_mode(1) [OF q])
  have w: "fat_make_mode fs a p AND S_IWUGO = NOT (fs_fmask (options fs)) AND (q AND S_IWUGO)"
    unfolding mm reg_mode(2) [OF q] by (simp add: ac_simps)
  have "q AND S_IWUGO = (if a AND ATTR_RO \<noteq> 0 then 0 else S_IWUGO)"
    using p(2) by (simp add: q_def and.assoc)
  then show "fat_make_mode fs a p AND S_IWUGO = 0 \<longleftrightarrow> a AND ATTR_RO \<noteq> 0" if "holdable fs"
    using that w by (simp add: holdable_def)
qed

lemma fill_file_fields:
  fixes fs :: fat_fs
  assumes "f = fill_file_inode fs de ino0"
  shows "i_start f = fat_get_start fs de (fdev fs)" "i_size f = unat (le32_at (de + 28) (fdev fs))"
    "i_mode f = fat_make_mode fs (fdev fs (de + 11)) (if showexec (options fs) \<and> \<not> is_exec (de + 8) (fdev fs) then S_IRUGO OR S_IWUGO else S_IRWXUGO)"
    "i_mtime f = fat_time_fat2unix fs (le16_entry (de + 22) (fdev fs)) (le16_entry (de + 24) (fdev fs)) 0"
    "\<not> S_ISDIR (i_mode f) \<Longrightarrow> i_attrs f = fdev fs (de + 11) AND (if holdable fs then ATTR_UNUSED else ATTR_UNUSED OR ATTR_RO)"
proof -
  let ?mode = "fat_make_mode fs (fdev fs (de + 11)) (if showexec (options fs) \<and> \<not> is_exec (de + 8) (fdev fs) then S_IRUGO OR S_IWUGO else S_IRWXUGO)"
  show "i_start f = fat_get_start fs de (fdev fs)" "i_size f = unat (le32_at (de + 28) (fdev fs))"
    "i_mtime f = fat_time_fat2unix fs (le16_entry (de + 22) (fdev fs)) (le16_entry (de + 24) (fdev fs)) 0"
    by (simp_all add: assms fill_file_inode_def Let_def fat_save_attrs_def)
  show m: "i_mode f = ?mode" by (simp add: assms fill_file_inode_def Let_def fat_save_attrs_def)
  show "i_attrs f = fdev fs (de + 11) AND (if holdable fs then ATTR_UNUSED else ATTR_UNUSED OR ATTR_RO)" if "\<not> S_ISDIR (i_mode f)"
    using that [unfolded m] by (simp add: assms fill_file_inode_def Let_def fat_save_attrs_def fat_mode_can_hold_ro_def holdable_def)
qed

text \<open>
  C28 (a file's inode survives the disk).  Take the inode of a regular file whose size fits 32 bits, whose first cluster is in the range of the variant and whose
  attribute bits are those kept in memory.  Writing it into its directory entry as \<^verbatim>\<open>__fat_write_inode\<close> does and filling an inode from that entry as
  \<^verbatim>\<open>fat_fill_inode\<close> does gives the first cluster, the size, the attributes and the modification time truncated to two seconds; where the mode can hold
  write protection, the file is write-protected afterwards exactly if it was.
\<close>

theorem inode_roundtrip:
  assumes reg: "S_ISREG (i_mode ino)" and sz: "i_size ino < 2 ^ 32"
    and st: "0 \<le> i_logstart ino" "i_logstart ino < (if is_fat32 fs then 2 ^ 31 else 2 ^ 16)"
    and at: "i_attrs ino AND NOT (if holdable fs then ATTR_UNUSED else ATTR_UNUSED OR ATTR_RO) = 0"
    and tm: "broken_down (time64_to_tm (tv_sec (i_mtime ino)) (- fat_tz_offset fs)) (tv_sec (i_mtime ino) - fat_tz_offset fs)"
      "80 \<le> tm_year (time64_to_tm (tv_sec (i_mtime ino)) (- fat_tz_offset fs))"
      "tm_year (time64_to_tm (tv_sec (i_mtime ino)) (- fat_tz_offset fs)) \<le> 207"
      "0 \<le> tv_nsec (i_mtime ino)" "tv_nsec (i_mtime ino) < 1000000000"
    and f: "f = fill_file_inode (fs\<lparr>fdev := raw_entry time64_to_tm fs ino de m\<rparr>) de ino0"
  shows "i_start f = i_logstart ino \<and> i_size f = i_size ino \<and> i_attrs f = i_attrs ino \<and> i_mtime f = fat_truncate_mtime fs (i_mtime ino) \<and>
    (holdable fs \<longrightarrow> (i_mode f AND S_IWUGO = 0 \<longleftrightarrow> i_mode ino AND S_IWUGO = 0))"
proof -
  define m' where "m' = raw_entry time64_to_tm fs ino de m"
  define fs' where "fs' = fs\<lparr>fdev := m'\<rparr>"
  have same: "options fs' = options fs" "holdable fs' = holdable fs" "is_fat32 fs' = is_fat32 fs" "fdev fs' = m'" "fat_make_mode fs' = fat_make_mode fs"
      "fat_time_fat2unix fs' = fat_time_fat2unix fs"
    by (simp_all add: fs'_def holdable_def is_fat32_def fat_make_mode_def fat_time_fat2unix_def fat_tz_offset_def fun_eq_iff)
  note rf = raw_entry_fields [OF m'_def]
  have fl: "f = fill_file_inode fs' de ino0" using f by (simp add: fs'_def m'_def)
  note ff = fill_file_fields [OF fl, unfolded same]
  have nd: "\<not> S_ISDIR (i_mode ino)" using reg by (simp add: S_ISREG_def S_ISDIR_def mode_defs)
  define ro where "ro = (holdable fs \<and> i_mode ino AND S_IWUGO = 0)"
  have attr: "m' (de + 11) = (if ro then i_attrs ino OR ATTR_RO else i_attrs ino)"
    using rf(1) nd by (simp add: fat_make_attrs_def can_hold_file ro_def Let_def)
  have "i_attrs ino AND NOT (ATTR_UNUSED OR ATTR_RO) = 0"
  proof (cases "holdable fs")
    case True
    then have "i_attrs ino AND NOT ATTR_UNUSED = 0" using at by simp
    then show ?thesis by (simp add: and.assoc [symmetric] bit.de_Morgan_disj)
  qed (use at in simp)
  then have dir: "m' (de + 11) AND ATTR_DIR = 0" using not_dir_attr by (simp add: attr)
  define p where "p = (if showexec (options fs) \<and> \<not> is_exec (de + 8) m' then S_IRUGO OR S_IWUGO else S_IRWXUGO)"
  have p: "p AND S_IFMT = 0" "p AND S_IWUGO = S_IWUGO" by (simp_all add: p_def mode_defs)
  note mm = make_mode_file [OF dir p, of fs]
  have kept: "i_attrs ino AND (if holdable fs then ATTR_UNUSED else ATTR_UNUSED OR ATTR_RO) = i_attrs ino" by (rule attrs_kept [OF at])
  have "i_attrs f = i_attrs ino"
    using ff(5) mm(1) ff(3) kept by (auto simp: attr ro_def attr_ro_and simp flip: p_def split: if_splits)
  moreover have "i_start f = i_logstart ino"
  proof (cases "is_fat32 fs")
    case True
    then show ?thesis using ff(1) rf(3,4) st start_halves [of "i_logstart ino"] by (simp add: fat_get_start_def Let_def same signed_take_bit_int_eq_self)
  next
    case False
    then show ?thesis using ff(1) rf(3) st by (simp add: fat_get_start_def Let_def same unsigned_of_int take_bit_int_eq_self)
  qed
  moreover have "i_size f = i_size ino"
    using ff(2) rf(2) nd sz by (simp add: unsigned_of_nat take_bit_nat_eq_self_iff)
  moreover have "i_mtime f = fat_truncate_mtime fs (i_mtime ino)"
    using ff(4) rf(5) unix2fat_fat2unix [of time64_to_tm "i_mtime ino" fs] tm by (auto split: prod.splits)
  moreover have "i_mode f AND S_IWUGO = 0 \<longleftrightarrow> i_mode ino AND S_IWUGO = 0" if "holdable fs"
  proof -
    have "(i_attrs ino AND ATTR_UNUSED) AND ATTR_RO = 0" by (simp add: and.assoc attr_defs)
    then have "i_attrs ino AND ATTR_RO = 0" using kept that by simp
    then show ?thesis
      using mm(2) [OF that] ff(3) that by (auto simp: attr ro_def bit.conj_disj_distrib2 ATTR_RO_def simp flip: p_def)
  qed
  ultimately show ?thesis by blast
qed

definition ex_inode :: msdos_inode where
  "ex_inode = \<lparr>cache_lru = [], nr_caches = 0, cache_valid_id = 1, mmu_private = 5000, i_start = 7, i_logstart = 7, i_attrs = ATTR_ARCH, i_pos = 3,
     i_crtime = \<lparr>tv_sec = 0, tv_nsec = 0\<rparr>, i_root = False, i_mode = 0x8124, i_size = 5000, i_blocks = 16,
     i_atime = \<lparr>tv_sec = 0, tv_nsec = 0\<rparr>, i_mtime = \<lparr>tv_sec = 1709161199, tv_nsec = 290000000\<rparr>, i_ctime = \<lparr>tv_sec = 0, tv_nsec = 0\<rparr>,
     i_sync = False, i_dirsync = False, i_immutable = False, i_dirty = True\<rparr>"

theorem inode_roundtrip_witness:
  "let f = fill_file_inode (ex_cet\<lparr>fdev := raw_entry ex_tm ex_cet ex_inode 64 (\<lambda>_. 0)\<rparr>) 64 (ex_inode\<lparr>i_start := 0\<rparr>)
   in i_start f = 7 \<and> i_size f = 5000 \<and> i_attrs f = ATTR_ARCH \<and> i_mtime f = \<lparr>tv_sec = 1709161198, tv_nsec = 0\<rparr> \<and> i_mode f AND S_IWUGO = 0"
proof -
  have ex: "i_mode ex_inode = 0x8124" "i_size ex_inode = 5000" "i_logstart ex_inode = 7" "i_attrs ex_inode = ATTR_ARCH"
      "i_mtime ex_inode = \<lparr>tv_sec = 1709161199, tv_nsec = 290000000\<rparr>"
    by (simp_all add: ex_inode_def)
  have h: "holdable ex_cet" by (simp add: holdable_def ex_cet_def ex_options_def ex_fat12_def S_IWUGO_def)
  have "fat_truncate_mtime ex_cet (i_mtime ex_inode) = \<lparr>tv_sec = 1709161198, tv_nsec = 0\<rparr>"
    by (simp add: ex fat_truncate_mtime_def fat_timespec64_trunc_2secs_def)
  moreover have "broken_down (ex_tm (tv_sec (i_mtime ex_inode)) (- fat_tz_offset ex_cet)) (tv_sec (i_mtime ex_inode) - fat_tz_offset ex_cet)"
    by (simp add: ex ex_tm_def broken_down_def civil_days_def leaps_def leap_def month_lengths_def fat_tz_offset_def ex_cet_def SECS_PER_MIN_def)
  ultimately show ?thesis
    using inode_roundtrip [of ex_inode ex_cet ex_tm _ 64 "\<lambda>_. 0" "ex_inode\<lparr>i_start := 0\<rparr>", OF _ _ _ _ _ _ _ _ _ _ refl] h
    by (simp add: Let_def ex ex_tm_def S_ISREG_def mode_defs attr_defs split: if_splits)
qed

end
