(* ===== verification/Fat_Cache.thy ===== *)
theory Fat_Cache
  imports Fat_Alloc Fat_Inode "HOL-Library.Multiset"
begin

text \<open>
  The cluster cache of an inode and the mapping of file sectors to blocks, after \<^verbatim>\<open>fat/cache.c\<close>.  The list of cached runs is in the order of use, most
  recent first.  Where a function drops the lock of the list to allocate memory, what other threads do to the inode meanwhile is the argument
  \<open>others\<close>.  The value \<open>None\<close> stands for a failed \<^verbatim>\<open>BUG_ON\<close> or an access through the head of an empty list.
\<close>

subsection \<open>The list of cached runs\<close>

record fat_cache_id = fat_cache +
  cache_id :: u32

definition FAT_MAX_CACHE :: int where "FAT_MAX_CACHE = 8"
definition FAT_CACHE_VALID :: u32 where "FAT_CACHE_VALID = 0"

definition fat_max_cache :: "msdos_inode \<Rightarrow> int" where
  "fat_max_cache ino = FAT_MAX_CACHE"

definition fat_cache_update_lru :: "msdos_inode \<Rightarrow> fat_cache \<Rightarrow> msdos_inode" where
  "fat_cache_update_lru ino c = ino\<lparr>cache_lru := c # remove1 c (cache_lru ino)\<rparr>"

fun cache_search :: "int \<Rightarrow> fat_cache list \<Rightarrow> fat_cache option \<Rightarrow> int \<Rightarrow> fat_cache option \<times> int" where
  "cache_search fclus [] hit offset = (hit, offset)"
| "cache_search fclus (p # ps) hit offset =
     (if fcluster p \<le> fclus \<and> (case hit of None \<Rightarrow> 0 | Some h \<Rightarrow> fcluster h) < fcluster p
      then if fcluster p + nr_contig p < fclus then cache_search fclus ps (Some p) (nr_contig p)
           else (Some p, fclus - fcluster p)
      else cache_search fclus ps hit offset)"

definition fat_cache_lookup :: "msdos_inode \<Rightarrow> int \<Rightarrow> (int \<times> (fat_cache_id \<times> int \<times> int) option) \<times> msdos_inode" where
  "fat_cache_lookup ino fclus =
     (case cache_search fclus (cache_lru ino) None (- 1) of
        (None, offset) \<Rightarrow> ((offset, None), ino)
      | (Some hit, offset) \<Rightarrow>
          ((offset, Some (\<lparr>nr_contig = nr_contig hit, fcluster = fcluster hit, dcluster = dcluster hit, cache_id = cache_valid_id ino\<rparr>,
              fcluster hit + offset, dcluster hit + offset)),
           fat_cache_update_lru ino hit))"

text \<open>The run found, if any, and the list with that run extended; \<open>None\<close> when the two runs disagree.\<close>

fun fat_cache_merge :: "fat_cache list \<Rightarrow> fat_cache_id \<Rightarrow> (fat_cache option \<times> fat_cache list) option" where
  "fat_cache_merge [] new = Some (None, [])"
| "fat_cache_merge (p # ps) new =
     (if fcluster p = fcluster new
      then if dcluster p \<noteq> dcluster new then None
           else (let p = (if nr_contig p < nr_contig new then p\<lparr>nr_contig := nr_contig new\<rparr> else p) in Some (Some p, p # ps))
      else (case fat_cache_merge ps new of None \<Rightarrow> None | Some (c, ps) \<Rightarrow> Some (c, p # ps)))"

definition run_of :: "fat_cache_id \<Rightarrow> fat_cache" where
  "run_of new = \<lparr>nr_contig = nr_contig new, fcluster = fcluster new, dcluster = dcluster new\<rparr>"

definition fat_cache_add :: "(msdos_inode \<Rightarrow> msdos_inode) \<Rightarrow> msdos_inode \<Rightarrow> fat_cache_id \<Rightarrow> fat_fs \<Rightarrow> (msdos_inode \<times> fat_fs) option" where
  "fat_cache_add others ino new fs =
     (if fcluster new = - 1 then Some (ino, fs)
      else if cache_id new \<noteq> FAT_CACHE_VALID \<and> cache_id new \<noteq> cache_valid_id ino then Some (ino, fs)
      else (case fat_cache_merge (cache_lru ino) new of
              None \<Rightarrow> None
            | Some (Some cache, lru) \<Rightarrow> Some (fat_cache_update_lru (ino\<lparr>cache_lru := lru\<rparr>) cache, fs)
            | Some (None, _) \<Rightarrow>
                if nr_caches ino < fat_max_cache ino
                then (let ino = others (ino\<lparr>nr_caches := nr_caches ino + 1\<rparr>)
                      in (case run_state (fallible ENOMEM) fs of
                            (Inl _, fs) \<Rightarrow> Some (ino\<lparr>nr_caches := nr_caches ino - 1\<rparr>, fs)
                          | (Inr _, fs) \<Rightarrow>
                              (case fat_cache_merge (cache_lru ino) new of
                                 None \<Rightarrow> None
                               | Some (Some cache, lru) \<Rightarrow>
                                   Some (fat_cache_update_lru (ino\<lparr>cache_lru := lru, nr_caches := nr_caches ino - 1\<rparr>) cache, fs)
                               | Some (None, _) \<Rightarrow> Some (ino\<lparr>cache_lru := run_of new # cache_lru ino\<rparr>, fs))))
                else if cache_lru ino = [] then None
                else Some (ino\<lparr>cache_lru := run_of new # butlast (cache_lru ino)\<rparr>, fs)))"

definition fat_cache_inval_inode :: "msdos_inode \<Rightarrow> msdos_inode" where
  "fat_cache_inval_inode ino =
     (let v = cache_valid_id ino + 1
      in ino\<lparr>cache_lru := [], nr_caches := nr_caches ino - int (length (cache_lru ino)),
             cache_valid_id := (if v = FAT_CACHE_VALID then v + 1 else v)\<rparr>)"

definition cache_contiguous :: "fat_cache_id \<Rightarrow> int \<Rightarrow> bool \<times> fat_cache_id" where
  "cache_contiguous cid dclus =
     (let cid = cid\<lparr>nr_contig := nr_contig cid + 1\<rparr> in (dcluster cid + nr_contig cid = dclus, cid))"

definition cache_init :: "int \<Rightarrow> int \<Rightarrow> fat_cache_id" where
  "cache_init fclus dclus = \<lparr>nr_contig = 0, fcluster = fclus, dcluster = dclus, cache_id = FAT_CACHE_VALID\<rparr>"

subsection \<open>Following the chain\<close>

function get_cluster_loop :: "(msdos_inode \<Rightarrow> msdos_inode) \<Rightarrow> int \<Rightarrow> int \<Rightarrow> fat_entry \<Rightarrow> fat_cache_id \<Rightarrow> int \<Rightarrow> int \<Rightarrow> msdos_inode \<Rightarrow>
    fat_fs \<Rightarrow> (((errno + u32) \<times> int \<times> int) \<times> msdos_inode \<times> fat_fs) option" where
  "get_cluster_loop others cluster limit fe cid fclus dclus ino fs =
     (if fclus < cluster
      then if limit < fclus then Some ((Inl EIO, fclus, dclus), ino, snd (run_state fat_fs_error fs))
           else (case run_state (fat_ent_read fe dclus) fs of
                   ((Inl e, _), fs) \<Rightarrow> Some ((Inl e, fclus, dclus), ino, fs)
                 | ((Inr nr, fe), fs) \<Rightarrow>
                     if nr = FAT_ENT_FREE then Some ((Inl EIO, fclus, dclus), ino, snd (run_state fat_fs_error fs))
                     else if nr = FAT_ENT_EOF
                     then (case fat_cache_add others ino cid fs of
                             None \<Rightarrow> None
                           | Some (ino, fs) \<Rightarrow> Some ((Inr nr, fclus, dclus), ino, fs))
                     else (case cache_contiguous cid (uint nr) of
                             (contiguous, cid) \<Rightarrow>
                               get_cluster_loop others cluster limit fe (if contiguous then cid else cache_init (fclus + 1) (uint nr))
                                 (fclus + 1) (uint nr) ino fs))
      else (case fat_cache_add others ino cid fs of
              None \<Rightarrow> None
            | Some (ino, fs) \<Rightarrow> Some ((Inr 0, fclus, dclus), ino, fs)))"
  by pat_completeness auto
termination
  by (relation "measure (\<lambda>(_, cluster, _, _, _, fclus, _). nat (cluster - fclus))") auto

declare get_cluster_loop.simps [simp del]

definition fat_get_cluster :: "(msdos_inode \<Rightarrow> msdos_inode) \<Rightarrow> msdos_inode \<Rightarrow> int \<Rightarrow> fat_fs \<Rightarrow>
    (((errno + u32) \<times> int \<times> int) \<times> msdos_inode \<times> fat_fs) option" where
  "fat_get_cluster others ino cluster fs =
     (let limit = int (drop_bit (cluster_bits fs) (s_maxbytes fs))
      in if i_start ino = 0 then None
         else if \<not> fat_valid_entry fs (i_start ino) then Some ((Inl EIO, 0, i_start ino), ino, snd (run_state fat_fs_error fs))
         else if cluster = 0 then Some ((Inr 0, 0, i_start ino), ino, fs)
         else (case fat_cache_lookup ino cluster of
                 ((offset, found), ino) \<Rightarrow>
                   (case (if offset < 0 then None else found) of
                      None \<Rightarrow> get_cluster_loop others cluster limit fatent_init (cache_init (- 1) (- 1)) 0 (i_start ino) ino fs
                    | Some (cid, fclus, dclus) \<Rightarrow> get_cluster_loop others cluster limit fatent_init cid fclus dclus ino fs)))"

subsection \<open>Sectors of a file\<close>

definition fat_bmap_cluster :: "(msdos_inode \<Rightarrow> msdos_inode) \<Rightarrow> msdos_inode \<Rightarrow> int \<Rightarrow> fat_fs \<Rightarrow> ((errno + int) \<times> msdos_inode \<times> fat_fs) option" where
  "fat_bmap_cluster others ino cluster fs =
     (if i_start ino = 0 then Some (Inr 0, ino, fs)
      else (case fat_get_cluster others ino cluster fs of
              None \<Rightarrow> None
            | Some ((Inl e, _, _), ino, fs) \<Rightarrow> Some (Inl e, ino, fs)
            | Some ((Inr r, _, dclus), ino, fs) \<Rightarrow>
                if r = FAT_ENT_EOF then Some (Inl EIO, ino, snd (run_state fat_fs_error fs)) else Some (Inr dclus, ino, fs)))"

text \<open>Block and number of blocks mapped, \<open>(0, 0)\<close> as the caller set them when nothing is mapped.\<close>

definition fat_get_mapped_cluster :: "(msdos_inode \<Rightarrow> msdos_inode) \<Rightarrow> msdos_inode \<Rightarrow> nat \<Rightarrow> nat \<Rightarrow> fat_fs \<Rightarrow>
    ((errno + nat \<times> nat) \<times> msdos_inode \<times> fat_fs) option" where
  "fat_get_mapped_cluster others ino sector last_block fs =
     (let cluster = drop_bit (cluster_bits fs - s_blocksize_bits fs) sector;
          offset = sector AND (sec_per_clus fs - 1)
      in (case fat_bmap_cluster others ino (int cluster) fs of
            None \<Rightarrow> None
          | Some (Inl e, ino, fs) \<Rightarrow> Some (Inl e, ino, fs)
          | Some (Inr cluster, ino, fs) \<Rightarrow>
              Some (Inr (if cluster \<noteq> 0 then (fat_clus_to_blknr fs cluster + offset, min (sec_per_clus fs - offset) (last_block - sector))
                         else (0, 0)), ino, fs)))"

definition is_exceed_eof :: "fat_fs \<Rightarrow> msdos_inode \<Rightarrow> nat \<Rightarrow> bool \<Rightarrow> bool \<times> nat" where
  "is_exceed_eof fs ino sector create =
     (let last_block = drop_bit (s_blocksize_bits fs) (i_size ino + (s_blocksize fs - 1))
      in if last_block \<le> sector
         then if \<not> create then (True, last_block)
              else (let last_block = drop_bit (s_blocksize_bits fs) (mmu_private ino + (s_blocksize fs - 1))
                    in (last_block \<le> sector, last_block))
         else (False, last_block))"

definition fat_bmap :: "(msdos_inode \<Rightarrow> msdos_inode) \<Rightarrow> msdos_inode \<Rightarrow> nat \<Rightarrow> bool \<Rightarrow> bool \<Rightarrow> fat_fs \<Rightarrow>
    ((errno + nat \<times> nat) \<times> msdos_inode \<times> fat_fs) option" where
  "fat_bmap others ino sector create from_bmap fs =
     (if \<not> is_fat32 fs \<and> i_root ino
      then Some (Inr (if sector < drop_bit (dir_per_block_bits fs) (dir_entries fs) then (sector + dir_start fs, 1) else (0, 0)), ino, fs)
      else if \<not> from_bmap
      then (case is_exceed_eof fs ino sector create of
              (exceed, last_block) \<Rightarrow>
                if exceed then Some (Inr (0, 0), ino, fs) else fat_get_mapped_cluster others ino sector last_block fs)
      else (let last_block = drop_bit (s_blocksize_bits fs - 9) (i_blocks ino)
            in if last_block \<le> sector then Some (Inr (0, 0), ino, fs)
               else fat_get_mapped_cluster others ino sector last_block fs))"

subsection \<open>The invariant of the list\<close>

text \<open>A run is right for a chain if each of its clusters is where it says.\<close>

definition run_ok :: "nat list \<Rightarrow> ('a fat_cache_scheme) \<Rightarrow> bool" where
  "run_ok cs c \<longleftrightarrow> 1 \<le> fcluster c \<and> 0 \<le> nr_contig c \<and> fcluster c + nr_contig c < int (length cs) \<and>
     (\<forall>i. 0 \<le> i \<and> i \<le> nr_contig c \<longrightarrow> int (cs ! nat (fcluster c + i)) = dcluster c + i)"

text \<open>All runs are right and start at different places, and \<open>k\<close> more are being added.\<close>

definition cache_inv :: "nat list \<Rightarrow> nat \<Rightarrow> msdos_inode \<Rightarrow> bool" where
  "cache_inv cs k ino \<longleftrightarrow> (\<forall>c \<in> set (cache_lru ino). run_ok cs c) \<and> distinct (map fcluster (cache_lru ino)) \<and>
     nr_caches ino = int (length (cache_lru ino) + k) \<and> nr_caches ino \<le> FAT_MAX_CACHE"

text \<open>Two states of an inode that differ at most in the cache.\<close>

definition same_file :: "msdos_inode \<Rightarrow> msdos_inode \<Rightarrow> bool" where
  "same_file ino ino' \<longleftrightarrow>
     ino'\<lparr>cache_lru := [], nr_caches := 0, cache_valid_id := 0\<rparr> = ino\<lparr>cache_lru := [], nr_caches := 0, cache_valid_id := 0\<rparr>"

lemma same_file_refl [simp]: "same_file ino ino"
  by (simp add: same_file_def)

lemma same_file_trans: "same_file ino ino1 \<Longrightarrow> same_file ino1 ino2 \<Longrightarrow> same_file ino ino2"
  by (simp add: same_file_def)

lemma same_file_upd [simp]:
  "same_file ino (ino'\<lparr>cache_lru := l\<rparr>) = same_file ino ino'" "same_file ino (ino'\<lparr>nr_caches := n\<rparr>) = same_file ino ino'"
  "same_file (ino\<lparr>nr_caches := n\<rparr>) ino' = same_file ino ino'"
  by (simp_all add: same_file_def)

lemma same_file_fields:
  assumes "same_file ino ino'"
  shows "i_start ino' = i_start ino" and "i_blocks ino' = i_blocks ino" and "i_pos ino' = i_pos ino" and "i_root ino' = i_root ino"
    and "i_size ino' = i_size ino" and "mmu_private ino' = mmu_private ino" and "i_logstart ino' = i_logstart ino" and "i_mode ino' = i_mode ino"
    and "i_dirsync ino' = i_dirsync ino"
  using assms [unfolded same_file_def] by - (drule arg_cong [of _ _ i_start] arg_cong [of _ _ i_blocks] arg_cong [of _ _ i_pos] arg_cong [of _ _ i_root]
    arg_cong [of _ _ i_size] arg_cong [of _ _ mmu_private] arg_cong [of _ _ i_logstart] arg_cong [of _ _ i_mode] arg_cong [of _ _ i_dirsync], simp)+

lemma same_file_update_lru [simp]: "same_file ino (fat_cache_update_lru ino' c) = same_file ino ino'"
  by (simp add: fat_cache_update_lru_def)

lemma run_ok_at:
  assumes "run_ok cs c" and "0 \<le> i" and "i \<le> nr_contig c"
  shows "nat (fcluster c + i) < length cs" and "int (cs ! nat (fcluster c + i)) = dcluster c + i"
  using assms by (auto simp: run_ok_def)

lemma run_ok_same:
  assumes "run_ok cs c" and "run_ok cs d" and "fcluster c = fcluster d"
  shows "dcluster c = dcluster d"
  using run_ok_at(2) [OF assms(1), of 0] run_ok_at(2) [OF assms(2), of 0] assms by (simp add: run_ok_def)

lemma run_ok_run_of [simp]: "run_ok cs (run_of new) = run_ok cs new"
  by (simp add: run_ok_def run_of_def)

lemma cache_inv_update_lru:
  assumes "c \<in> set (cache_lru ino)" and "cache_inv cs k ino"
  shows "cache_inv cs k (fat_cache_update_lru ino c)"
proof -
  have perm: "mset (c # remove1 c (cache_lru ino)) = mset (cache_lru ino)" using assms(1) by simp
  then have "mset (map fcluster (c # remove1 c (cache_lru ino))) = mset (map fcluster (cache_lru ino))" by (metis mset_map)
  then have "distinct (map fcluster (c # remove1 c (cache_lru ino))) = distinct (map fcluster (cache_lru ino))" by (metis mset_eq_imp_distinct_iff)
  moreover have "length (c # remove1 c (cache_lru ino)) = length (cache_lru ino)" using perm by (metis mset_eq_length)
  moreover have "set (c # remove1 c (cache_lru ino)) = set (cache_lru ino)" using perm by (metis mset_eq_setD)
  ultimately show ?thesis using assms(2) by (simp add: cache_inv_def fat_cache_update_lru_def)
qed

lemma cache_search_spec:
  assumes "cache_search fclus ps hit offset = (h, off)" and "\<forall>p \<in> set ps. run_ok cs p"
    and "case hit of None \<Rightarrow> offset = - 1 | Some p \<Rightarrow> run_ok cs p \<and> p \<in> S \<and> fcluster p + offset \<le> fclus \<and> offset = nr_contig p" and "set ps \<subseteq> S"
  shows "case h of None \<Rightarrow> off = - 1
    | Some p \<Rightarrow> run_ok cs p \<and> p \<in> S \<and> 0 \<le> off \<and> off \<le> nr_contig p \<and> fcluster p + off \<le> fclus \<and> (off = nr_contig p \<or> fcluster p + off = fclus)"
  using assms
proof (induction fclus ps hit offset rule: cache_search.induct)
  case (1 fclus hit offset)
  then show ?case by (auto simp: run_ok_def split: option.splits)
next
  case (2 fclus p ps hit offset)
  show ?case
  proof (cases "fcluster p \<le> fclus \<and> (case hit of None \<Rightarrow> 0 | Some h \<Rightarrow> fcluster h) < fcluster p")
    case True
    show ?thesis
    proof (cases "fcluster p + nr_contig p < fclus")
      case less: True
      show ?thesis using 2(1) [OF True less] 2(3-) True less by simp
    next
      case False
      then have "h = Some p" "off = fclus - fcluster p" using 2(3) True by auto
      then show ?thesis using 2(4,6) True False by (simp add: run_ok_def)
    qed
  next
    case False
    show ?thesis using 2(2) [OF False] 2(3-) False by simp
  qed
qed

lemma fat_cache_lookup_spec:
  assumes "fat_cache_lookup ino fclus = ((offset, found), ino')" and "cache_inv cs k ino"
  shows "cache_inv cs k ino'" and "same_file ino ino'" and "cache_valid_id ino' = cache_valid_id ino"
    and "case found of None \<Rightarrow> offset < 0
      | Some (cid, f, d) \<Rightarrow> 0 \<le> offset \<and> run_ok cs cid \<and> 0 \<le> f \<and> f \<le> fclus \<and> f < int (length cs) \<and> d = int (cs ! nat f) \<and>
          (f = fcluster cid + nr_contig cid \<or> f = fclus)"
proof -
  obtain h off where s: "cache_search fclus (cache_lru ino) None (- 1) = (h, off)" by (metis surj_pair)
  note sp = cache_search_spec [OF s, of cs "set (cache_lru ino)"]
  have ok: "\<forall>p \<in> set (cache_lru ino). run_ok cs p" using assms(2) by (simp add: cache_inv_def)
  show "cache_inv cs k ino'" using assms s sp ok cache_inv_update_lru [of _ ino] by (auto simp: fat_cache_lookup_def split: option.splits)
  show "same_file ino ino'" "cache_valid_id ino' = cache_valid_id ino"
    using assms(1) by (auto simp: fat_cache_lookup_def fat_cache_update_lru_def split: option.splits prod.splits)
  show "case found of None \<Rightarrow> offset < 0
      | Some (cid, f, d) \<Rightarrow> 0 \<le> offset \<and> run_ok cs cid \<and> 0 \<le> f \<and> f \<le> fclus \<and> f < int (length cs) \<and> d = int (cs ! nat f) \<and>
          (f = fcluster cid + nr_contig cid \<or> f = fclus)"
  proof (cases h)
    case None
    then show ?thesis using assms(1) s sp ok by (auto simp: fat_cache_lookup_def)
  next
    case (Some p)
    then have p: "run_ok cs p" "0 \<le> off" "off \<le> nr_contig p" "fcluster p + off \<le> fclus" "off = nr_contig p \<or> fcluster p + off = fclus"
      using sp ok by simp_all
    then have "int (cs ! nat (fcluster p + off)) = dcluster p + off" "1 \<le> fcluster p" "fcluster p + off < int (length cs)"
      using run_ok_at [of cs p off] by (auto simp: run_ok_def)
    moreover have "run_ok cs \<lparr>nr_contig = nr_contig p, fcluster = fcluster p, dcluster = dcluster p, cache_id = v\<rparr>" for v
      using p(1) by (simp add: run_ok_def)
    ultimately show ?thesis using assms(1) s Some p by (auto simp: fat_cache_lookup_def)
  qed
qed

lemma fat_cache_merge_spec:
  assumes "\<forall>p \<in> set ps. run_ok cs p" and "run_ok cs new"
  shows "\<exists>c ps'. fat_cache_merge ps new = Some (c, ps') \<and> (\<forall>p \<in> set ps'. run_ok cs p) \<and> map fcluster ps' = map fcluster ps \<and>
    (case c of None \<Rightarrow> ps' = ps \<and> fcluster new \<notin> fcluster ` set ps | Some p \<Rightarrow> p \<in> set ps')"
  using assms(1)
proof (induction ps)
  case (Cons p ps)
  show ?case
  proof (cases "fcluster p = fcluster new")
    case True
    then have "dcluster p = dcluster new" using run_ok_same [of cs p new] Cons.prems assms(2) by simp
    moreover have "run_ok cs (p\<lparr>nr_contig := nr_contig new\<rparr>)"
      using assms(2) True calculation by (simp add: run_ok_def)
    ultimately show ?thesis using True Cons.prems by (auto simp: Let_def)
  next
    case False
    then show ?thesis using Cons by (auto split: option.splits)
  qed
qed simp

text \<open>At most the script is consumed, and nothing at all when it is empty.\<close>

definition spends :: "fat_fs \<Rightarrow> fat_fs \<Rightarrow> bool" where
  "spends fs fs' \<longleftrightarrow> only_faults fs fs' \<and> (faults fs = [] \<longrightarrow> fs' = fs)"

interpretation spd: frame_relation spends
proof
  show "spends s s" for s using ofa.frame_refl by (simp add: spends_def)
  show "spends s u" if "spends s t" "spends t u" for s t u using that ofa.frame_trans [of s t u] by (auto simp: spends_def)
qed

lemma spends_only_faults: "spends fs fs' \<Longrightarrow> only_faults fs fs'"
  by (simp add: spends_def)

lemma spends_fallible: "run_state (fallible e) fs = (r, fs') \<Longrightarrow> spends fs fs'"
  using keepsD [OF ofa_fallible] by (auto simp: spends_def)

lemma fat_cache_add_spec:
  assumes inv: "cache_inv cs 0 ino" and new: "fcluster new = - 1 \<or> run_ok cs new"
    and oth: "\<And>ino. cache_inv cs 1 ino \<Longrightarrow> cache_inv cs 1 (others ino) \<and> same_file ino (others ino)"
  shows "\<exists>ino' fs'. fat_cache_add others ino new fs = Some (ino', fs') \<and> cache_inv cs 0 ino' \<and> spends fs fs' \<and> same_file ino ino'"
proof (cases "fcluster new = - 1 \<or> cache_id new \<noteq> FAT_CACHE_VALID \<and> cache_id new \<noteq> cache_valid_id ino")
  case True
  then show ?thesis using inv spd.frame_refl by (auto simp: fat_cache_add_def)
next
  case skip: False
  then have new: "run_ok cs new" using assms(2) by simp
  obtain c lru where m: "fat_cache_merge (cache_lru ino) new = Some (c, lru)" "\<forall>p \<in> set lru. run_ok cs p" "map fcluster lru = map fcluster (cache_lru ino)"
      "case c of None \<Rightarrow> lru = cache_lru ino \<and> fcluster new \<notin> fcluster ` set (cache_lru ino) | Some p \<Rightarrow> p \<in> set lru"
    using fat_cache_merge_spec [OF _ new, of "cache_lru ino"] inv by (auto simp: cache_inv_def)
  show ?thesis
  proof (cases c)
    case (Some p)
    have "length lru = length (cache_lru ino)" using m(3) by (metis length_map)
    then have "cache_inv cs 0 (ino\<lparr>cache_lru := lru\<rparr>)" using inv m by (simp add: cache_inv_def)
    then have "cache_inv cs 0 (fat_cache_update_lru (ino\<lparr>cache_lru := lru\<rparr>) p)" using m(4) Some by (intro cache_inv_update_lru) simp_all
    then show ?thesis using skip m Some spd.frame_refl by (auto simp: fat_cache_add_def fat_cache_update_lru_def)
  next
    case None
    show ?thesis
    proof (cases "nr_caches ino < fat_max_cache ino")
      case True
      define ino1 where "ino1 = others (ino\<lparr>nr_caches := nr_caches ino + 1\<rparr>)"
      have i1: "cache_inv cs 1 ino1" "same_file ino ino1"
        using oth [of "ino\<lparr>nr_caches := nr_caches ino + 1\<rparr>"] inv True by (simp_all add: ino1_def cache_inv_def fat_max_cache_def)
      obtain r fs1 where fl: "run_state (fallible ENOMEM) fs = (r, fs1)" by (metis surj_pair)
      have of1: "spends fs fs1" by (rule spends_fallible [OF fl])
      obtain c1 lru1 where m1: "fat_cache_merge (cache_lru ino1) new = Some (c1, lru1)" "\<forall>p \<in> set lru1. run_ok cs p"
          "map fcluster lru1 = map fcluster (cache_lru ino1)"
          "case c1 of None \<Rightarrow> lru1 = cache_lru ino1 \<and> fcluster new \<notin> fcluster ` set (cache_lru ino1) | Some p \<Rightarrow> p \<in> set lru1"
        using fat_cache_merge_spec [OF _ new, of "cache_lru ino1"] i1 by (auto simp: cache_inv_def)
      have len: "length lru1 = length (cache_lru ino1)" using m1(3) by (metis length_map)
      have fail: "cache_inv cs 0 (ino1\<lparr>nr_caches := nr_caches ino1 - 1\<rparr>)" using i1(1) by (simp add: cache_inv_def)
      have merged: "cache_inv cs 0 (fat_cache_update_lru (ino1\<lparr>cache_lru := lru1, nr_caches := nr_caches ino1 - 1\<rparr>) p)" if "c1 = Some p" for p
        using i1(1) m1 that len by (intro cache_inv_update_lru) (simp_all add: cache_inv_def)
      have added: "cache_inv cs 0 (ino1\<lparr>cache_lru := run_of new # cache_lru ino1\<rparr>)" if "c1 = None"
        using i1(1) m1(4) that new by (simp add: cache_inv_def run_of_def [of new] flip: run_ok_run_of)
      show ?thesis
        using skip m None True fl of1 m1(1) fail merged added i1(2)
        by (cases r; cases c1) (auto simp: fat_cache_add_def Let_def fat_cache_update_lru_def simp flip: ino1_def)
    next
      case False
      then have ne: "cache_lru ino \<noteq> []" using inv by (auto simp: cache_inv_def fat_max_cache_def FAT_MAX_CACHE_def)
      obtain xs x where xs: "cache_lru ino = xs @ [x]" using ne by (metis append_butlast_last_id)
      have "cache_inv cs 0 (ino\<lparr>cache_lru := run_of new # butlast (cache_lru ino)\<rparr>)"
        using inv m(4) None new by (auto simp: cache_inv_def xs run_of_def simp flip: run_ok_run_of)
      then show ?thesis using skip m None False ne spd.frame_refl by (auto simp: fat_cache_add_def)
    qed
  qed
qed

subsection \<open>The cache answers as the table does\<close>

text \<open>What following the chain from its start gives for a cluster of the file: where it is, or the last one and the end mark.\<close>

definition chain_at :: "nat list \<Rightarrow> int \<Rightarrow> (errno + u32) \<times> int \<times> int" where
  "chain_at cs cluster =
     (if cluster < int (length cs) then (Inr 0, cluster, int (cs ! nat cluster)) else (Inr FAT_ENT_EOF, int (length cs) - 1, int (last cs)))"

definition get_post :: "nat list \<Rightarrow> int \<Rightarrow> msdos_inode \<Rightarrow> fat_fs \<Rightarrow> (((errno + u32) \<times> int \<times> int) \<times> msdos_inode \<times> fat_fs) option \<Rightarrow> bool" where
  "get_post cs cluster ino fs x \<longleftrightarrow> (\<exists>v ino' fs'. x = Some (v, ino', fs') \<and> cache_inv cs 0 ino' \<and> same_file ino ino' \<and> spends fs fs' \<and>
     (v = chain_at cs cluster \<or> fst v = Inl EIO \<and> faults fs \<noteq> []))"

lemma file_chain_nth:
  assumes "wf_fat fs" and "file_chain fs cs" and "n < length cs"
  shows "valid_clus fs (cs ! n)"
    and "ftab fs (cs ! n) = (if Suc n < length cs then of_nat (cs ! Suc n) else FAT_ENT_EOF)"
  using assms chain_nth [of "ftab fs" cs FAT_ENT_EOF n] chain_last [of "ftab fs" cs FAT_ENT_EOF]
  by (auto simp: file_chain_def last_conv_nth not_less_eq less_Suc_eq)

text \<open>A list of clusters as the table links them, closed by the end mark unless it has the cluster asked for.\<close>

definition walk :: "fat_fs \<Rightarrow> int \<Rightarrow> nat list \<Rightarrow> bool" where
  "walk fs cluster cs \<longleftrightarrow> cs \<noteq> [] \<and> (\<forall>c \<in> set cs. valid_clus fs c) \<and>
     (\<exists>x. chain (ftab fs) cs x \<and> (x = FAT_ENT_EOF \<or> cluster < int (length cs)))"

lemma file_chain_walk: "file_chain fs cs \<Longrightarrow> walk fs cluster cs"
  by (auto simp: file_chain_def walk_def)

lemma walk_nth:
  assumes "walk fs cluster cs" and "n < length cs"
  shows "valid_clus fs (cs ! n)" and "Suc n < length cs \<Longrightarrow> ftab fs (cs ! n) = of_nat (cs ! Suc n)"
    and "\<not> Suc n < length cs \<Longrightarrow> int n < cluster \<Longrightarrow> ftab fs (cs ! n) = FAT_ENT_EOF"
proof -
  obtain x where x: "chain (ftab fs) cs x" "x = FAT_ENT_EOF \<or> cluster < int (length cs)" using assms(1) by (auto simp: walk_def)
  show "valid_clus fs (cs ! n)" using assms by (simp add: walk_def)
  show "ftab fs (cs ! n) = of_nat (cs ! Suc n)" if "Suc n < length cs" using chain_nth [OF x(1) that] .
  show "ftab fs (cs ! n) = FAT_ENT_EOF" if "\<not> Suc n < length cs" "int n < cluster"
  proof -
    have "n = length cs - 1" using that(1) assms(2) by simp
    then have "ftab fs (cs ! n) = x" using chain_last [OF x(1)] assms(1) by (simp add: walk_def last_conv_nth)
    then show ?thesis using x(2) that assms(2) by auto
  qed
qed

definition cid_at :: "nat list \<Rightarrow> fat_cache_id \<Rightarrow> int \<Rightarrow> bool" where
  "cid_at cs cid f \<longleftrightarrow> fcluster cid = - 1 \<and> dcluster cid = - 1 \<and> nr_contig cid = 0 \<or> run_ok cs cid \<and> f = fcluster cid + nr_contig cid"

lemma cid_at_next:
  assumes "cid_at cs cid f" and "0 \<le> f" and "f + 1 < int (length cs)" and "cs ! nat (f + 1) \<noteq> 0" and "cache_contiguous cid (int (cs ! nat (f + 1))) = (contiguous, cid')"
  shows "cid_at cs (if contiguous then cid' else cache_init (f + 1) (int (cs ! nat (f + 1)))) (f + 1)"
proof (cases contiguous)
  case False
  have "cs ! nat (f + 1 + i) = cs ! nat (f + 1)" if "0 \<le> i" "i \<le> 0" for i using that by simp
  then show ?thesis using False assms(2,3) by (auto simp: cid_at_def cache_init_def run_ok_def)
next
  case True
  then have c: "cid' = cid\<lparr>nr_contig := nr_contig cid + 1\<rparr>" "dcluster cid + (nr_contig cid + 1) = int (cs ! nat (f + 1))"
    using assms(5) by (auto simp: cache_contiguous_def Let_def)
  then have r: "run_ok cs cid" "f = fcluster cid + nr_contig cid" using assms(1,4) by (auto simp: cid_at_def)
  have "int (cs ! nat (fcluster cid + i)) = dcluster cid + i" if "0 \<le> i" "i \<le> nr_contig cid + 1" for i
  proof (cases "i = nr_contig cid + 1")
    case True
    then show ?thesis using c(2) r(2) by (simp add: add.assoc [symmetric])
  next
    case False
    then show ?thesis using run_ok_at(2) [OF r(1)] that by simp
  qed
  then have "run_ok cs cid'" using r assms(3) by (simp add: run_ok_def c)
  then show ?thesis using True r(2) c(1) by (simp add: cid_at_def)
qed

lemma get_postI:
  assumes add: "fat_cache_add others ino cid fs' = Some (ino', fs'')" and inv: "cache_inv cs 0 ino'" "same_file ino ino'"
    and fr: "spends fs fs'" "spends fs' fs''" and v: "v = chain_at cs cluster"
  shows "get_post cs cluster ino fs (case fat_cache_add others ino cid fs' of None \<Rightarrow> None | Some (ino, fs) \<Rightarrow> Some (v, ino, fs))"
  unfolding get_post_def using add inv v spd.frame_trans [OF fr] by auto

lemma get_post_later:
  assumes "get_post cs cluster ino fs' x" and "spends fs fs'"
  shows "get_post cs cluster ino fs x"
  using assms spd.frame_trans [OF assms(2)] unfolding get_post_def by (metis spends_def)

lemma file_chain_cong:
  assumes "still fs fs'"
  shows "file_chain fs' cs = file_chain fs cs"
proof -
  have g: "geometry fs' = geometry fs" and t: "\<forall>e < max_cluster fs. ftab fs' e = ftab fs e" using assms by (simp_all add: still_def)
  have "chain (ftab fs') cs FAT_ENT_EOF = chain (ftab fs) cs FAT_ENT_EOF" if "\<forall>c \<in> set cs. valid_clus fs c"
    using that t by (intro chain_cong) (simp add: valid_clus_def)
  then show ?thesis unfolding file_chain_def valid_clus_cong [OF g] by blast
qed

lemma walk_cong:
  assumes "still fs fs'"
  shows "walk fs' cluster cs = walk fs cluster cs"
proof -
  have g: "geometry fs' = geometry fs" and t: "\<forall>e < max_cluster fs. ftab fs' e = ftab fs e" using assms by (simp_all add: still_def)
  have "chain (ftab fs') cs x = chain (ftab fs) cs x" if "\<forall>c \<in> set cs. valid_clus fs c" for x
    using that t by (intro chain_cong) (simp add: valid_clus_def)
  then show ?thesis unfolding walk_def valid_clus_cong [OF g] by blast
qed

lemma get_cluster_loop_spec:
  assumes oth: "\<And>ino. cache_inv cs 1 ino \<Longrightarrow> cache_inv cs 1 (others ino) \<and> same_file ino (others ino)" and len: "int (length cs) \<le> limit + 1"
  shows "wf_fat fs \<Longrightarrow> walk fs cluster cs \<Longrightarrow> held fs fe \<Longrightarrow> cache_inv cs 0 ino \<Longrightarrow> cid_at cs cid f \<Longrightarrow> 0 \<le> f \<Longrightarrow> f \<le> cluster \<Longrightarrow>
    f < int (length cs) \<Longrightarrow> get_post cs cluster ino fs (get_cluster_loop others cluster limit fe cid f (int (cs ! nat f)) ino fs)"
proof (induction "nat (cluster - f)" arbitrary: fe cid f fs rule: less_induct)
  case less
  note prems = less.prems
  have new: "fcluster cid = - 1 \<or> run_ok cs cid" using prems(5) by (auto simp: cid_at_def)
  show ?case
  proof (cases "f < cluster")
    case False
    then have "(Inr 0, f, int (cs ! nat f)) = chain_at cs cluster" using prems by (simp add: chain_at_def)
    moreover obtain ino' fs' where "fat_cache_add others ino cid fs = Some (ino', fs')" "cache_inv cs 0 ino'" "spends fs fs'" "same_file ino ino'"
      using fat_cache_add_spec [OF prems(4) new oth] by blast
    ultimately show ?thesis using False get_postI [OF _ _ _ spd.frame_refl] by (simp add: get_cluster_loop.simps)
  next
    case True
    have nl: "\<not> limit < f" using prems(8) len by simp
    have nf: "nat f < length cs" using prems(6,8) by simp
    have v: "fat_valid_entry fs (int (cs ! nat f))" using walk_nth(1) [OF prems(2) nf] by (simp add: valid_entry_clus)
    obtain r fe' fs' where rd: "run_state (fat_ent_read fe (int (cs ! nat f))) fs = ((r, fe'), fs')" by (metis surj_pair)
    note sp = fat_ent_read_valid [OF rd prems(1,3) v]
    have calm: "fs' = fs \<and> (\<exists>n. r = Inr n)" if "faults fs = []" using fat_ent_read_calm [OF that v, of fe] rd by auto
    have sps: "spends fs fs'" using sp(1) calm by (simp add: spends_def)
    show ?thesis
    proof (cases r)
      case (Inl e)
      then have "e = EIO" "faults fs \<noteq> []" using sp(4) calm by auto
      then show ?thesis using True nl rd Inl sps prems(4) by (auto simp: get_cluster_loop.simps get_post_def)
    next
      case (Inr nr)
      then have nr: "nr = (if Suc (nat f) < length cs then of_nat (cs ! Suc (nat f)) else FAT_ENT_EOF)"
        using sp(4) walk_nth(2,3) [OF prems(2) nf] True prems(6) by simp
      have st: "still fs fs'" by (rule still_only_faults [OF sp(1)])
      show ?thesis
      proof (cases "Suc (nat f) < length cs")
        case False
        then have eof: "nr = FAT_ENT_EOF" "nr \<noteq> FAT_ENT_FREE" using nr by (simp_all add: fat_consts)
        have fl: "f = int (length cs) - 1" "nat f = length cs - 1" "\<not> cluster < int (length cs)" using False prems(6,8) True by linarith+
        then have "cs ! nat f = last cs" using prems(2) by (simp add: last_conv_nth walk_def)
        then have "(Inr nr, f, int (cs ! nat f)) = chain_at cs cluster" using eof(1) fl(1,3) by (simp add: chain_at_def)
        moreover obtain ino' fs'' where "fat_cache_add others ino cid fs' = Some (ino', fs'')" "cache_inv cs 0 ino'" "spends fs' fs''" "same_file ino ino'"
          using fat_cache_add_spec [OF prems(4) new oth] by blast
        ultimately show ?thesis using True nl rd Inr eof get_postI [OF _ _ _ sps] by (simp add: get_cluster_loop.simps)
      next
        case next_clus: True
        define c where "c = cs ! nat (f + 1)"
        have "Suc (nat f) = nat (f + 1)" using prems(6) by simp
        then have c: "nr = of_nat c" "valid_clus fs c"
          using nr next_clus walk_nth(1) [OF prems(2), of "nat (f + 1)"] by (simp_all add: c_def)
        note small = valid_small [OF prems(1) c(2)]
        have f1: "f + 1 < int (length cs)" using next_clus prems(6) by linarith
        have u: "uint nr = int c" using small(1) c(1) by (metis uint_nat)
        obtain contiguous cid' where cc: "cache_contiguous cid (int c) = (contiguous, cid')" by (metis surj_pair)
        define cid2 where "cid2 = (if contiguous then cid' else cache_init (f + 1) (int c))"
        have at: "cid_at cs cid2 (f + 1)"
          unfolding cid2_def c_def
          by (rule cid_at_next [OF prems(5,6) f1 _ cc [unfolded c_def]]) (use c(2) in \<open>simp add: c_def valid_clus_def FAT_START_ENT_def\<close>)
        have wf': "wf_fat fs'" using geometry_fields(11) [OF still_geometry [OF st]] prems(1) by simp
        have "get_post cs cluster ino fs' (get_cluster_loop others cluster limit fe' cid2 (f + 1) (int c) ino fs')"
          unfolding c_def
          by (rule less.hyps [OF _ wf']) (use True prems f1 at sp(3) st in \<open>simp_all add: walk_cong held_geometry [OF still_geometry]\<close>)
        then have "get_post cs cluster ino fs (get_cluster_loop others cluster limit fe' cid2 (f + 1) (int c) ino fs')"
          by (rule get_post_later [OF _ sps])
        then show ?thesis
          using True nl rd Inr c(1) small(3,4) u cc cid2_def by (subst get_cluster_loop.simps) (cases contiguous; simp)
      qed
    qed
  qed
qed

definition keeps_cache :: "nat list \<Rightarrow> (msdos_inode \<Rightarrow> msdos_inode) \<Rightarrow> bool" where
  "keeps_cache cs others \<longleftrightarrow> (\<forall>ino. cache_inv cs 1 ino \<longrightarrow> cache_inv cs 1 (others ino) \<and> same_file ino (others ino))"

lemma keeps_cache_lookup: "keeps_cache cs (\<lambda>ino. snd (fat_cache_lookup ino n))"
  unfolding keeps_cache_def using fat_cache_lookup_spec(1,2) by (metis prod.collapse)

lemma chain_start:
  assumes "file_chain fs cs"
  shows "cs \<noteq> []" and "valid_clus fs (hd cs)" and "hd cs \<noteq> 0"
proof -
  show "cs \<noteq> []" using assms by (simp add: file_chain_def)
  then show "valid_clus fs (hd cs)" using assms by (simp add: file_chain_def)
  then show "hd cs \<noteq> 0" by (simp add: valid_clus_def FAT_START_ENT_def)
qed

lemma get_cluster_walk:
  assumes wf: "wf_fat fs" and ch: "walk fs cluster cs" and st: "i_start ino = int (hd cs)" and inv: "cache_inv cs 0 ino" and c: "0 \<le> cluster"
    and len: "length cs \<le> drop_bit (cluster_bits fs) (s_maxbytes fs) + 1" and oth: "keeps_cache cs others"
  shows "get_post cs cluster ino fs (fat_get_cluster others ino cluster fs)"
proof -
  have ne: "cs \<noteq> []" using ch by (simp add: walk_def)
  then have "valid_clus fs (hd cs)" using ch by (simp add: walk_def)
  then have v: "fat_valid_entry fs (i_start ino)" "i_start ino \<noteq> 0"
    using st by (simp_all add: valid_entry_clus valid_clus_def FAT_START_ENT_def)
  have hd: "hd cs = cs ! 0" using ne by (rule hd_conv_nth)
  note loop = get_cluster_loop_spec [OF _ _ wf ch held_init, of others]
  show ?thesis
  proof (cases "cluster = 0")
    case True
    then show ?thesis
      using v st hd ne inv spd.frame_refl by (auto simp: fat_get_cluster_def get_post_def chain_at_def)
  next
    case False
    obtain offset found ino' where lk: "fat_cache_lookup ino cluster = ((offset, found), ino')" by (metis surj_pair)
    note sp = fat_cache_lookup_spec [OF lk inv]
    have same: "get_post cs cluster ino' fs x \<Longrightarrow> get_post cs cluster ino fs x" for x using same_file_trans [OF sp(2)] unfolding get_post_def by blast
    show ?thesis
    proof (cases found)
      case None
      have "get_post cs cluster ino' fs (get_cluster_loop others cluster (int (drop_bit (cluster_bits fs) (s_maxbytes fs))) fatent_init
          (cache_init (- 1) (- 1)) 0 (int (cs ! nat 0)) ino' fs)"
        by (rule loop) (use oth len sp(1) c ne in \<open>auto simp: keeps_cache_def cid_at_def cache_init_def\<close>)
      then show ?thesis using same v False lk None sp(4) same_file_fields(1) [OF sp(2)] st hd by (simp add: fat_get_cluster_def Let_def)
    next
      case (Some x)
      obtain cid f d where x: "x = (cid, f, d)" by (metis surj_pair)
      then have s: "0 \<le> offset" "run_ok cs cid" "0 \<le> f" "f \<le> cluster" "f < int (length cs)" "d = int (cs ! nat f)"
          "f = fcluster cid + nr_contig cid \<or> f = cluster"
        using sp(4) Some by simp_all
      show ?thesis
      proof (cases "f = cluster")
        case True
        have add: "\<exists>ino'' fs'. fat_cache_add others ino' cid fs = Some (ino'', fs') \<and> cache_inv cs 0 ino'' \<and> spends fs fs' \<and> same_file ino' ino''"
          by (rule fat_cache_add_spec [OF sp(1)]) (use s(2) oth in \<open>simp_all add: keeps_cache_def\<close>)
        have "(Inr 0, cluster, int (cs ! nat cluster)) = chain_at cs cluster" using s(5) True by (simp add: chain_at_def)
        then have "get_post cs cluster ino' fs (get_cluster_loop others cluster (int (drop_bit (cluster_bits fs) (s_maxbytes fs))) fatent_init cid f d ino' fs)"
          using add get_postI [OF _ _ _ spd.frame_refl] True s(6) by (auto simp: get_cluster_loop.simps)
        then show ?thesis using same v False lk Some x s(1) by (simp add: fat_get_cluster_def Let_def)
      next
        case ne': False
        have "get_post cs cluster ino' fs (get_cluster_loop others cluster (int (drop_bit (cluster_bits fs) (s_maxbytes fs))) fatent_init cid f (int (cs ! nat f)) ino' fs)"
          by (rule loop) (use oth len sp(1) s ne' in \<open>auto simp: keeps_cache_def cid_at_def\<close>)
        then show ?thesis using same v False lk Some x s(1,6) by (simp add: fat_get_cluster_def Let_def)
      qed
    qed
  qed
qed

lemma get_cluster_post:
  assumes "wf_fat fs" and "file_chain fs cs" and "i_start ino = int (hd cs)" and "cache_inv cs 0 ino" and "0 \<le> cluster"
    and "length cs \<le> drop_bit (cluster_bits fs) (s_maxbytes fs) + 1" and "keeps_cache cs others"
  shows "get_post cs cluster ino fs (fat_get_cluster others ino cluster fs)"
  by (rule get_cluster_walk [OF assms(1) file_chain_walk [OF assms(2)] assms(3-7)])

text \<open>
  C30 (the cluster cache is transparent).  For a file whose chain is within the size limit and whose cached runs agree with that chain,
  \<^verbatim>\<open>fat_get_cluster\<close> returns, whatever is cached: the cluster that following the chain from its start gives or, beyond the end, the end mark and the last
  cluster; only a failing access can make it report an I/O error instead.  No consistency check fires, the cached runs agree with the chain afterwards,
  start at different places and are at most eight, and the table is not changed.  Other threads may look up and add runs of the same chain meanwhile.
\<close>

theorem fat_get_cluster_exact:
  assumes "wf_fat fs" and "file_chain fs cs" and "i_start ino = int (hd cs)" and "cache_inv cs 0 ino" and "0 \<le> cluster"
    and "length cs \<le> drop_bit (cluster_bits fs) (s_maxbytes fs) + 1" and "keeps_cache cs others"
  shows "\<exists>v ino' fs'. fat_get_cluster others ino cluster fs = Some (v, ino', fs') \<and> cache_inv cs 0 ino' \<and> spends fs fs' \<and>
    (v = chain_at cs cluster \<or> fst v = Inl EIO \<and> faults fs \<noteq> [])"
  using get_cluster_post [OF assms] unfolding get_post_def by blast

subsection \<open>Sectors are mapped to the blocks of the chain\<close>

lemma clus_to_blknr: "FAT_START_ENT \<le> c \<Longrightarrow> fat_clus_to_blknr fs (int c) = (c - FAT_START_ENT) * sec_per_clus fs + data_start fs"
proof -
  assume "FAT_START_ENT \<le> c"
  then have "int c - int FAT_START_ENT = int (c - FAT_START_ENT)" by simp
  then have "(int c - int FAT_START_ENT) * int (sec_per_clus fs) + int (data_start fs) = int ((c - FAT_START_ENT) * sec_per_clus fs + data_start fs)"
    by (simp only: of_nat_add of_nat_mult)
  then show ?thesis by (simp only: fat_clus_to_blknr_def nat_int)
qed

lemma bmap_cluster_calm:
  assumes "wf_fat fs" and "file_chain fs cs" and "i_start ino = int (hd cs)" and "cache_inv cs 0 ino" and "n < length cs"
    and "length cs \<le> drop_bit (cluster_bits fs) (s_maxbytes fs) + 1" and "keeps_cache cs others" and "faults fs = []"
  shows "\<exists>ino' fs'. fat_bmap_cluster others ino (int n) fs = Some (Inr (int (cs ! n)), ino', fs') \<and> cache_inv cs 0 ino' \<and> spends fs fs' \<and> same_file ino ino'"
proof -
  have "i_start ino \<noteq> 0" using chain_start(3) [OF assms(2)] assms(3) by simp
  moreover have "get_post cs (int n) ino fs (fat_get_cluster others ino (int n) fs)" by (rule get_cluster_post [OF assms(1-4) _ assms(6,7)]) simp
  moreover have "(0 :: u32) \<noteq> FAT_ENT_EOF" by (simp add: fat_consts)
  ultimately show ?thesis using assms(5,8) by (auto simp: get_post_def fat_bmap_cluster_def chain_at_def)
qed

lemma bmap_calm:
  assumes wf: "wf_fat fs" and ch: "file_chain fs cs" and st: "i_start ino = int (hd cs)" and inv: "cache_inv cs 0 ino"
    and len: "length cs \<le> drop_bit (cluster_bits fs) (s_maxbytes fs) + 1" and oth: "keeps_cache cs others" and fl: "faults fs = []"
    and root: "is_fat32 fs \<or> \<not> i_root ino" and k: "cluster_bits fs = s_blocksize_bits fs + k" "sec_per_clus fs = 2 ^ k"
    and sec: "sector * s_blocksize fs < i_size ino" and cov: "sector div sec_per_clus fs < length cs"
  shows "\<exists>n ino' fs'. fat_bmap others ino sector create False fs =
      Some (Inr ((cs ! (sector div sec_per_clus fs) - FAT_START_ENT) * sec_per_clus fs + data_start fs + sector mod sec_per_clus fs, n), ino', fs') \<and>
    cache_inv cs 0 ino' \<and> spends fs fs' \<and> same_file ino ino' \<and> FAT_START_ENT \<le> cs ! (sector div sec_per_clus fs) \<and>
    0 < n \<and> n \<le> sec_per_clus fs - sector mod sec_per_clus fs \<and> (sector + n - 1) * s_blocksize fs < i_size ino"
proof -
  define c where "c = cs ! (sector div sec_per_clus fs)"
  define lb where "lb = (i_size ino + (s_blocksize fs - 1)) div s_blocksize fs"
  have bs: "s_blocksize fs = 2 ^ s_blocksize_bits fs" "0 < s_blocksize fs" "0 < sec_per_clus fs" using wf k(2) by (simp_all add: wf_fat_def)
  have lb: "m < lb \<longleftrightarrow> m * s_blocksize fs < i_size ino" for m
  proof -
    have "m < lb \<longleftrightarrow> Suc m * s_blocksize fs \<le> i_size ino + (s_blocksize fs - 1)"
      unfolding lb_def Suc_le_eq [symmetric] by (rule less_eq_div_iff_mult_less_eq [OF bs(2)])
    also have "\<dots> \<longleftrightarrow> m * s_blocksize fs < i_size ino" using bs(2) by (simp add: add.commute) linarith
    finally show ?thesis .
  qed
  obtain ino' fs' where bm: "fat_bmap_cluster others ino (int (sector div sec_per_clus fs)) fs = Some (Inr (int c), ino', fs')" "cache_inv cs 0 ino'" "spends fs fs'" "same_file ino ino'"
    using bmap_cluster_calm [OF wf ch st inv cov len oth fl] unfolding c_def by blast
  have c: "FAT_START_ENT \<le> c" using file_chain_nth(1) [OF wf ch cov] by (simp add: c_def valid_clus_def)
  define n where "n = min (sec_per_clus fs - sector mod sec_per_clus fs) (lb - sector)"
  define phys where "phys = (c - FAT_START_ENT) * sec_per_clus fs + data_start fs + sector mod sec_per_clus fs"
  have same: "sec_per_clus fs' = sec_per_clus fs" "data_start fs' = data_start fs"
    using geometry_fields(17,18) [OF only_faults_inv(1) [OF spends_only_faults [OF bm(3)]]] .
  have cl: "drop_bit (cluster_bits fs - s_blocksize_bits fs) sector = sector div sec_per_clus fs" "sector AND (sec_per_clus fs - 1) = sector mod sec_per_clus fs"
    using and_exp_minus_1 [of sector k] by (simp_all add: k drop_bit_eq_div)
  have "int c \<noteq> 0" using c by (simp add: FAT_START_ENT_def)
  then have run: "fat_get_mapped_cluster others ino sector lb fs = Some (Inr (phys, n), ino', fs')"
    using bm(1) cl(2) by (simp add: fat_get_mapped_cluster_def Let_def cl(1) clus_to_blknr [OF c] same n_def phys_def)
  have "is_exceed_eof fs ino sector create = (False, lb)"
    using lb [of sector] sec by (simp add: is_exceed_eof_def Let_def drop_bit_eq_div bs(1) lb_def)
  then have "fat_bmap others ino sector create False fs = Some (Inr (phys, n), ino', fs')"
    using root run by (auto simp: fat_bmap_def)
  moreover have "0 < n" "n \<le> sec_per_clus fs - sector mod sec_per_clus fs" using lb [of sector] sec bs(3) by (simp_all add: n_def)
  moreover have "sector + n - 1 < lb" using \<open>0 < n\<close> by (simp add: n_def) linarith
  ultimately show ?thesis using bm(2-4) c lb [of "sector + n - 1"] unfolding phys_def c_def by blast
qed

text \<open>
  C31 (sectors go to their own blocks).  For a sector below the end of a file whose chain covers it, with no failing access, \<^verbatim>\<open>fat_bmap\<close> maps
  it to a block of the data area from which cluster and offset can be read off: the cluster is the one the chain has for the sector, the offset
  the sector's place in its cluster.  So different sectors of a file, and sectors of files without a common cluster, never share a block.  The mapped
  run has at least one block and ends neither behind the cluster nor behind the last block of the file; the cached runs stay right.
\<close>

theorem fat_bmap_maps:
  assumes wf: "wf_fat fs" and ch: "file_chain fs cs" and st: "i_start ino = int (hd cs)" and inv: "cache_inv cs 0 ino"
    and len: "length cs \<le> drop_bit (cluster_bits fs) (s_maxbytes fs) + 1" and oth: "keeps_cache cs others" and fl: "faults fs = []"
    and root: "is_fat32 fs \<or> \<not> i_root ino" and k: "cluster_bits fs = s_blocksize_bits fs + k" "sec_per_clus fs = 2 ^ k"
    and sec: "sector * s_blocksize fs < i_size ino" and cov: "sector div sec_per_clus fs < length cs"
  shows "\<exists>phys n ino' fs'. fat_bmap others ino sector create False fs = Some (Inr (phys, n), ino', fs') \<and> cache_inv cs 0 ino' \<and> spends fs fs' \<and>
    data_start fs \<le> phys \<and> (phys - data_start fs) div sec_per_clus fs + FAT_START_ENT = cs ! (sector div sec_per_clus fs) \<and>
    (phys - data_start fs) mod sec_per_clus fs = sector mod sec_per_clus fs \<and>
    0 < n \<and> n \<le> sec_per_clus fs - sector mod sec_per_clus fs \<and> (sector + n - 1) * s_blocksize fs < i_size ino"
proof -
  define c phys where "c = cs ! (sector div sec_per_clus fs)" and "phys = (c - FAT_START_ENT) * sec_per_clus fs + data_start fs + sector mod sec_per_clus fs"
  have pos: "0 < sec_per_clus fs" using k(2) by simp
  obtain n ino' fs' where run: "fat_bmap others ino sector create False fs = Some (Inr (phys, n), ino', fs')" "cache_inv cs 0 ino'" "spends fs fs'" "FAT_START_ENT \<le> c"
      "0 < n" "n \<le> sec_per_clus fs - sector mod sec_per_clus fs" "(sector + n - 1) * s_blocksize fs < i_size ino"
    using bmap_calm [OF wf ch st inv len oth fl root k sec cov, of create] unfolding c_def phys_def by blast
  moreover have "data_start fs \<le> phys" "(phys - data_start fs) mod sec_per_clus fs = sector mod sec_per_clus fs" by (simp_all add: phys_def)
  moreover have "(phys - data_start fs) div sec_per_clus fs + FAT_START_ENT = c" using run(4) pos by (simp add: phys_def)
  ultimately show ?thesis unfolding c_def by blast
qed

lemma ex_file_chain: "file_chain ex_file [3, 5]"
proof -
  have "ftab ex_file 3 = 5" "ftab ex_file 5 = FAT_ENT_EOF" by code_simp+
  then show ?thesis by (simp add: file_chain_def valid_clus_def FAT_START_ENT_def) (simp add: ex_file_def ex_fat12_def)
qed

definition ex_cached :: msdos_inode where
  "ex_cached = ex_inode\<lparr>cache_lru := [\<lparr>nr_contig = 0, fcluster = 1, dcluster = 5\<rparr>], nr_caches := 1, i_start := 3, i_size := 12\<rparr>"

lemma ex_cached_facts: "cache_inv [3, 5] 0 ex_cached" "i_start ex_cached = int (hd [3, 5])" "length [3, 5 :: nat] \<le> drop_bit (cluster_bits ex_file) (s_maxbytes ex_file) + 1"
    "\<not> i_root ex_cached" "cluster_bits ex_file = s_blocksize_bits ex_file + 0" "sec_per_clus ex_file = 2 ^ 0" "1 * s_blocksize ex_file < i_size ex_cached"
    "1 div sec_per_clus ex_file < length [3, 5 :: nat]" "data_start ex_file = 6"
  by (auto simp: ex_cached_def cache_inv_def run_ok_def FAT_MAX_CACHE_def ex_file_def ex_fat12_def ex_inode_def)

theorem fat_get_cluster_exact_witness:
  "\<exists>ino' fs'. fat_get_cluster (\<lambda>ino. snd (fat_cache_lookup ino 1)) ex_cached 1 ex_file = Some ((Inr 0, 1, 5), ino', fs') \<and> cache_inv [3, 5] 0 ino'"
  using fat_get_cluster_exact [OF ex_file_facts(1) ex_file_chain ex_cached_facts(2,1) _ ex_cached_facts(3) keeps_cache_lookup [of _ 1], of 1] ex_file_facts(3)
  by (auto simp: chain_at_def)

theorem fat_bmap_maps_witness:
  "\<exists>ino' fs'. fat_bmap (\<lambda>ino. snd (fat_cache_lookup ino 1)) ex_cached 1 False False ex_file = Some (Inr (9, 1), ino', fs') \<and> cache_inv [3, 5] 0 ino'"
  using fat_bmap_maps [OF ex_file_facts(1) ex_file_chain ex_cached_facts(2,1,3) keeps_cache_lookup [of _ 1] ex_file_facts(3) disjI2 [OF ex_cached_facts(4)] ex_cached_facts(5-8),
    of False]
  by (auto simp: ex_cached_facts(6,9) FAT_START_ENT_def le_Suc_eq)

subsection \<open>Adding a run while the cache is invalidated\<close>

lemma fat_cache_merge_new: "fcluster new \<notin> fcluster ` set ps \<Longrightarrow> fat_cache_merge ps new = Some (None, ps)"
  by (induction ps) auto

text \<open>
  C32 (an invalidated run can come back).  The identifier of a run is compared before the lock is dropped for the allocation and not afterwards: if the
  cache of the inode is invalidated meanwhile, as \<^verbatim>\<open>fat_free\<close> does, the run of the old chain is nevertheless put into the emptied list, under the new
  identifier.
\<close>

theorem fat_cache_add_after_inval:
  assumes "fcluster new \<noteq> - 1" and "cache_id new = FAT_CACHE_VALID \<or> cache_id new = cache_valid_id ino" and "fcluster new \<notin> fcluster ` set (cache_lru ino)"
    and "nr_caches ino < FAT_MAX_CACHE" and "faults fs = []"
  shows "\<exists>ino'. fat_cache_add fat_cache_inval_inode ino new fs = Some (ino', fs) \<and> cache_lru ino' = [run_of new] \<and> cache_valid_id ino' \<noteq> cache_valid_id ino \<and>
    (cache_id new \<noteq> FAT_CACHE_VALID \<longrightarrow> cache_id new \<noteq> cache_valid_id ino')"
  using assms by (auto simp: fat_cache_add_def fat_cache_merge_new fat_max_cache_def fat_cache_inval_inode_def Let_def FAT_CACHE_VALID_def)

theorem fat_cache_add_after_inval_witness:
  "\<exists>ino'. fat_cache_add fat_cache_inval_inode ex_cached \<lparr>nr_contig = 2, fcluster = 4, dcluster = 7, cache_id = 1\<rparr> ex_file = Some (ino', ex_file) \<and>
    length (cache_lru ino') = 1 \<and> cache_valid_id ino' \<noteq> 1"
  using fat_cache_add_after_inval [of "\<lparr>nr_contig = 2, fcluster = 4, dcluster = 7, cache_id = 1\<rparr>" ex_cached ex_file] ex_file_facts(3)
  by (auto simp: ex_cached_def ex_inode_def FAT_CACHE_VALID_def FAT_MAX_CACHE_def)

end
