(* ===== verification/Fat_File.thy ===== *)
theory Fat_File
  imports Fat_Cache
begin

text \<open>
  Growing and shrinking a file, after \<^verbatim>\<open>fat_chain_add\<close> (\<^verbatim>\<open>fat/misc.c\<close>), \<^verbatim>\<open>fat_add_cluster\<close> and \<^verbatim>\<open>__fat_get_block\<close> (\<^verbatim>\<open>fat/inode.c\<close>),
  \<^verbatim>\<open>fat_fallocate\<close>, \<^verbatim>\<open>fat_free\<close> and \<^verbatim>\<open>fat_truncate_blocks\<close> (\<^verbatim>\<open>fat/file.c\<close>).  Each function takes the inode and the file system and returns both;
  \<open>None\<close> stands for a failed \<^verbatim>\<open>BUG_ON\<close>.  The parameters are the conversion of times, the current time \<open>now\<close> and what other threads do to the inode while the
  lock of its cache is dropped.
\<close>

subsection \<open>Extending the chain\<close>

definition chain_end :: "(msdos_inode \<Rightarrow> msdos_inode) \<Rightarrow> msdos_inode \<Rightarrow> fat_fs \<Rightarrow> ((errno + int \<times> int) \<times> msdos_inode \<times> fat_fs) option" where
  "chain_end others ino fs =
     (if i_start ino \<noteq> 0
      then (case fat_get_cluster others ino (uint FAT_ENT_EOF) fs of
              None \<Rightarrow> None
            | Some ((Inl e, _, _), ino, fs) \<Rightarrow> Some (Inl e, ino, fs)
            | Some ((Inr _, fclus, dclus), ino, fs) \<Rightarrow> Some (Inr (fclus + 1, dclus), ino, fs))
      else Some (Inr (0, 0), ino, fs))"

definition chain_link :: "msdos_inode \<Rightarrow> int \<Rightarrow> int \<Rightarrow> fat_fs \<Rightarrow> (errno + unit) \<times> fat_fs" where
  "chain_link ino last_clus new_dclus fs =
     (case run_state (fat_ent_read fatent_init last_clus) fs of
        ((Inl e, _), fs) \<Rightarrow> (Inl e, fs)
      | ((Inr _, fe), fs) \<Rightarrow> run_state (fat_ent_write fe (word_of_int new_dclus) (inode_needs_sync ino)) fs)"

definition chain_first :: "(int \<Rightarrow> int \<Rightarrow> tm) \<Rightarrow> msdos_inode \<Rightarrow> int \<Rightarrow> fat_fs \<Rightarrow> (errno + unit) \<times> msdos_inode \<times> fat_fs" where
  "chain_first time64_to_tm ino new_dclus fs =
     (let ino = ino\<lparr>i_start := new_dclus, i_logstart := new_dclus\<rparr>
      in if S_ISDIR (i_mode ino) \<and> i_dirsync ino
         then (case run_state (fat_sync_inode time64_to_tm ino) fs of (r, fs) \<Rightarrow> (r, ino, fs))
         else (Inr (), mark_inode_dirty ino, fs))"

definition fat_chain_add :: "(int \<Rightarrow> int \<Rightarrow> tm) \<Rightarrow> (msdos_inode \<Rightarrow> msdos_inode) \<Rightarrow> msdos_inode \<Rightarrow> int \<Rightarrow> nat \<Rightarrow> fat_fs \<Rightarrow>
    ((errno + unit) \<times> msdos_inode \<times> fat_fs) option" where
  "fat_chain_add time64_to_tm others ino new_dclus nr_cluster fs =
     (case chain_end others ino fs of
        None \<Rightarrow> None
      | Some (Inl e, ino, fs) \<Rightarrow> Some (Inl e, ino, fs)
      | Some (Inr (new_fclus, last_clus), ino, fs) \<Rightarrow>
          (case (if last_clus \<noteq> 0 then (case chain_link ino last_clus new_dclus fs of (r, fs) \<Rightarrow> (r, ino, fs))
                 else chain_first time64_to_tm ino new_dclus fs) of
             (Inl e, ino, fs) \<Rightarrow> Some (Inl e, ino, fs)
           | (Inr _, ino, fs) \<Rightarrow>
               (let (ino, fs) = (if new_fclus \<noteq> int (drop_bit (cluster_bits fs - 9) (i_blocks ino))
                                 then (fat_cache_inval_inode ino, snd (run_state fat_fs_error fs)) else (ino, fs))
                in Some (Inr (), ino\<lparr>i_blocks := i_blocks ino + push_bit (cluster_bits fs - 9) nr_cluster\<rparr>, fs))))"

definition fat_add_cluster :: "(int \<Rightarrow> int \<Rightarrow> tm) \<Rightarrow> (msdos_inode \<Rightarrow> msdos_inode) \<Rightarrow> msdos_inode \<Rightarrow> fat_fs \<Rightarrow>
    ((errno + unit) \<times> msdos_inode \<times> fat_fs) option" where
  "fat_add_cluster time64_to_tm others ino fs =
     (case fat_alloc_clusters 1 (inode_needs_sync ino) fs of
        None \<Rightarrow> None
      | Some (Inl e, _, fs) \<Rightarrow> Some (Inl e, ino, fs)
      | Some (Inr _, cl, fs) \<Rightarrow>
          (case fat_chain_add time64_to_tm others ino (int (cl ! 0)) 1 fs of
             None \<Rightarrow> None
           | Some (Inr _, ino, fs) \<Rightarrow> Some (Inr (), ino, fs)
           | Some (Inl e, ino, fs) \<Rightarrow>
               (case fat_free_clusters (int (cl ! 0)) fs of
                  None \<Rightarrow> None
                | Some (_, fs) \<Rightarrow> Some (Inl e, ino, fs))))"

text \<open>The result is the block mapped, if any, with the number of blocks and whether it is new.\<close>

definition get_block :: "(int \<Rightarrow> int \<Rightarrow> tm) \<Rightarrow> (msdos_inode \<Rightarrow> msdos_inode) \<Rightarrow> msdos_inode \<Rightarrow> nat \<Rightarrow> nat \<Rightarrow> bool \<Rightarrow> fat_fs \<Rightarrow>
    ((errno + (nat \<times> bool) option \<times> nat) \<times> msdos_inode \<times> fat_fs) option" where
  "get_block time64_to_tm others ino iblock max_blocks create fs =
     (case fat_bmap others ino iblock create False fs of
        None \<Rightarrow> None
      | Some (Inl e, ino, fs) \<Rightarrow> Some (Inl e, ino, fs)
      | Some (Inr (phys, mapped_blocks), ino, fs) \<Rightarrow>
          if phys \<noteq> 0 then Some (Inr (Some (phys, False), min mapped_blocks max_blocks), ino, fs)
          else if \<not> create then Some (Inr (None, max_blocks), ino, fs)
          else if iblock \<noteq> drop_bit (s_blocksize_bits fs) (mmu_private ino) then Some (Inl EIO, ino, snd (run_state fat_fs_error fs))
          else (let last_block = drop_bit (s_blocksize_bits fs - 9) (i_blocks ino);
                    offset = iblock AND (sec_per_clus fs - 1)
                in (case (if offset = 0 \<and> \<not> iblock < last_block then fat_add_cluster time64_to_tm others ino fs else Some (Inr (), ino, fs)) of
                      None \<Rightarrow> None
                    | Some (Inl e, ino, fs) \<Rightarrow> Some (Inl e, ino, fs)
                    | Some (Inr _, ino, fs) \<Rightarrow>
                        (let max_blocks = min (sec_per_clus fs - offset) max_blocks;
                             ino = ino\<lparr>mmu_private := mmu_private ino + push_bit (s_blocksize_bits fs) max_blocks\<rparr>
                         in (case fat_bmap others ino iblock create False fs of
                               None \<Rightarrow> None
                             | Some (Inl e, ino, fs) \<Rightarrow> Some (Inl e, ino, fs)
                             | Some (Inr (phys, mapped_blocks), ino, fs) \<Rightarrow>
                                 if phys = 0 then Some (Inl EIO, ino, snd (run_state fat_fs_error fs))
                                 else if max_blocks \<noteq> mapped_blocks then None
                                 else Some (Inr (Some (phys, True), max_blocks), ino, fs))))))"

definition fat_get_block :: "(int \<Rightarrow> int \<Rightarrow> tm) \<Rightarrow> (msdos_inode \<Rightarrow> msdos_inode) \<Rightarrow> msdos_inode \<Rightarrow> nat \<Rightarrow> nat \<Rightarrow> bool \<Rightarrow> fat_fs \<Rightarrow>
    ((errno + (nat \<times> bool) option \<times> nat) \<times> msdos_inode \<times> fat_fs) option" where
  "fat_get_block time64_to_tm others ino iblock b_size create fs =
     (case get_block time64_to_tm others ino iblock (drop_bit (s_blocksize_bits fs) b_size) create fs of
        None \<Rightarrow> None
      | Some (Inl e, ino, fs) \<Rightarrow> Some (Inl e, ino, fs)
      | Some (Inr (m, max_blocks), ino, fs) \<Rightarrow> Some (Inr (m, push_bit (s_blocksize_bits fs) max_blocks), ino, fs))"

subsection \<open>Preallocation\<close>

fun add_clusters :: "(int \<Rightarrow> int \<Rightarrow> tm) \<Rightarrow> (msdos_inode \<Rightarrow> msdos_inode) \<Rightarrow> nat \<Rightarrow> msdos_inode \<Rightarrow> fat_fs \<Rightarrow>
    ((errno + unit) \<times> msdos_inode \<times> fat_fs) option" where
  "add_clusters time64_to_tm others 0 ino fs = Some (Inr (), ino, fs)"
| "add_clusters time64_to_tm others (Suc nr_cluster) ino fs =
     (case fat_add_cluster time64_to_tm others ino fs of
        None \<Rightarrow> None
      | Some (Inl e, ino, fs) \<Rightarrow> Some (Inl e, ino, fs)
      | Some (Inr _, ino, fs) \<Rightarrow> add_clusters time64_to_tm others nr_cluster ino fs)"

definition FALLOC_FL_KEEP_SIZE :: u32 where "FALLOC_FL_KEEP_SIZE = 1"

text \<open>The branch that changes the size is \<^verbatim>\<open>fat_cont_expand\<close>, which works through the page cache; it is the argument \<open>cont_expand\<close>.  The number of clusters is an \<^verbatim>\<open>int\<close> in the source and
  unbounded here, which makes no difference for a range within the largest file.\<close>

definition fat_fallocate :: "(int \<Rightarrow> int \<Rightarrow> tm) \<Rightarrow> (msdos_inode \<Rightarrow> msdos_inode) \<Rightarrow>
    (msdos_inode \<Rightarrow> nat \<Rightarrow> fat_fs \<Rightarrow> ((errno + unit) \<times> msdos_inode \<times> fat_fs) option) \<Rightarrow> msdos_inode \<Rightarrow> u32 \<Rightarrow> nat \<Rightarrow> nat \<Rightarrow> fat_fs \<Rightarrow>
    ((errno + unit) \<times> msdos_inode \<times> fat_fs) option" where
  "fat_fallocate time64_to_tm others cont_expand ino mode offset len fs =
     (if mode AND NOT FALLOC_FL_KEEP_SIZE \<noteq> 0 then Some (Inl EOPNOTSUPP, ino, fs)
      else if \<not> S_ISREG (i_mode ino) then Some (Inl EOPNOTSUPP, ino, fs)
      else if mode AND FALLOC_FL_KEEP_SIZE \<noteq> 0
      then (let ondisksize = push_bit 9 (i_blocks ino)
            in if offset + len \<le> ondisksize then Some (Inr (), ino, fs)
               else (let mm_bytes = offset + len - ondisksize;
                         nr_cluster = drop_bit (cluster_bits fs) (mm_bytes + (2 ^ cluster_bits fs - 1))
                     in add_clusters time64_to_tm others nr_cluster ino fs))
      else if offset + len \<le> i_size ino then Some (Inr (), ino, fs)
      else cont_expand ino (offset + len) fs)"

subsection \<open>Shrinking\<close>

definition fat_free_cut :: "(msdos_inode \<Rightarrow> msdos_inode) \<Rightarrow> msdos_inode \<Rightarrow> nat \<Rightarrow> bool \<Rightarrow> fat_fs \<Rightarrow>
    ((errno + u32 option) \<times> msdos_inode \<times> fat_fs) option" where
  "fat_free_cut others ino skip wait fs =
     (case fat_get_cluster others ino (int skip - 1) fs of
        None \<Rightarrow> None
      | Some ((Inl e, _, _), ino, fs) \<Rightarrow> Some (Inl e, ino, fs)
      | Some ((Inr r, _, dclus), ino, fs) \<Rightarrow>
          if r = FAT_ENT_EOF then Some (Inr None, ino, fs)
          else (case run_state (fat_ent_read fatent_init dclus) fs of
                  ((Inl e, _), fs) \<Rightarrow> Some (Inl e, ino, fs)
                | ((Inr nr, fe), fs) \<Rightarrow>
                    if nr = FAT_ENT_EOF then Some (Inr None, ino, fs)
                    else if nr = FAT_ENT_FREE then Some (Inl EIO, ino, snd (run_state fat_fs_error fs))
                    else (case run_state (fat_ent_write fe FAT_ENT_EOF wait) fs of
                            (Inl e, fs) \<Rightarrow> Some (Inl e, ino, fs)
                          | (Inr _, fs) \<Rightarrow> Some (Inr (Some nr), ino, fs))))"

definition fat_free_rest :: "msdos_inode \<Rightarrow> nat \<Rightarrow> int \<Rightarrow> fat_fs \<Rightarrow> ((errno + unit) \<times> msdos_inode \<times> fat_fs) option" where
  "fat_free_rest ino skip free_start fs =
     (let ino = ino\<lparr>i_blocks := push_bit (cluster_bits fs - 9) skip\<rparr>
      in (case fat_free_clusters free_start fs of
            None \<Rightarrow> None
          | Some (r, fs) \<Rightarrow> Some (r, ino, fs)))"

definition fat_free :: "(int \<Rightarrow> int \<Rightarrow> tm) \<Rightarrow> (msdos_inode \<Rightarrow> msdos_inode) \<Rightarrow> timespec64 \<Rightarrow> msdos_inode \<Rightarrow> nat \<Rightarrow> fat_fs \<Rightarrow>
    ((errno + unit) \<times> msdos_inode \<times> fat_fs) option" where
  "fat_free time64_to_tm others now ino skip fs =
     (if i_start ino = 0 then Some (Inr (), ino, fs)
      else (let ino = fat_cache_inval_inode ino;
                wait = i_dirsync ino;
                start = i_start ino;
                logstart = i_logstart ino;
                ino = (if skip = 0 then ino\<lparr>i_start := 0, i_logstart := 0\<rparr> else ino);
                ino = ino\<lparr>i_attrs := i_attrs ino OR ATTR_ARCH\<rparr>;
                ino = fat_truncate_time fs now (S_CTIME OR S_MTIME) ino
            in (case (if wait then run_state (fat_sync_inode time64_to_tm ino) fs else (Inr (), fs)) of
                  (Inl e, fs) \<Rightarrow> Some (Inl e, ino\<lparr>i_start := start, i_logstart := logstart\<rparr>, fs)
                | (Inr _, fs) \<Rightarrow>
                    (let ino = (if wait then ino else mark_inode_dirty ino)
                     in if skip = 0 then fat_free_rest ino skip start fs
                        else (case fat_free_cut others ino skip wait fs of
                                None \<Rightarrow> None
                              | Some (Inl e, ino, fs) \<Rightarrow> Some (Inl e, ino, fs)
                              | Some (Inr None, ino, fs) \<Rightarrow> Some (Inr (), ino, fs)
                              | Some (Inr (Some free_start), ino, fs) \<Rightarrow> fat_free_rest ino skip (uint free_start) fs)))))"

text \<open>The final \<^verbatim>\<open>fat_flush_inodes\<close> starts write-back of buffers, which changes nothing here.\<close>

definition fat_truncate_blocks :: "(int \<Rightarrow> int \<Rightarrow> tm) \<Rightarrow> (msdos_inode \<Rightarrow> msdos_inode) \<Rightarrow> timespec64 \<Rightarrow> msdos_inode \<Rightarrow> nat \<Rightarrow> fat_fs \<Rightarrow>
    (msdos_inode \<times> fat_fs) option" where
  "fat_truncate_blocks time64_to_tm others now ino offset fs =
     (let ino = (if offset < mmu_private ino then ino\<lparr>mmu_private := offset\<rparr> else ino);
          nr_clusters = drop_bit (cluster_bits fs) (offset + (2 ^ cluster_bits fs - 1))
      in (case fat_free time64_to_tm others now ino nr_clusters fs of
            None \<Rightarrow> None
          | Some (_, ino, fs) \<Rightarrow> Some (ino, fs)))"

subsection \<open>Files\<close>

text \<open>An inode describes a chain: where it starts, its length in blocks of 512 bytes and what is cached of it.\<close>

definition file_ok :: "fat_fs \<Rightarrow> msdos_inode \<Rightarrow> nat list \<Rightarrow> bool" where
  "file_ok fs ino cs \<longleftrightarrow> (if cs = [] then i_start ino = 0 else file_chain fs cs \<and> i_start ino = int (hd cs)) \<and> cache_inv cs 0 ino \<and>
     i_blocks ino = push_bit (cluster_bits fs - 9) (length cs)"

text \<open>The directory entry of the inode is not a part of a copy of the table.\<close>

definition entry_outside :: "fat_fs \<Rightarrow> msdos_inode \<Rightarrow> bool" where
  "entry_outside fs ino \<longleftrightarrow> i_root ino \<or> i_pos ino = 0 \<or>
     (case fat_get_blknr_offset fs (i_pos ino) of (blocknr, _) \<Rightarrow> fat_start fs + fats fs * fat_length fs \<le> blocknr)"

lemma chain_join: "ns \<noteq> [] \<Longrightarrow> chain f (cs @ ns) x \<longleftrightarrow> chain f cs (of_nat (hd ns)) \<and> chain f ns x"
proof (induction cs)
  case (Cons c cs)
  then show ?case by (cases cs; cases ns) (auto simp: chain_Cons)
qed simp

lemma chain_new_end:
  assumes "chain f cs x" and "distinct cs" and "cs \<noteq> []"
  shows "chain (f(last cs := y)) cs y"
  using assms
proof (induction cs)
  case (Cons c cs)
  then show ?case
    by (cases "cs = []") (auto simp: chain_Cons dest: last_in_set)
qed simp

lemma chain_weaken:
  assumes "chain f cs x" and "\<And>c. c \<in> set cs \<Longrightarrow> c \<noteq> last cs \<Longrightarrow> g c = f c" and "distinct cs" and "cs \<noteq> []" and "g (last cs) = y"
  shows "chain g cs y"
proof -
  have "chain (f(last cs := y)) cs y" by (rule chain_new_end [OF assms(1,3,4)])
  moreover have "chain g cs y = chain (f(last cs := y)) cs y" by (rule chain_cong) (use assms(2,5) in auto)
  ultimately show ?thesis by simp
qed

lemma run_ok_append: "run_ok cs c \<Longrightarrow> run_ok (cs @ ns) c"
  by (auto simp: run_ok_def nth_append nat_less_iff)

lemma cache_inv_append: "cache_inv cs k ino \<Longrightarrow> cache_inv (cs @ ns) k ino"
  by (auto simp: cache_inv_def intro: run_ok_append)

lemma cache_inv_Nil: "cache_inv [] k ino \<Longrightarrow> cache_lru ino = []"
  by (cases "cache_lru ino") (auto simp: cache_inv_def run_ok_def)

lemma chain_length:
  assumes "wf_fat fs" and "file_chain fs cs"
  shows "int (length cs) \<le> uint FAT_ENT_EOF"
proof -
  have "set cs \<subseteq> {..<max_cluster fs}" using assms(2) by (auto simp: file_chain_def valid_clus_def)
  then have "length cs \<le> max_cluster fs"
    using distinct_card [of cs] card_mono [of "{..<max_cluster fs}" "set cs"] assms(2) by (simp add: file_chain_def)
  also have "\<dots> \<le> unat (bad_of (fatent_ops fs))" using assms(1) by (simp add: wf_fat_def)
  also have "\<dots> \<le> unat FAT_ENT_EOF" using tab.bad_range(2) [of "fatent_ops fs"] by (simp add: word_le_nat_alt word_less_nat_alt)
  finally show ?thesis unfolding uint_nat of_nat_le_iff .
qed

lemma chain_end_spec:
  assumes wf: "wf_fat fs" and ok: "file_ok fs ino cs" and len: "length cs \<le> drop_bit (cluster_bits fs) (s_maxbytes fs) + 1" and oth: "keeps_cache cs others"
  shows "\<exists>r ino' fs'. chain_end others ino fs = Some (r, ino', fs') \<and> cache_inv cs 0 ino' \<and> same_file ino ino' \<and> spends fs fs' \<and>
    (r = Inr (int (length cs), if cs = [] then 0 else int (last cs)) \<or> r = Inl EIO \<and> faults fs \<noteq> [])"
proof (cases "cs = []")
  case True
  then show ?thesis using ok spd.frame_refl by (auto simp: file_ok_def chain_end_def)
next
  case False
  then have ch: "file_chain fs cs" "i_start ino = int (hd cs)" "cache_inv cs 0 ino" using ok by (auto simp: file_ok_def)
  have p: "get_post cs (uint FAT_ENT_EOF) ino fs (fat_get_cluster others ino (uint FAT_ENT_EOF) fs)"
    by (rule get_cluster_post [OF wf ch _ len oth]) simp
  have "chain_at cs (uint FAT_ENT_EOF) = (Inr FAT_ENT_EOF, int (length cs) - 1, int (last cs))" using chain_length [OF wf ch(1)] by (simp add: chain_at_def)
  then show ?thesis
    using p False ch(2) chain_start(3) [OF ch(1)] unfolding get_post_def chain_end_def
    by (auto split: prod.splits sum.splits)
qed

subsection \<open>Writing an inode leaves the table alone\<close>

lemma raw_entry_below: "a < de \<Longrightarrow> raw_entry time64_to_tm fs ino de m a = m a"
  by (auto simp: raw_entry_def Let_def fat_set_start_def put_le16_entry_def put_le32_at_def split: prod.splits)

lemma outside_still:
  assumes wf: "wf_fat fs" and fs': "fs' = fs\<lparr>fdev := m, faults := f\<rparr>"
    and below: "\<And>a. a < (fat_start fs + fats fs * fat_length fs) * s_blocksize fs \<Longrightarrow> m a = fdev fs a" and f: "0 < fats fs"
  shows "still fs fs'" and "copies_agree fs B \<Longrightarrow> copies_agree fs' B"
proof -
  have blk: "m (b * s_blocksize fs + i) = fdev fs (b * s_blocksize fs + i)" if "b < fat_start fs + fats fs * fat_length fs" "i < s_blocksize fs" for b i
  proof (rule below)
    have "b * s_blocksize fs + i < (b + 1) * s_blocksize fs" using that(2) by simp
    also have "\<dots> \<le> (fat_start fs + fats fs * fat_length fs) * s_blocksize fs" using that(1) by (intro mult_right_mono) simp_all
    finally show "b * s_blocksize fs + i < (fat_start fs + fats fs * fat_length fs) * s_blocksize fs" .
  qed
  have "ftab fs' e = ftab fs e" if "e < max_cluster fs" for e
  proof -
    have g: "fatent_ops fs' = fatent_ops fs" "fbase fs' = fbase fs" by (simp_all add: fs' fbase_def)
    show ?thesis
      unfolding ftab_def g
    proof (rule table_get_cong)
      fix a assume "a < fbase fs + ent_offset (fatent_ops fs) e + ent_width (fatent_ops fs)"
      then have "a < (fat_start fs + 1 * fat_length fs) * s_blocksize fs"
        using entry_in_table [OF wf that] by (simp add: fbase_def distrib_right)
      also have "\<dots> \<le> (fat_start fs + fats fs * fat_length fs) * s_blocksize fs" using f by (intro mult_right_mono add_left_mono) simp_all
      finally show "fdev fs' a = fdev fs a" using below by (simp add: fs')
    qed
  qed
  then show "still fs fs'" by (simp add: still_def fs')
  have "same_copy fs' k b" if "same_copy fs k b" "k < fats fs" "in_table fs b" for k b
  proof -
    have "fat_length fs * (k + 1) \<le> fat_length fs * fats fs" using that(2) by (intro mult_left_mono) simp_all
    then have "fat_length fs * k + b < fat_start fs + fats fs * fat_length fs" "b < fat_start fs + fats fs * fat_length fs"
      using that(3) by (simp_all add: in_table_def mult.commute add.commute)
    then show ?thesis using that(1) blk by (auto simp: same_copy_def fs')
  qed
  then show "copies_agree fs' B" if "copies_agree fs B" using that by (auto simp: copies_agree_def fs' in_table_def)
qed

lemma sync_inode_run:
  "run_state (fat_sync_inode time64_to_tm ino) fs =
     (if i_root ino \<or> i_pos ino = 0 then (Inr (), fs)
      else (case fat_get_blknr_offset fs (i_pos ino) of (blocknr, offset) \<Rightarrow>
              (case run_state (sb_bread blocknr) fs of
                 (Inl _, fs) \<Rightarrow> (Inl EIO, fs)
               | (Inr _, fs) \<Rightarrow>
                   run_state (fallible EIO) (fs\<lparr>fdev := raw_entry time64_to_tm fs ino (b_data fs blocknr + 32 * offset) (fdev fs)\<rparr>))))"
  by (auto simp: fat_sync_inode_def raw_write_inode_def upd_fs_def Let_def split: prod.split sum.split)

lemma sync_inode_still:
  assumes wf: "wf_fat fs" and out: "entry_outside fs ino" and f: "0 < fats fs" and run: "run_state (fat_sync_inode time64_to_tm ino) fs = (r, fs')"
  shows "still fs fs'" and "copies_agree fs B \<Longrightarrow> copies_agree fs' B" and "faults fs = [] \<Longrightarrow> r = Inr () \<and> faults fs' = []"
proof -
  obtain blocknr offset where b: "fat_get_blknr_offset fs (i_pos ino) = (blocknr, offset)" by (metis surj_pair)
  define de where "de = b_data fs blocknr + 32 * offset"
  obtain r1 fs1 where r1: "run_state (sb_bread blocknr) fs = (r1, fs1)" by (metis surj_pair)
  have of1: "only_faults fs fs1" using keepsD [OF sb_bread_ofa r1] .
  obtain r2 fs2 where r2: "run_state (fallible EIO) (fs1\<lparr>fdev := raw_entry time64_to_tm fs1 ino de (fdev fs1)\<rparr>) = (r2, fs2)" by (metis surj_pair)
  have of2: "only_faults (fs1\<lparr>fdev := raw_entry time64_to_tm fs1 ino de (fdev fs1)\<rparr>) fs2" using keepsD [OF ofa_fallible r2] .
  have bd: "b_data fs1 blocknr = b_data fs blocknr" using of1 by (auto simp: only_faults_def b_data_def)
  show "still fs fs'" "copies_agree fs B \<Longrightarrow> copies_agree fs' B" "faults fs = [] \<Longrightarrow> r = Inr () \<and> faults fs' = []"
  proof (atomize (full), cases "i_root ino \<or> i_pos ino = 0 \<or> r1 \<noteq> Inr ()", goal_cases)
    case 1
    have "only_faults fs fs' \<and> (faults fs = [] \<longrightarrow> r = Inr () \<and> faults fs' = [])"
      using run r1 of1 1 b ofa.frame_refl by (cases r1) (auto simp: sync_inode_run sb_bread_def split: if_splits)
    then show ?case using still_only_faults copies_agree_only_faults by blast
  next
    case 2
    then have fin: "fs' = fs2" "r = r2"
      using run r1 r2 b bd by (auto simp: sync_inode_run simp flip: de_def)
    obtain g h where gh: "fs1 = fs\<lparr>faults := g\<rparr>" "fs2 = fs1\<lparr>fdev := raw_entry time64_to_tm fs1 ino de (fdev fs1), faults := h\<rparr>"
      using of1 of2 by (auto simp: only_faults_def)
    have "(fat_start fs + fats fs * fat_length fs) * s_blocksize fs \<le> de"
      using out 2 b by (simp add: entry_outside_def de_def b_data_def trans_le_add1)
    then have bl: "raw_entry time64_to_tm fs1 ino de (fdev fs1) a = fdev fs a" if "a < (fat_start fs + fats fs * fat_length fs) * s_blocksize fs" for a
      using that by (simp add: raw_entry_below gh(1))
    have e: "fs' = fs\<lparr>fdev := raw_entry time64_to_tm fs1 ino de (fdev fs1), faults := h\<rparr>" by (simp add: fin gh)
    show ?case using outside_still [OF wf e bl f] r1 r2 fin by (auto simp: sb_bread_def)
  qed
qed

subsection \<open>Linking\<close>

text \<open>Same geometry and accounting, and the table changed at most at one cluster.\<close>

definition relinked :: "fat_fs \<Rightarrow> nat \<Rightarrow> fat_fs \<Rightarrow> bool" where
  "relinked fs c fs' \<longleftrightarrow> geometry fs' = geometry fs \<and> (\<forall>e < max_cluster fs. e \<noteq> c \<longrightarrow> ftab fs' e = ftab fs e) \<and>
     free_clusters fs' = free_clusters fs \<and> prev_free fs' = prev_free fs \<and> free_clus_valid fs' = free_clus_valid fs"

lemma relinked_still: "still fs fs' \<Longrightarrow> relinked fs c fs'"
  by (simp add: relinked_def still_def)

lemma fat_ent_write_calm: "faults fs = [] \<Longrightarrow> \<exists>fs'. run_state (fat_ent_write fe v wait) fs = (Inr (), fs') \<and> faults fs' = []"
  using mirror_copies_calm [of "ent_put fe v fs"] fat_sync_bhs_calm [of "ent_put fe v fs"]
  by (auto simp: fat_ent_write_def upd_fs_def fat_mirror_bhs_def ent_put_def)

lemma ent_rewrite_spec:
  assumes wf: "wf_fat fs" and c: "valid_clus fs c" and v: "v < bad_of (fatent_ops fs) \<or> v = FAT_ENT_EOF"
    and rd: "run_state (fat_ent_read fatent_init (int c)) fs = ((Inr x, fe), fs1)" and wr: "run_state (fat_ent_write fe v wait) fs1 = (r, fs')"
  shows "relinked fs c fs'" and "ftab fs' c = v" and "r = Inr () \<Longrightarrow> copies_agree fs {} \<Longrightarrow> copies_agree fs' {}"
    and "faults fs = [] \<Longrightarrow> r = Inr () \<and> faults fs' = []"
proof -
  have ve: "fat_valid_entry fs (int c)" using c by (simp add: valid_entry_clus)
  note sp = fat_ent_read_valid [OF rd wf held_init ve]
  have g1: "geometry fs1 = geometry fs" using only_faults_inv(1) [OF sp(1)] .
  note gf = geometry_fields(6,8,11) [OF g1]
  have p: "points fs1 fe" "entry fe = c" "entry fe < max_cluster fs1" using sp(2,4) geometry_fields(12) [OF g1] c gf(1) by (auto simp: valid_clus_def)
  have wf1: "wf_fat fs1" and v1: "v < bad_of (fatent_ops fs1) \<or> v = FAT_ENT_EOF" using wf v gf by simp_all
  obtain fs2 where fs2: "only_faults (ent_put fe v fs1) fs2" "mirrors fs2 fs'" "r = Inr () \<and> copies_agree fs1 {} \<longrightarrow> copies_agree fs' {}"
    using ent_write_run [OF wf1 p(1,3) wr] by blast
  have wf2: "wf_fat fs2" using geometry_fields(11) [OF only_faults_inv(1) [OF fs2(1)]] wf1 geometry_fields(11) [OF geometry_ent_put] by simp
  have st: "still fs2 fs'" by (rule still_mirrors [OF wf2 fs2(2)])
  have t: "ftab fs' e = (if e = c then v else ftab fs e)" if "e < max_cluster fs" for e
    using ent_write_table [OF wf1 p(1) v1 fs2(1,2), of e] that gf(1) p(2) only_faults_inv(3) [OF sp(1)] by simp
  have "geometry fs' = geometry fs" using still_geometry [OF st] only_faults_inv(1) [OF fs2(1)] g1 by simp
  moreover have "free_clusters fs' = free_clusters fs" "prev_free fs' = prev_free fs" "free_clus_valid fs' = free_clus_valid fs"
    using st only_faults_inv(4-6) [OF fs2(1)] only_faults_inv(4-6) [OF sp(1)] by (simp_all add: still_def ent_put_def)
  ultimately show "relinked fs c fs'" using t by (simp add: relinked_def)
  show "ftab fs' c = v" using t c by (simp add: valid_clus_def)
  show "copies_agree fs' {}" if "r = Inr ()" "copies_agree fs {}"
    using fs2(3) that copies_agree_only_faults [OF sp(1)] by simp
  show "r = Inr () \<and> faults fs' = []" if "faults fs = []"
  proof -
    have "fs1 = fs" using fat_ent_read_calm [OF that ve, of fatent_init] rd by auto
    then show ?thesis using fat_ent_write_calm [OF that, of fe v wait] wr by auto
  qed
qed

lemma chain_link_spec:
  assumes wf: "wf_fat fs" and c: "valid_clus fs c" and d: "valid_clus fs d" and run: "chain_link ino (int c) (int d) fs = (r, fs')"
  shows "relinked fs c fs'" and "r = Inr () \<Longrightarrow> ftab fs' c = of_nat d \<and> (copies_agree fs {} \<longrightarrow> copies_agree fs' {})"
    and "faults fs = [] \<Longrightarrow> r = Inr () \<and> faults fs' = []"
proof -
  have ve: "fat_valid_entry fs (int c)" using c by (simp add: valid_entry_clus)
  obtain r1 fe fs1 where rd: "run_state (fat_ent_read fatent_init (int c)) fs = ((r1, fe), fs1)" by (metis surj_pair)
  have v: "word_of_int (int d) < bad_of (fatent_ops fs) \<or> word_of_int (int d) = FAT_ENT_EOF" using valid_small(2) [OF wf d] by simp
  show "relinked fs c fs'" "r = Inr () \<Longrightarrow> ftab fs' c = of_nat d \<and> (copies_agree fs {} \<longrightarrow> copies_agree fs' {})" "faults fs = [] \<Longrightarrow> r = Inr () \<and> faults fs' = []"
  proof (atomize (full), cases r1, goal_cases)
    case (1 e)
    then have "fs' = fs1" "r = Inl e" using run rd by (simp_all add: chain_link_def)
    moreover have "faults fs \<noteq> []" using fat_ent_read_calm [OF _ ve, of fatent_init] rd 1 by auto
    ultimately show ?case using relinked_still [OF still_only_faults [OF fat_ent_read_valid(1) [OF rd wf held_init ve]]] by simp
  next
    case (2 x)
    then have "run_state (fat_ent_write fe (word_of_int (int d)) (inode_needs_sync ino)) fs1 = (r, fs')" using run rd by (simp add: chain_link_def)
    note sp = ent_rewrite_spec [OF wf c v rd [unfolded 2] this]
    show ?case using sp by auto
  qed
qed

lemma file_chain_join:
  assumes cs: "file_chain fs cs" and ns: "file_chain fs ns" and dj: "set cs \<inter> set ns = {}" and rl: "relinked fs (last cs) fs'"
    and hd: "ftab fs' (last cs) = of_nat (hd ns)"
  shows "file_chain fs' (cs @ ns)"
proof -
  have g: "geometry fs' = geometry fs" and t: "\<And>e. e < max_cluster fs \<Longrightarrow> e \<noteq> last cs \<Longrightarrow> ftab fs' e = ftab fs e" using rl by (auto simp: relinked_def)
  have ne: "cs \<noteq> []" "ns \<noteq> []" using chain_start(1) cs ns by blast+
  have "last cs \<notin> set ns" using ne dj last_in_set by blast
  then have "chain (ftab fs') ns FAT_ENT_EOF" using ns t by (subst chain_cong [where g = "ftab fs"]) (auto simp: file_chain_def valid_clus_def)
  moreover have "chain (ftab fs') cs (of_nat (hd ns))"
    by (rule chain_weaken [of "ftab fs" cs FAT_ENT_EOF "ftab fs'"]) (use cs t ne(1) hd in \<open>auto simp: file_chain_def valid_clus_def\<close>)
  ultimately show ?thesis
    using cs ns dj ne by (auto simp: file_chain_def chain_join valid_clus_cong [OF g])
qed

text \<open>What no change of the chain touches.\<close>

definition same_entry :: "msdos_inode \<Rightarrow> msdos_inode \<Rightarrow> bool" where
  "same_entry ino ino' \<longleftrightarrow> i_pos ino' = i_pos ino \<and> i_root ino' = i_root ino \<and> i_mode ino' = i_mode ino \<and> i_size ino' = i_size ino \<and> mmu_private ino' = mmu_private ino"

lemma same_file_entry: "same_file ino ino' \<Longrightarrow> same_entry ino ino'"
  using same_file_fields [of ino ino'] by (simp add: same_entry_def)

definition add_post :: "msdos_inode \<Rightarrow> nat list \<Rightarrow> nat list \<Rightarrow> fat_fs \<Rightarrow> (errno + unit) \<Rightarrow> msdos_inode \<Rightarrow> fat_fs \<Rightarrow> bool" where
  "add_post ino cs ns fs r ino' fs' \<longleftrightarrow> same_entry ino ino' \<and> (if cs = [] then still fs fs' else relinked fs (last cs) fs') \<and>
     (r = Inr () \<longrightarrow> file_ok fs' ino' (cs @ ns) \<and> (copies_agree fs {} \<longrightarrow> copies_agree fs' {})) \<and> (faults fs = [] \<longrightarrow> r = Inr () \<and> faults fs' = [])"

lemma push_bit_length: "push_bit k (length cs) + push_bit k (length ns) = push_bit k (length (cs @ ns))"
  by (simp add: push_bit_eq_mult distrib_right)

lemma drop_push [simp]: "drop_bit k (push_bit k (n :: nat)) = n"
  by (simp add: drop_bit_eq_div push_bit_eq_mult)

lemma relinked_pre:
  assumes "only_faults fs fs1" and "relinked fs1 c fs'"
  shows "relinked fs c fs'"
  using assms(2) geometry_fields(6) [OF only_faults_inv(1) [OF assms(1)]] unfolding relinked_def only_faults_inv [OF assms(1)] by simp

lemma cluster_bits_relinked: "relinked fs c fs' \<Longrightarrow> cluster_bits fs' = cluster_bits fs"
  unfolding relinked_def by (elim conjE) (rule geometry_fields(15))

lemma chain_first_spec:
  assumes wf: "wf_fat fs" and ns: "file_chain fs ns" and out: "entry_outside fs ino" and f: "0 < fats fs" and inv: "cache_inv [] 0 ino" and blk: "i_blocks ino = 0"
    and run: "chain_first time64_to_tm ino (int (hd ns)) fs = (r, ino', fs')"
  shows "still fs fs'" and "i_blocks ino' = 0" and "file_chain fs' ns \<and> i_start ino' = int (hd ns) \<and> cache_inv ns 0 ino'"
    and "copies_agree fs {} \<Longrightarrow> copies_agree fs' {}" and "faults fs = [] \<Longrightarrow> r = Inr () \<and> faults fs' = []" and "same_entry ino ino'"
proof -
  let ?ino = "ino\<lparr>i_start := int (hd ns), i_logstart := int (hd ns)\<rparr>"
  have out': "entry_outside fs ?ino" using out by (simp add: entry_outside_def)
  have i: "cache_inv ns 0 ?ino" "cache_inv ns 0 (mark_inode_dirty ?ino)"
    using cache_inv_append [OF inv, of ns] by (simp_all add: cache_inv_def mark_inode_dirty_def)
  obtain r1 fs1 where r1: "run_state (fat_sync_inode time64_to_tm ?ino) fs = (r1, fs1)" by (metis surj_pair)
  note sp = sync_inode_still [OF wf out' f r1]
  have st0: "still fs fs" by (simp add: still_def)
  have *: "still fs fs' \<and> i_blocks ino' = 0 \<and> i_start ino' = int (hd ns) \<and> cache_inv ns 0 ino' \<and> (copies_agree fs {} \<longrightarrow> copies_agree fs' {}) \<and>
      (faults fs = [] \<longrightarrow> r = Inr () \<and> faults fs' = [])"
    using run r1 sp blk i st0 by (auto simp: chain_first_def Let_def mark_inode_dirty_def split: if_splits)
  then show "still fs fs'" "i_blocks ino' = 0" "copies_agree fs {} \<Longrightarrow> copies_agree fs' {}" "faults fs = [] \<Longrightarrow> r = Inr () \<and> faults fs' = []" by auto
  show "same_entry ino ino'" using run by (auto simp: chain_first_def Let_def mark_inode_dirty_def same_entry_def split: if_splits prod.splits)
  show "file_chain fs' ns \<and> i_start ino' = int (hd ns) \<and> cache_inv ns 0 ino'" using * ns file_chain_cong [of fs fs'] by simp
qed

lemma chain_add_spec:
  assumes wf: "wf_fat fs" and ok: "file_ok fs ino cs" and ns: "file_chain fs ns" and dj: "set cs \<inter> set ns = {}"
    and len: "length cs \<le> drop_bit (cluster_bits fs) (s_maxbytes fs) + 1" and oth: "keeps_cache cs others"
    and out: "entry_outside fs ino" and f: "0 < fats fs"
  shows "\<exists>r ino' fs'. fat_chain_add time64_to_tm others ino (int (hd ns)) (length ns) fs = Some (r, ino', fs') \<and> add_post ino cs ns fs r ino' fs'"
proof -
  obtain r1 ino1 fs1 where e: "chain_end others ino fs = Some (r1, ino1, fs1)" "cache_inv cs 0 ino1" "same_file ino ino1" "spends fs fs1"
      "r1 = Inr (int (length cs), if cs = [] then 0 else int (last cs)) \<or> r1 = Inl EIO \<and> faults fs \<noteq> []"
    using chain_end_spec [OF wf ok len oth] by blast
  note of1 = spends_only_faults [OF e(4)]
  note sf = same_file_fields [OF e(3)] and st1 = still_only_faults [OF of1]
  have se: "same_entry ino ino1" by (rule same_file_entry [OF e(3)])
  have g1: "geometry fs1 = geometry fs" by (rule still_geometry [OF st1])
  have fa: "faults fs = [] \<Longrightarrow> fs1 = fs" using e(4) by (simp add: spends_def)
  have wf1: "wf_fat fs1" and f1: "0 < fats fs1" using geometry_fields(7,11) [OF g1] wf f by simp_all
  have ns1: "file_chain fs1 ns" using file_chain_cong [OF st1] ns by simp
  show ?thesis
  proof (cases r1)
    case (Inl err)
    then show ?thesis using e st1 se relinked_still [OF st1] by (auto simp: fat_chain_add_def add_post_def)
  next
    case Inr1: (Inr x)
    then have x: "x = (int (length cs), if cs = [] then 0 else int (last cs))" using e(5) by simp
    have blk: "i_blocks ino1 = push_bit (cluster_bits fs - 9) (length cs)" using ok sf(2) by (simp add: file_ok_def)
    show ?thesis
    proof (cases "cs = []")
      case True
      obtain r2 ino2 fs2 where r2: "chain_first time64_to_tm ino1 (int (hd ns)) fs1 = (r2, ino2, fs2)" by (metis prod_cases3)
      have out1: "entry_outside fs1 ino1"
        using out geometry_fields(4,5,7,21) [OF g1] sf(3,4) by (simp add: entry_outside_def fat_get_blknr_offset_def)
      have bl0: "i_blocks ino1 = 0" using blk True by simp
      note cf = chain_first_spec [OF wf1 ns1 out1 f1 e(2) [unfolded True] bl0 r2]
      have cb: "cluster_bits fs2 = cluster_bits fs" using geometry_fields(15) [OF still_geometry [OF cf(1)]] geometry_fields(15) [OF g1] by simp
      define ino3 where "ino3 = ino2\<lparr>i_blocks := push_bit (cluster_bits fs - 9) (length ns)\<rparr>"
      have "file_ok fs2 ino3 (cs @ ns)"
        using cf(3) chain_start(1) [OF ns] cb True by (auto simp: file_ok_def ino3_def cache_inv_def)
      moreover have "fat_chain_add time64_to_tm others ino (int (hd ns)) (length ns) fs = Some (case r2 of Inl err \<Rightarrow> (Inl err, ino2, fs2) | Inr _ \<Rightarrow> (Inr (), ino3, fs2))"
        using e(1) Inr1 x True r2 cf(2) cb by (simp add: fat_chain_add_def ino3_def split: sum.split)
      moreover have "copies_agree fs {} \<longrightarrow> copies_agree fs2 {}" using cf(4) copies_agree_only_faults [OF of1] by simp
      moreover have "faults fs = [] \<longrightarrow> r2 = Inr () \<and> faults fs2 = []" using cf(5) fa by auto
      ultimately show ?thesis using still_trans [OF st1 cf(1)] True se cf(6) by (cases r2) (auto simp: add_post_def same_entry_def ino3_def)
    next
      case False
      then have cs: "file_chain fs cs" "i_start ino = int (hd cs)" using ok by (auto simp: file_ok_def)
      have cs1: "file_chain fs1 cs" using file_chain_cong [OF st1] cs(1) by simp
      have v: "valid_clus fs1 (last cs)" "valid_clus fs1 (hd ns)"
        using cs1 False chain_start(2) [OF ns1] last_in_set [OF False] by (simp_all add: file_chain_def)
      then have l0: "last cs \<noteq> 0" by (simp add: valid_clus_def FAT_START_ENT_def)
      obtain r2 fs2 where r2: "chain_link ino1 (int (last cs)) (int (hd ns)) fs1 = (r2, fs2)" by (metis surj_pair)
      note cl = chain_link_spec [OF wf1 v r2]
      have rl: "relinked fs (last cs) fs2" by (rule relinked_pre [OF of1 cl(1)])
      have cb: "cluster_bits fs2 = cluster_bits fs" by (rule cluster_bits_relinked [OF rl])
      define ino3 where "ino3 = ino1\<lparr>i_blocks := i_blocks ino1 + push_bit (cluster_bits fs - 9) (length ns)\<rparr>"
      have "file_ok fs2 ino3 (cs @ ns)" if "r2 = Inr ()"
        using file_chain_join [OF cs1 ns1 dj cl(1)] cl(2) [OF that] False cb cs(2) sf(1) cache_inv_append [OF e(2), of ns] blk
        by (simp add: file_ok_def ino3_def cache_inv_def push_bit_length)
      moreover have "fat_chain_add time64_to_tm others ino (int (hd ns)) (length ns) fs = Some (case r2 of Inl err \<Rightarrow> (Inl err, ino1, fs2) | Inr _ \<Rightarrow> (Inr (), ino3, fs2))"
        using e(1) Inr1 x False l0 r2 cb blk by (simp add: fat_chain_add_def ino3_def split: sum.split)
      moreover have "copies_agree fs {} \<longrightarrow> copies_agree fs2 {}" if "r2 = Inr ()" using cl(2) [OF that] copies_agree_only_faults [OF of1] by simp
      moreover have "faults fs = [] \<longrightarrow> r2 = Inr () \<and> faults fs2 = []" using cl(3) fa by auto
      ultimately show ?thesis using rl False se by (cases r2) (auto simp: add_post_def same_entry_def ino3_def)
    qed
  qed
qed

end
