(* ===== verification/Fat_Resize.thy ===== *)
theory Fat_Resize
  imports Fat_File
begin

text \<open>
  What growing and shrinking a file do to its chain: \<^verbatim>\<open>fat_add_cluster\<close> appends one free cluster, \<^verbatim>\<open>fat_fallocate\<close> appends as many as the range needs, \<^verbatim>\<open>fat_free\<close> and
  \<^verbatim>\<open>fat_truncate_blocks\<close> cut the chain and free the rest.
\<close>

subsection \<open>Growing\<close>

lemma file_chain_alloc:
  assumes wf: "wf_fat fs" and cs: "file_chain fs cs" and g: "geometry fs' = geometry fs" and cl: "set cl \<subseteq> free_set fs"
    and t: "\<forall>e < max_cluster fs. e \<notin> set cl \<longrightarrow> ftab fs' e = ftab fs e"
  shows "set cs \<inter> set cl = {}" and "file_chain fs' cs"
proof -
  have u: "ftab fs c \<noteq> FAT_ENT_FREE" if "c \<in> set cs" for c using chain_used [OF wf _ _ that, of "ftab fs"] cs by (simp add: file_chain_def)
  then show dj: "set cs \<inter> set cl = {}" using cl by (auto simp: free_set_def)
  have "chain (ftab fs') cs FAT_ENT_EOF"
    using cs dj t by (subst chain_cong [where g = "ftab fs"]) (auto simp: file_chain_def valid_clus_def)
  then show "file_chain fs' cs" using cs by (simp add: file_chain_def valid_clus_cong [OF g])
qed

lemma file_ok_alloc:
  assumes "wf_fat fs" and "file_ok fs ino cs" and g: "geometry fs' = geometry fs" and "set cl \<subseteq> free_set fs"
    and "\<forall>e < max_cluster fs. e \<notin> set cl \<longrightarrow> ftab fs' e = ftab fs e"
  shows "set cs \<inter> set cl = {}" and "file_ok fs' ino cs"
  using assms(2) file_chain_alloc [OF assms(1) _ assms(3-5), of cs] geometry_fields(15) [OF g] by (auto simp: file_ok_def split: if_splits)

lemma free_set_relinked:
  assumes "relinked fs c fs'" and "ftab fs c \<noteq> FAT_ENT_FREE" and "ftab fs' c \<noteq> FAT_ENT_FREE"
  shows "free_set fs' = free_set fs"
proof -
  have g: "geometry fs' = geometry fs" using assms(1) by (simp add: relinked_def)
  have "ftab fs' e = FAT_ENT_FREE \<longleftrightarrow> ftab fs e = FAT_ENT_FREE" if "valid_clus fs e" for e
    using assms that by (cases "e = c") (auto simp: relinked_def valid_clus_def)
  then show ?thesis by (auto simp: free_set_def valid_clus_cong [OF g])
qed

lemma file_chain_used: "wf_fat fs \<Longrightarrow> file_chain fs cs \<Longrightarrow> c \<in> set cs \<Longrightarrow> ftab fs c \<noteq> FAT_ENT_FREE"
  using chain_used [of fs "ftab fs" cs c] by (simp add: file_chain_def)

lemma add_post_cnt:
  assumes wf: "wf_fat fs" and ok: "file_ok fs ino cs" and post: "add_post ino cs ns fs (Inr ()) ino' fs'" and c: "cnt_ok fs"
  shows "cnt_ok fs'"
proof (cases "cs = []")
  case True
  then show ?thesis using post c still_sets(2) by (auto simp: add_post_def)
next
  case False
  then have rl: "relinked fs (last cs) fs'" and ok': "file_ok fs' ino' (cs @ ns)" using post by (auto simp: add_post_def)
  have wf': "wf_fat fs'" using rl wf geometry_fields(11) [of fs' fs] by (simp add: relinked_def)
  have "ftab fs (last cs) \<noteq> FAT_ENT_FREE" using file_chain_used [OF wf, of cs "last cs"] ok False by (simp add: file_ok_def)
  moreover have "ftab fs' (last cs) \<noteq> FAT_ENT_FREE" using file_chain_used [OF wf', of "cs @ ns" "last cs"] ok' False by (simp add: file_ok_def)
  ultimately have "free_set fs' = free_set fs" by (rule free_set_relinked [OF rl])
  then show ?thesis using c rl by (simp add: cnt_ok_def relinked_def)
qed

definition grown :: "msdos_inode \<Rightarrow> nat list \<Rightarrow> fat_fs \<Rightarrow> (errno + unit) \<Rightarrow> msdos_inode \<Rightarrow> fat_fs \<Rightarrow> bool" where
  "grown ino cs fs r ino' fs' \<longleftrightarrow> same_entry ino ino' \<and> geometry fs' = geometry fs \<and> (faults fs = [] \<longrightarrow> faults fs' = []) \<and>
     (r = Inr () \<longrightarrow> (\<exists>c. c \<in> free_set fs \<and> file_ok fs' ino' (cs @ [c]) \<and> (\<forall>e < max_cluster fs. e \<notin> set (cs @ [c]) \<longrightarrow> ftab fs' e = ftab fs e)) \<and>
        prev_ok fs' \<and> (cnt_ok fs \<longrightarrow> cnt_ok fs') \<and> (copies_agree fs {} \<longrightarrow> copies_agree fs' {})) \<and>
     (faults fs = [] \<and> cnt_ok fs \<and> r \<noteq> Inr () \<longrightarrow> r = Inl ENOSPC \<and> free_set fs = {})"

lemma add_cluster_spec:
  assumes wf: "wf_fat fs" and prev: "prev_ok fs" and ok: "file_ok fs ino cs"
    and len: "length cs \<le> drop_bit (cluster_bits fs) (s_maxbytes fs) + 1" and oth: "keeps_cache cs others" and out: "entry_outside fs ino" and f: "0 < fats fs"
  shows "\<exists>r ino' fs'. fat_add_cluster time64_to_tm others ino fs = Some (r, ino', fs') \<and> grown ino cs fs r ino' fs'"
proof -
  obtain r1 cl fs1 where al: "fat_alloc_clusters 1 (inode_needs_sync ino) fs = Some (r1, cl, fs1)" and ap: "alloc_post fs 1 r1 cl fs1"
    using alloc_clusters_spec [OF wf prev, of 1 "inode_needs_sync ino"] by auto
  have g1: "geometry fs1 = geometry fs" using ap by (simp add: alloc_post_def)
  have wf1: "wf_fat fs1" using geometry_fields(11) [OF g1] wf by simp
  show ?thesis
  proof (cases r1)
    case (Inl e)
    have "faults fs = [] \<and> cnt_ok fs \<longrightarrow> e = ENOSPC \<and> free_set fs = {}" using ap Inl by (auto simp: alloc_post_def)
    then show ?thesis using al ap Inl by (simp add: fat_add_cluster_def grown_def alloc_post_def same_entry_def)
  next
    case (Inr u)
    then obtain c where c: "cl = [c]" "c \<in> free_set fs" "file_chain fs1 [c]" "\<forall>e < max_cluster fs. e \<notin> set [c] \<longrightarrow> ftab fs1 e = ftab fs e"
        "copies_agree fs {} \<longrightarrow> copies_agree fs1 {}" "prev_ok fs1" "faults fs = [] \<longrightarrow> faults fs1 = []" "cnt_ok fs \<longrightarrow> cnt_ok fs1"
      using ap by (auto simp: alloc_post_def length_Suc_conv)
    have ok1: "set cs \<inter> set [c] = {}" "file_ok fs1 ino cs" using file_ok_alloc [OF wf ok g1 _ c(4)] c(2) by simp_all
    have len1: "length cs \<le> drop_bit (cluster_bits fs1) (s_maxbytes fs1) + 1" using len geometry_fields(15,16) [OF g1] by simp
    have out1: "entry_outside fs1 ino" using out geometry_fields(4,5,7,21) [OF g1] by (simp add: entry_outside_def fat_get_blknr_offset_def)
    have f1: "0 < fats fs1" using f geometry_fields(7) [OF g1] by simp
    obtain r2 ino2 fs2 where ca: "fat_chain_add time64_to_tm others ino (int (hd [c])) (length [c]) fs1 = Some (r2, ino2, fs2)" and post: "add_post ino cs [c] fs1 r2 ino2 fs2"
      using chain_add_spec [OF wf1 ok1(2) c(3) ok1(1) len1 oth out1 f1] by blast
    have g2: "geometry fs2 = geometry fs" using post g1 still_geometry [of fs1 fs2] by (auto simp: add_post_def relinked_def split: if_splits)
    have se: "same_entry ino ino2" using post by (simp add: add_post_def)
    have m: "max_cluster fs1 = max_cluster fs" by (rule geometry_fields(6) [OF g1])
    show ?thesis
    proof (cases r2)
      case (Inl e)
      have wf2: "wf_fat fs2" using geometry_fields(11) [OF g2] wf by simp
      obtain r3 fs3 where fr: "fat_free_clusters (int c) fs2 = Some (r3, fs3)" "release_post fs2 (int c) r3 fs3" using free_clusters_spec [OF wf2] by blast
      have "geometry fs3 = geometry fs" using fr(2) g2 by (auto simp: release_post_def freed_def)
      moreover have "faults fs \<noteq> []" using Inl post c(7) by (auto simp: add_post_def)
      moreover have "fat_add_cluster time64_to_tm others ino fs = Some (Inl e, ino2, fs3)" using al Inr ca Inl fr(1) by (simp add: fat_add_cluster_def c(1))
      ultimately show ?thesis using se by (simp add: grown_def)
    next
      case Inr2: (Inr v)
      have run: "fat_add_cluster time64_to_tm others ino fs = Some (Inr (), ino2, fs2)" using al Inr ca Inr2 by (simp add: fat_add_cluster_def c(1))
      have fok: "file_ok fs2 ino2 (cs @ [c])" using post Inr2 by (simp add: add_post_def)
      have "ftab fs2 e = ftab fs e" if "e < max_cluster fs" "e \<notin> set (cs @ [c])" for e
        using post that c(4) m last_in_set [of cs] by (auto simp: add_post_def still_def relinked_def split: if_splits)
      moreover have "prev_ok fs2" using post c(6) valid_clus_cong [of fs2 fs1] by (auto simp: add_post_def prev_ok_def still_def relinked_def split: if_splits)
      moreover have "cnt_ok fs \<longrightarrow> cnt_ok fs2" using add_post_cnt [OF wf1 ok1(2), of "[c]" ino2 fs2] post Inr2 c(8) by simp
      moreover have "copies_agree fs {} \<longrightarrow> copies_agree fs2 {}" "faults fs = [] \<longrightarrow> faults fs2 = []" using post c(5,7) Inr2 by (auto simp: add_post_def)
      ultimately show ?thesis using run g2 fok c(2) se by (auto simp: grown_def)
    qed
  qed
qed

text \<open>
  C33 (a file grows by one free cluster).  For a file described by its inode, on a consistent file system, \<^verbatim>\<open>fat_add_cluster\<close> returns.  If it reports success, a cluster that was
  free is now the last of the file's chain, the inode describes the longer chain, no entry outside the chain changed, the count of free
  clusters is still exact and the copies of the table still agree.  With no failing access it succeeds unless no cluster is free.
\<close>

theorem fat_add_cluster_appends:
  assumes "wf_fat fs" and "prev_ok fs" and "file_ok fs ino cs" and "length cs \<le> drop_bit (cluster_bits fs) (s_maxbytes fs) + 1"
    and "keeps_cache cs others" and "entry_outside fs ino" and "0 < fats fs" and "cnt_ok fs" and "copies_agree fs {}"
  shows "\<exists>r ino' fs'. fat_add_cluster time64_to_tm others ino fs = Some (r, ino', fs') \<and>
    (r = Inr () \<longrightarrow> (\<exists>c. c \<in> free_set fs \<and> file_ok fs' ino' (cs @ [c]) \<and> (\<forall>e < max_cluster fs. e \<notin> set (cs @ [c]) \<longrightarrow> ftab fs' e = ftab fs e)) \<and>
       cnt_ok fs' \<and> copies_agree fs' {}) \<and>
    (faults fs = [] \<and> r \<noteq> Inr () \<longrightarrow> r = Inl ENOSPC \<and> free_set fs = {})"
  using add_cluster_spec [OF assms(1-7), of time64_to_tm] assms(8,9) unfolding grown_def by blast

lemma grown_free_set:
  assumes wf: "wf_fat fs" and ok: "file_ok fs ino cs" and g: "geometry fs' = geometry fs" and ok': "file_ok fs' ino' (cs @ [c])"
    and t: "\<forall>e < max_cluster fs. e \<notin> set (cs @ [c]) \<longrightarrow> ftab fs' e = ftab fs e"
  shows "free_set fs' = free_set fs - {c}"
proof -
  have wf': "wf_fat fs'" using geometry_fields(11) [OF g] wf by simp
  have u': "ftab fs' e \<noteq> FAT_ENT_FREE" if "e \<in> set (cs @ [c])" for e using file_chain_used [OF wf' _ that] ok' by (simp add: file_ok_def)
  have u: "ftab fs e \<noteq> FAT_ENT_FREE" if "e \<in> set cs" for e using file_chain_used [OF wf _ that] ok that by (auto simp: file_ok_def split: if_splits)
  have "ftab fs' e = FAT_ENT_FREE \<longleftrightarrow> ftab fs e = FAT_ENT_FREE \<and> e \<noteq> c" if "valid_clus fs e" for e
    using u [of e] u' [of e] t that by (cases "e \<in> set (cs @ [c])") (auto simp: valid_clus_def)
  then show ?thesis by (auto simp: free_set_def valid_clus_cong [OF g])
qed

definition grown_by :: "nat \<Rightarrow> msdos_inode \<Rightarrow> nat list \<Rightarrow> fat_fs \<Rightarrow> (errno + unit) \<Rightarrow> msdos_inode \<Rightarrow> fat_fs \<Rightarrow> bool" where
  "grown_by n ino cs fs r ino' fs' \<longleftrightarrow>
     (r = Inr () \<longrightarrow> (\<exists>cl. length cl = n \<and> set cl \<subseteq> free_set fs \<and> file_ok fs' ino' (cs @ cl)) \<and> geometry fs' = geometry fs \<and> same_entry ino ino' \<and>
        cnt_ok fs' \<and> copies_agree fs' {}) \<and>
     (faults fs = [] \<and> r \<noteq> Inr () \<longrightarrow> r = Inl ENOSPC \<and> card (free_set fs) < n)"

lemma add_clusters_spec:
  assumes "wf_fat fs" and "prev_ok fs" and "file_ok fs ino cs" and "length cs + n \<le> drop_bit (cluster_bits fs) (s_maxbytes fs) + 1"
    and oth: "\<And>cs. keeps_cache cs others" and "entry_outside fs ino" and "0 < fats fs" and "cnt_ok fs" and "copies_agree fs {}"
  shows "\<exists>r ino' fs'. add_clusters time64_to_tm others n ino fs = Some (r, ino', fs') \<and> grown_by n ino cs fs r ino' fs'"
  using assms(1-4,6-)
proof (induction n arbitrary: cs ino fs)
  case 0
  then show ?case by (auto simp: grown_by_def same_entry_def)
next
  case (Suc n)
  note wf = Suc.prems(1) and ok = Suc.prems(3)
  obtain r1 ino1 fs1 where ad: "fat_add_cluster time64_to_tm others ino fs = Some (r1, ino1, fs1)" and gr: "grown ino cs fs r1 ino1 fs1"
    using add_cluster_spec [OF Suc.prems(1-3) _ oth Suc.prems(5,6), of time64_to_tm] Suc.prems(4) by auto
  show ?case
  proof (cases r1)
    case (Inl e)
    then show ?thesis using ad gr Suc.prems(7) by (auto simp: grown_by_def grown_def)
  next
    case (Inr u)
    obtain c where c: "c \<in> free_set fs" "file_ok fs1 ino1 (cs @ [c])" "\<forall>e < max_cluster fs. e \<notin> set (cs @ [c]) \<longrightarrow> ftab fs1 e = ftab fs e"
      using gr Inr by (auto simp: grown_def)
    have g: "geometry fs1 = geometry fs" "same_entry ino ino1" "prev_ok fs1" "cnt_ok fs1" "copies_agree fs1 {}" "faults fs = [] \<longrightarrow> faults fs1 = []"
      using gr Inr Suc.prems(7,8) by (auto simp: grown_def)
    have fr: "free_set fs1 = free_set fs - {c}" by (rule grown_free_set [OF wf ok g(1) c(2,3)])
    have wf1: "wf_fat fs1" and f1: "0 < fats fs1" using geometry_fields(7,11) [OF g(1)] wf Suc.prems(6) by simp_all
    have out1: "entry_outside fs1 ino1"
      using Suc.prems(5) geometry_fields(4,5,7,21) [OF g(1)] g(2) by (simp add: entry_outside_def fat_get_blknr_offset_def same_entry_def)
    have len1: "length (cs @ [c]) + n \<le> drop_bit (cluster_bits fs1) (s_maxbytes fs1) + 1" using Suc.prems(4) geometry_fields(15,16) [OF g(1)] by simp
    obtain r ino' fs' where rec: "add_clusters time64_to_tm others n ino1 fs1 = Some (r, ino', fs')" and gb: "grown_by n ino1 (cs @ [c]) fs1 r ino' fs'"
      using Suc.IH [OF wf1 g(3) c(2) len1 out1 f1 g(4,5)] by blast
    have "card (free_set fs) = Suc (card (free_set fs1))" using c(1) fr card_Suc_Diff1 [of "free_set fs" c] by simp
    moreover have "\<exists>cl'. length cl' = Suc n \<and> set cl' \<subseteq> free_set fs \<and> file_ok fs' ino' (cs @ cl')"
      if "length cl = n" "set cl \<subseteq> free_set fs1" "file_ok fs' ino' ((cs @ [c]) @ cl)" for cl
      using that c(1) fr by (intro exI [of _ "c # cl"]) auto
    ultimately have "grown_by (Suc n) ino cs fs r ino' fs'"
      using gb g(1,2,6) unfolding grown_by_def same_entry_def by auto
    then show ?thesis using ad Inr rec by simp
  qed
qed

lemma round_up: "0 < b \<Longrightarrow> x \<le> (x + (b - 1)) div b * (b :: nat)"
proof -
  assume b: "0 < b"
  define q m where "q = (x + (b - 1)) div b * b" and "m = (x + (b - 1)) mod b"
  have "q + m = x + (b - 1)" "m < b" using b by (simp_all add: q_def m_def)
  then show ?thesis unfolding q_def [symmetric] by linarith
qed

text \<open>
  C34 (preallocation covers the range).  On a consistent file system, \<^verbatim>\<open>fat_fallocate\<close> with the flag that keeps the size returns for a regular file.  If it
  reports success, the chain of the file has been extended by clusters that were free so that the file's blocks cover the requested range, the
  size is unchanged, the count of free clusters is exact and the copies of the table agree.  With no failing access it
  succeeds unless fewer clusters are free than needed.
\<close>

theorem fat_fallocate_covers:
  assumes wf: "wf_fat fs" and prev: "prev_ok fs" and ok: "file_ok fs ino cs" and reg: "S_ISREG (i_mode ino)" and cb: "9 \<le> cluster_bits fs"
    and n: "n = (offset + len - length cs * 2 ^ cluster_bits fs + (2 ^ cluster_bits fs - 1)) div 2 ^ cluster_bits fs"
    and lim: "length cs + n \<le> drop_bit (cluster_bits fs) (s_maxbytes fs) + 1" and oth: "\<And>cs. keeps_cache cs others" and out: "entry_outside fs ino" and f: "0 < fats fs"
    and cnt: "cnt_ok fs" and ag: "copies_agree fs {}"
  shows "\<exists>r ino' fs'. fat_fallocate time64_to_tm others expand ino FALLOC_FL_KEEP_SIZE offset len fs = Some (r, ino', fs') \<and>
    (r = Inr () \<longrightarrow> (\<exists>cl. length cl = n \<and> set cl \<subseteq> free_set fs \<and> file_ok fs' ino' (cs @ cl)) \<and> offset + len \<le> 512 * i_blocks ino' \<and> i_size ino' = i_size ino \<and>
       cnt_ok fs' \<and> copies_agree fs' {}) \<and>
    (faults fs = [] \<and> r \<noteq> Inr () \<longrightarrow> r = Inl ENOSPC \<and> card (free_set fs) < n)"
proof -
  have p: "(2 :: nat) ^ (cluster_bits fs - 9) * 512 = 2 ^ cluster_bits fs" using cb power_add [of "2 :: nat" "cluster_bits fs - 9" 9] by simp
  have bytes: "512 * push_bit (cluster_bits fs - 9) k = k * 2 ^ cluster_bits fs" for k :: nat
    using p by (simp add: push_bit_eq_mult)
  have od: "push_bit 9 (i_blocks ino) = length cs * 2 ^ cluster_bits fs" using ok bytes [of "length cs"] by (simp add: file_ok_def push_bit_eq_mult mult.commute)
  have flag: "FALLOC_FL_KEEP_SIZE AND NOT FALLOC_FL_KEEP_SIZE = 0" "FALLOC_FL_KEEP_SIZE AND FALLOC_FL_KEEP_SIZE \<noteq> 0" by (simp_all add: FALLOC_FL_KEEP_SIZE_def)
  obtain r ino' fs' where ad: "add_clusters time64_to_tm others n ino fs = Some (r, ino', fs')" and gb: "grown_by n ino cs fs r ino' fs'"
    using add_clusters_spec [OF wf prev ok lim oth out f cnt ag] by blast
  have need: "offset + len \<le> (length cs + n) * 2 ^ cluster_bits fs"
  proof -
    have "offset + len - length cs * 2 ^ cluster_bits fs \<le> n * 2 ^ cluster_bits fs"
      unfolding n by (rule round_up) simp
    then show ?thesis by (simp add: distrib_right)
  qed
  have run: "fat_fallocate time64_to_tm others expand ino FALLOC_FL_KEEP_SIZE offset len fs = Some (r, ino', fs')"
  proof (cases "offset + len \<le> length cs * 2 ^ cluster_bits fs")
    case True
    then have "n = 0" by (simp add: n)
    then show ?thesis using True ad flag reg od by (simp add: fat_fallocate_def)
  next
    case False
    then show ?thesis using ad flag reg od n by (simp add: fat_fallocate_def Let_def drop_bit_eq_div)
  qed
  have "offset + len \<le> 512 * i_blocks ino'" if "file_ok fs' ino' (cs @ cl)" "length cl = n" "geometry fs' = geometry fs" for cl
    using need that(1,2) geometry_fields(15) [OF that(3)] bytes [of "length cs + n"] by (simp add: file_ok_def)
  then show ?thesis using run gb unfolding grown_by_def same_entry_def by blast
qed

subsection \<open>Shrinking\<close>

lemma take_drop_chain:
  assumes cs: "file_chain fs cs" and k: "0 < k" "k < length cs"
  shows "chain (ftab fs) (take k cs) (of_nat (cs ! k))" and "chain (ftab fs) (drop k cs) FAT_ENT_EOF" and "hd (drop k cs) = cs ! k"
    and "last (take k cs) = cs ! (k - 1)"
proof -
  show hd: "hd (drop k cs) = cs ! k" using k(2) by (rule hd_drop_conv_nth)
  have "chain (ftab fs) (take k cs @ drop k cs) FAT_ENT_EOF" using cs by (simp add: file_chain_def)
  then show "chain (ftab fs) (take k cs) (of_nat (cs ! k))" "chain (ftab fs) (drop k cs) FAT_ENT_EOF"
    using k chain_join [of "drop k cs" "ftab fs" "take k cs" FAT_ENT_EOF] hd by (simp_all del: append_take_drop_id)
  have "take k cs \<noteq> []" using k by auto
  then show "last (take k cs) = cs ! (k - 1)" using k by (simp add: last_conv_nth)
qed

lemma file_chain_cut:
  assumes cs: "file_chain fs cs" and k: "0 < k" "k < length cs" and rl: "relinked fs (cs ! (k - 1)) fs'" and e: "ftab fs' (cs ! (k - 1)) = FAT_ENT_EOF"
  shows "file_chain fs' (take k cs)" and "file_chain fs' (drop k cs)"
proof -
  note td = take_drop_chain [OF cs k]
  have g: "geometry fs' = geometry fs" and t: "\<And>e. e < max_cluster fs \<Longrightarrow> e \<noteq> cs ! (k - 1) \<Longrightarrow> ftab fs' e = ftab fs e" using rl by (auto simp: relinked_def)
  have v: "\<And>c. c \<in> set cs \<Longrightarrow> valid_clus fs c" and d: "distinct cs" using cs by (auto simp: file_chain_def)
  have "chain (ftab fs') (take k cs) FAT_ENT_EOF"
    by (rule chain_weaken [OF td(1)])
      (use t v d k e td(4) set_take_subset [of k cs] in \<open>auto simp: valid_clus_def\<close>)
  then show "file_chain fs' (take k cs)" using v d k set_take_subset [of k cs] by (auto simp: file_chain_def valid_clus_cong [OF g])
  have "cs ! (k - 1) \<in> set (take k cs)" using k nth_mem [of "k - 1" "take k cs"] by simp
  then have "cs ! (k - 1) \<notin> set (drop k cs)" using set_take_disj_set_drop_if_distinct [OF d, of k k] by auto
  then have "chain (ftab fs') (drop k cs) FAT_ENT_EOF"
    using td(2) t v set_drop_subset [of k cs] by (subst chain_cong [where g = "ftab fs"]) (auto simp: valid_clus_def)
  then show "file_chain fs' (drop k cs)" using v d k set_drop_subset [of k cs] by (auto simp: file_chain_def valid_clus_cong [OF g])
qed

lemma free_cut_calm:
  assumes wf: "wf_fat fs" and cs: "file_chain fs cs" and st: "i_start ino = int (hd cs)" and inv: "cache_inv (take k cs) 0 ino" and k: "0 < k"
    and len: "length cs \<le> drop_bit (cluster_bits fs) (s_maxbytes fs) + 1" and oth: "keeps_cache (take k cs) others" and fa: "faults fs = []"
  shows "\<exists>ino' fs' r. fat_free_cut others ino k wait fs = Some (Inr r, ino', fs') \<and> cache_inv (take k cs) 0 ino' \<and> same_file ino ino' \<and> faults fs' = [] \<and>
    (copies_agree fs {} \<longrightarrow> copies_agree fs' {}) \<and>
    (if k < length cs then r = Some (of_nat (cs ! k)) \<and> relinked fs (cs ! (k - 1)) fs' \<and> ftab fs' (cs ! (k - 1)) = FAT_ENT_EOF else r = None \<and> fs' = fs)"
proof -
  have ne: "cs \<noteq> []" "take k cs \<noteq> []" using cs k by (auto simp: file_chain_def)
  have w: "walk fs (int k - 1) (take k cs)"
  proof (cases "k < length cs")
    case True
    then show ?thesis using take_drop_chain(1) [OF cs k True] cs set_take_subset [of k cs] ne by (auto simp: walk_def file_chain_def)
  next
    case False
    then show ?thesis using file_chain_walk [OF cs] by simp
  qed
  have hd: "hd (take k cs) = hd cs" using k by simp
  have "get_post (take k cs) (int k - 1) ino fs (fat_get_cluster others ino (int k - 1) fs)"
    by (rule get_cluster_walk [OF wf w _ inv _ _ oth]) (use st hd k len in simp_all)
  then obtain ino' fs1 where gc: "fat_get_cluster others ino (int k - 1) fs = Some (chain_at (take k cs) (int k - 1), ino', fs1)"
      "cache_inv (take k cs) 0 ino'" "same_file ino ino'" "spends fs fs1" using fa by (auto simp: get_post_def)
  have fs1: "fs1 = fs" using gc(4) fa by (simp add: spends_def)
  show ?thesis
  proof (cases "k \<le> length cs")
    case False
    then have "chain_at (take k cs) (int k - 1) = (Inr FAT_ENT_EOF, int (length cs) - 1, int (last cs))" by (simp add: chain_at_def)
    then show ?thesis using gc fs1 False fa by (simp add: fat_free_cut_def)
  next
    case True
    define c where "c = cs ! (k - 1)"
    have "chain_at (take k cs) (int k - 1) = (Inr 0, int k - 1, int (cs ! (k - 1)))" using True k by (simp add: chain_at_def nat_diff_distrib)
    moreover have z: "(0 :: u32) \<noteq> FAT_ENT_EOF" by (simp add: fat_consts)
    ultimately have unf: "fat_free_cut others ino k wait fs = (case run_state (fat_ent_read fatent_init (int c)) fs of
        ((Inl e, _), fs) \<Rightarrow> Some (Inl e, ino', fs)
      | ((Inr nr, fe), fs) \<Rightarrow> if nr = FAT_ENT_EOF then Some (Inr None, ino', fs)
          else if nr = FAT_ENT_FREE then Some (Inl EIO, ino', snd (run_state fat_fs_error fs))
          else (case run_state (fat_ent_write fe FAT_ENT_EOF wait) fs of (Inl e, fs) \<Rightarrow> Some (Inl e, ino', fs) | (Inr _, fs) \<Rightarrow> Some (Inr (Some nr), ino', fs)))"
      using gc(1) fs1 by (simp add: fat_free_cut_def c_def)
    have n: "k - 1 < length cs" using True k by simp
    note nth = file_chain_nth [OF wf cs n]
    have vc: "valid_clus fs c" "fat_valid_entry fs (int c)" using nth(1) by (simp_all add: c_def valid_entry_clus)
    obtain x fe where rd: "run_state (fat_ent_read fatent_init (int c)) fs = ((Inr x, fe), fs)" using fat_ent_read_calm [OF fa vc(2)] by blast
    have x: "x = (if k < length cs then of_nat (cs ! k) else FAT_ENT_EOF)"
      using fat_ent_read_valid(4) [OF rd wf held_init vc(2)] nth(2) k by (simp add: c_def)
    show ?thesis
    proof (cases "k < length cs")
      case False
      then show ?thesis using unf rd x gc(2,3) fa by simp
    next
      case less: True
      obtain r fs2 where wr: "run_state (fat_ent_write fe FAT_ENT_EOF wait) fs = (r, fs2)" by (metis surj_pair)
      note sp = ent_rewrite_spec [OF wf vc(1) disjI2 [OF refl] rd wr]
      have "valid_clus fs (cs ! k)" using cs less by (simp add: file_chain_def)
      note vs = valid_small(3,4) [OF wf this]
      have "fat_free_cut others ino k wait fs = Some (Inr (Some (of_nat (cs ! k))), ino', fs2)" using unf rd wr x less vs sp(4) [OF fa] by simp
      then show ?thesis using sp fa gc(2,3) less by (simp add: c_def)
    qed
  qed
qed

lemma free_rest_calm:
  assumes wf: "wf_fat fs" and ds: "file_chain fs ds" and fa: "faults fs = []" and cnt: "cnt_ok fs" and ag: "copies_agree fs {}"
  shows "\<exists>fs'. fat_free_rest ino k (int (hd ds)) fs = Some (Inr (), ino\<lparr>i_blocks := push_bit (cluster_bits fs - 9) k\<rparr>, fs') \<and> freed fs ds fs' \<and> cnt_ok fs' \<and>
    copies_agree fs' {}"
proof -
  obtain r fs' where fr: "fat_free_clusters (int (hd ds)) fs = Some (r, fs')" "release_post fs (int (hd ds)) r fs'" using free_clusters_spec [OF wf] by blast
  have r: "r = Inr ()" using fr(2) fa ds unfolding release_post_def by blast
  then obtain es where es: "freed fs es fs'" "file_chain fs es" "hd es = hd ds" "copies_agree fs' {}" using fr(2) ag by (auto simp: release_post_def)
  have "es = ds" by (rule chain_unique [OF wf es(2) ds es(3)])
  then show ?thesis using fr(1) r es cnt by (auto simp: fat_free_rest_def freed_def)
qed

lemma same_entry_trans: "same_entry ino ino1 \<Longrightarrow> same_entry ino1 ino2 \<Longrightarrow> same_entry ino ino2"
  by (simp add: same_entry_def)

definition shrunk :: "nat \<Rightarrow> nat list \<Rightarrow> msdos_inode \<Rightarrow> fat_fs \<Rightarrow> msdos_inode \<Rightarrow> fat_fs \<Rightarrow> bool" where
  "shrunk k cs ino fs ino' fs' \<longleftrightarrow> same_entry ino ino' \<and> geometry fs' = geometry fs \<and> file_ok fs' ino' (take k cs) \<and> free_set fs' = free_set fs \<union> set (drop k cs) \<and>
     (\<forall>e < max_cluster fs. e \<notin> set cs \<longrightarrow> ftab fs' e = ftab fs e) \<and> cnt_ok fs' \<and> copies_agree fs' {}"

lemma freed_free_set:
  assumes fr: "freed fs ds fs'"
  shows "free_set fs' = free_set fs \<union> set ds"
proof -
  have "ftab fs' e = FAT_ENT_FREE \<longleftrightarrow> ftab fs e = FAT_ENT_FREE \<or> e \<in> set ds" if "valid_clus fs e" for e
    using fr that by (simp add: freed_def valid_clus_def)
  moreover have "\<forall>e \<in> set ds. valid_clus fs e" using fr by (auto simp: freed_def used_set_def)
  ultimately show ?thesis unfolding free_set_def valid_clus_cong [OF freed_geometry [OF fr]] by blast
qed

lemma free_all_shrunk:
  assumes wf: "wf_fat fs" and cs: "file_chain fs cs" and fr: "freed fs cs fs'" and c: "cnt_ok fs'" "copies_agree fs' {}" and i: "cache_inv [] 0 ino" "i_start ino = 0"
  shows "shrunk 0 cs ino fs (ino\<lparr>i_blocks := push_bit (cluster_bits fs - 9) 0\<rparr>) fs'"
  using freed_free_set [OF fr] fr c i by (auto simp: shrunk_def file_ok_def cache_inv_def freed_def same_entry_def)

lemma cut_shrunk:
  assumes wf: "wf_fat fs" and cs: "file_chain fs cs" and k: "0 < k" "k < length cs" and rl: "relinked fs (cs ! (k - 1)) fs1" and e: "ftab fs1 (cs ! (k - 1)) = FAT_ENT_EOF"
    and fr: "freed fs1 (drop k cs) fs'" and c: "cnt_ok fs'" "copies_agree fs' {}" and i: "cache_inv (take k cs) 0 ino" "i_start ino = int (hd cs)"
  shows "shrunk k cs ino fs (ino\<lparr>i_blocks := push_bit (cluster_bits fs1 - 9) k\<rparr>) fs'"
proof -
  note cut = file_chain_cut [OF cs k rl e]
  have m: "max_cluster fs1 = max_cluster fs" and g: "geometry fs' = geometry fs1" using rl geometry_fields(6) [of fs1 fs] fr by (auto simp: relinked_def freed_def)
  have d: "distinct cs" using cs by (simp add: file_chain_def)
  have dj: "set (take k cs) \<inter> set (drop k cs) = {}" using set_take_disj_set_drop_if_distinct [OF d, of k k] by simp
  have cl: "cs ! (k - 1) \<in> set cs" using k by simp
  have "chain (ftab fs') (take k cs) FAT_ENT_EOF"
    using cut(1) dj fr by (subst chain_cong [where g = "ftab fs1"]) (auto simp: file_chain_def freed_def valid_clus_def)
  then have "file_chain fs' (take k cs)" using cut(1) by (simp add: file_chain_def valid_clus_cong [OF g])
  moreover have "push_bit (cluster_bits fs1 - 9) k = push_bit (cluster_bits fs' - 9) (length (take k cs))" using geometry_fields(15) [OF g] k by simp
  moreover have "ftab fs (cs ! (k - 1)) \<noteq> FAT_ENT_FREE" using file_chain_used [OF wf cs cl] .
  then have "free_set fs1 = free_set fs" using e by (intro free_set_relinked [OF rl]) (simp_all add: fat_consts)
  moreover have "ftab fs' x = ftab fs x" if "x < max_cluster fs" "x \<notin> set cs" for x
    using that fr rl cl m set_drop_subset [of k cs] by (auto simp: freed_def relinked_def)
  moreover have "geometry fs' = geometry fs" using g rl by (simp add: relinked_def)
  ultimately show ?thesis
    using freed_free_set [OF fr] c i k by (auto simp: shrunk_def file_ok_def cache_inv_def same_entry_def)
qed

lemma cnt_relinked: "relinked fs c fs' \<Longrightarrow> free_set fs' = free_set fs \<Longrightarrow> cnt_ok fs \<Longrightarrow> cnt_ok fs'"
  by (simp add: cnt_ok_def relinked_def)

lemma shrunk_entry: "same_entry ino ino1 \<Longrightarrow> shrunk k cs ino1 fs ino' fs' \<Longrightarrow> shrunk k cs ino fs ino' fs'"
  using same_entry_trans by (auto simp: shrunk_def)

lemma shrunk_still: "still fs fs1 \<Longrightarrow> shrunk k cs ino fs1 ino' fs' \<Longrightarrow> shrunk k cs ino fs ino' fs'"
  using still_sets(1) [of fs fs1] geometry_fields(6) [OF still_geometry, of fs fs1] by (auto simp: shrunk_def still_def)

definition free_prep :: "fat_fs \<Rightarrow> timespec64 \<Rightarrow> msdos_inode \<Rightarrow> nat \<Rightarrow> msdos_inode" where
  "free_prep fs now ino k =
     (let ino = fat_cache_inval_inode ino;
          ino = (if k = 0 then ino\<lparr>i_start := 0, i_logstart := 0\<rparr> else ino);
          ino = ino\<lparr>i_attrs := i_attrs ino OR ATTR_ARCH\<rparr>
      in fat_truncate_time fs now (S_CTIME OR S_MTIME) ino)"

lemma free_prep_fields:
  assumes "cache_inv cs 0 ino"
  shows "cache_inv ds 0 (free_prep fs now ino k)" and "i_start (free_prep fs now ino k) = (if k = 0 then 0 else i_start ino)"
    and "i_blocks (free_prep fs now ino k) = i_blocks ino" and "i_pos (free_prep fs now ino k) = i_pos ino" and "i_root (free_prep fs now ino k) = i_root ino"
    and "same_entry ino (free_prep fs now ino k)"
  using assms by (simp_all add: same_entry_def free_prep_def Let_def fat_truncate_time_def fat_cache_inval_inode_def cache_inv_def)

lemma inval_fields [simp]: "i_start (fat_cache_inval_inode ino) = i_start ino" "i_logstart (fat_cache_inval_inode ino) = i_logstart ino"
    "i_dirsync (fat_cache_inval_inode ino) = i_dirsync ino"
  by (simp_all add: fat_cache_inval_inode_def Let_def)

lemma fat_free_eq:
  assumes "i_start ino \<noteq> 0"
  shows "fat_free time64_to_tm others now ino k fs =
    (case (if i_dirsync ino then run_state (fat_sync_inode time64_to_tm (free_prep fs now ino k)) fs else (Inr (), fs)) of
       (Inl e, fs') \<Rightarrow> Some (Inl e, (free_prep fs now ino k)\<lparr>i_start := i_start ino, i_logstart := i_logstart ino\<rparr>, fs')
     | (Inr _, fs') \<Rightarrow>
         (let ino' = (if i_dirsync ino then free_prep fs now ino k else mark_inode_dirty (free_prep fs now ino k))
          in if k = 0 then fat_free_rest ino' k (i_start ino) fs'
             else (case fat_free_cut others ino' k (i_dirsync ino) fs' of None \<Rightarrow> None
               | Some (Inl e, ino, fs) \<Rightarrow> Some (Inl e, ino, fs)
               | Some (Inr None, ino, fs) \<Rightarrow> Some (Inr (), ino, fs)
               | Some (Inr (Some free_start), ino, fs) \<Rightarrow> fat_free_rest ino k (uint free_start) fs)))"
  by (simp only: fat_free_def free_prep_def Let_def inval_fields assms if_False)

lemma mark_dirty_fields [simp]:
  "cache_inv cs k (mark_inode_dirty ino) = cache_inv cs k ino" "i_start (mark_inode_dirty ino) = i_start ino" "i_blocks (mark_inode_dirty ino) = i_blocks ino"
  "same_entry ino1 (mark_inode_dirty ino) = same_entry ino1 ino"
  by (simp_all add: mark_inode_dirty_def cache_inv_def same_entry_def)

lemma free_from_cut:
  assumes wf: "wf_fat fs" and cs: "file_chain fs cs" and st: "i_start ino = int (hd cs)" and inv: "cache_inv (take k cs) 0 ino" and k: "0 < k"
    and len: "length cs \<le> drop_bit (cluster_bits fs) (s_maxbytes fs) + 1" and oth: "keeps_cache (take k cs) others" and fa: "faults fs = []"
    and cnt: "cnt_ok fs" and ag: "copies_agree fs {}" and blk: "i_blocks ino = push_bit (cluster_bits fs - 9) (length cs)"
  shows "\<exists>ino' fs'. (case fat_free_cut others ino k wait fs of None \<Rightarrow> None
      | Some (Inl e, ino, fs) \<Rightarrow> Some (Inl e, ino, fs)
      | Some (Inr None, ino, fs) \<Rightarrow> Some (Inr (), ino, fs)
      | Some (Inr (Some free_start), ino, fs) \<Rightarrow> fat_free_rest ino k (uint free_start) fs) = Some (Inr (), ino', fs') \<and> shrunk k cs ino fs ino' fs'"
proof -
  obtain ino1 fs1 r where cut: "fat_free_cut others ino k wait fs = Some (Inr r, ino1, fs1)" "cache_inv (take k cs) 0 ino1" "same_file ino ino1" "faults fs1 = []"
      "copies_agree fs1 {}"
      "if k < length cs then r = Some (of_nat (cs ! k)) \<and> relinked fs (cs ! (k - 1)) fs1 \<and> ftab fs1 (cs ! (k - 1)) = FAT_ENT_EOF else r = None \<and> fs1 = fs"
    using free_cut_calm [OF wf cs st inv k len oth fa, of wait] ag by blast
  note sf = same_file_fields(1,2) [OF cut(3)]
  show ?thesis
  proof (cases "k < length cs")
    case False
    then have "shrunk k cs ino fs ino1 fs" using same_file_entry [OF cut(3)] cut(2) sf cs st blk cnt ag by (simp add: shrunk_def file_ok_def) (simp add: file_chain_def)
    then show ?thesis using cut(1,6) False by simp
  next
    case True
    then have rl: "relinked fs (cs ! (k - 1)) fs1" "ftab fs1 (cs ! (k - 1)) = FAT_ENT_EOF" "r = Some (of_nat (cs ! k))" using cut(6) by simp_all
    note ch = file_chain_cut [OF cs k True rl(1,2)]
    have hd: "hd (drop k cs) = cs ! k" using True by (rule hd_drop_conv_nth)
    have vk: "valid_clus fs (cs ! k)" and cl: "cs ! (k - 1) \<in> set cs" using cs True by (simp_all add: file_chain_def)
    have u: "uint (of_nat (cs ! k) :: u32) = int (hd (drop k cs))" using valid_small(1) [OF wf vk] hd by (metis uint_nat)
    have wf1: "wf_fat fs1" using rl(1) wf geometry_fields(11) [of fs1 fs] by (simp add: relinked_def)
    have "free_set fs1 = free_set fs" using file_chain_used [OF wf cs cl] rl(2) by (intro free_set_relinked [OF rl(1)]) (simp_all add: fat_consts)
    then have cnt1: "cnt_ok fs1" using cnt_relinked [OF rl(1)] cnt by simp
    obtain fs' where rest: "fat_free_rest ino1 k (int (hd (drop k cs))) fs1 = Some (Inr (), ino1\<lparr>i_blocks := push_bit (cluster_bits fs1 - 9) k\<rparr>, fs')"
        "freed fs1 (drop k cs) fs'" "cnt_ok fs'" "copies_agree fs' {}"
      using free_rest_calm [OF wf1 ch(2) cut(4) cnt1 cut(5)] by blast
    show ?thesis
      using cut(1) rl(3) u rest(1) shrunk_entry [OF same_file_entry [OF cut(3)] cut_shrunk [OF wf cs k True rl(1,2) rest(2-4) cut(2)]] sf(1) st by simp
  qed
qed

lemma fat_free_shrinks:
  assumes wf: "wf_fat fs" and ok: "file_ok fs ino cs" and len: "length cs \<le> drop_bit (cluster_bits fs) (s_maxbytes fs) + 1" and oth: "keeps_cache (take k cs) others"
    and out: "entry_outside fs ino" and f: "0 < fats fs" and fa: "faults fs = []" and cnt: "cnt_ok fs" and ag: "copies_agree fs {}"
  shows "\<exists>ino' fs'. fat_free time64_to_tm others now ino k fs = Some (Inr (), ino', fs') \<and> shrunk k cs ino fs ino' fs'"
proof (cases "cs = []")
  case True
  then show ?thesis using ok cnt ag by (auto simp: fat_free_def shrunk_def file_ok_def same_entry_def)
next
  case False
  then have cs: "file_chain fs cs" "i_start ino = int (hd cs)" and inv: "cache_inv cs 0 ino" and blk: "i_blocks ino = push_bit (cluster_bits fs - 9) (length cs)"
    using ok by (simp_all add: file_ok_def)
  define ino1 where "ino1 = free_prep fs now ino k"
  note fp = free_prep_fields [OF inv, where fs = fs and now = now and k = k, folded ino1_def]
  define wait where "wait = i_dirsync ino"
  obtain r fs1 where sy: "(if wait then run_state (fat_sync_inode time64_to_tm ino1) fs else (Inr (), fs)) = (r, fs1)" by (metis surj_pair)
  have out1: "entry_outside fs ino1" using out fp(4,5) by (simp add: entry_outside_def)
  have st: "still fs fs1" "copies_agree fs1 {}" "r = Inr ()" "faults fs1 = []"
    using sy sync_inode_still [OF wf out1 f, of time64_to_tm r fs1] ag fa by (auto simp: still_def split: if_splits)
  define ino2 where "ino2 = (if wait then ino1 else mark_inode_dirty ino1)"
  have i2: "cache_inv ds 0 ino2" "i_start ino2 = (if k = 0 then 0 else int (hd cs))" "i_blocks ino2 = push_bit (cluster_bits fs - 9) (length cs)" for ds
    using fp(1-3) cs(2) blk by (simp_all add: ino2_def)
  have se: "same_entry ino ino2" using fp(6) by (simp add: ino2_def)
  have unf: "fat_free time64_to_tm others now ino k fs = (if k = 0 then fat_free_rest ino2 k (int (hd cs)) fs1
      else (case fat_free_cut others ino2 k wait fs1 of None \<Rightarrow> None
        | Some (Inl e, ino, fs) \<Rightarrow> Some (Inl e, ino, fs)
        | Some (Inr None, ino, fs) \<Rightarrow> Some (Inr (), ino, fs)
        | Some (Inr (Some free_start), ino, fs) \<Rightarrow> fat_free_rest ino k (uint free_start) fs))"
    using fat_free_eq [of ino time64_to_tm others now k fs] sy st(3) cs(2) chain_start(3) [OF cs(1)] ino2_def
    unfolding ino1_def [symmetric] wait_def [symmetric] by simp
  have g: "geometry fs1 = geometry fs" by (rule still_geometry [OF st(1)])
  have wf1: "wf_fat fs1" and len1: "length cs \<le> drop_bit (cluster_bits fs1) (s_maxbytes fs1) + 1" and cb: "cluster_bits fs1 = cluster_bits fs"
    using geometry_fields(11,15,16) [OF g] wf len by simp_all
  have cs1: "file_chain fs1 cs" and cnt1: "cnt_ok fs1" using cs(1) cnt file_chain_cong [OF st(1)] still_sets(2) [OF st(1)] by simp_all
  show ?thesis
  proof (cases "k = 0")
    case True
    obtain fs' where "fat_free_rest ino2 k (int (hd cs)) fs1 = Some (Inr (), ino2\<lparr>i_blocks := push_bit (cluster_bits fs1 - 9) k\<rparr>, fs')" "freed fs1 cs fs'" "cnt_ok fs'" "copies_agree fs' {}"
      using free_rest_calm [OF wf1 cs1 st(4) cnt1 st(2)] by blast
    then show ?thesis using unf True shrunk_entry [OF se shrunk_still [OF st(1) free_all_shrunk [OF wf1 cs1]]] i2 by simp
  next
    case False
    then have "\<exists>ino' fs'. fat_free time64_to_tm others now ino k fs = Some (Inr (), ino', fs') \<and> shrunk k cs ino2 fs1 ino' fs'"
      unfolding unf if_not_P [OF False] by (intro free_from_cut [OF wf1 cs1 _ i2(1) _ len1 oth st(4) cnt1 st(2)]) (use i2 cb in simp_all)
    then show ?thesis using shrunk_entry [OF se shrunk_still [OF st(1)]] by blast
  qed
qed

text \<open>
  C35 (truncation cuts the chain).  On a consistent file system with no failing access, \<^verbatim>\<open>fat_free\<close> succeeds: the file keeps the first clusters, as many as asked for, described by
  its inode, exactly the clusters behind them become free in addition to those that were, no entry outside the file changes, the count of
  free clusters stays exact and the copies of the table stay equal.
\<close>

theorem fat_free_cuts_chain:
  assumes "wf_fat fs" and "file_ok fs ino cs" and "length cs \<le> drop_bit (cluster_bits fs) (s_maxbytes fs) + 1" and "keeps_cache (take skip cs) others"
    and "entry_outside fs ino" and "0 < fats fs" and "faults fs = []" and "cnt_ok fs" and "copies_agree fs {}"
  shows "\<exists>ino' fs'. fat_free time64_to_tm others now ino skip fs = Some (Inr (), ino', fs') \<and> file_ok fs' ino' (take skip cs) \<and>
    free_set fs' = free_set fs \<union> set (drop skip cs) \<and> (\<forall>e < max_cluster fs. e \<notin> set cs \<longrightarrow> ftab fs' e = ftab fs e) \<and> cnt_ok fs' \<and> copies_agree fs' {}"
  using fat_free_shrinks [OF assms, of time64_to_tm now] unfolding shrunk_def by blast

subsection \<open>An example\<close>

definition ex_disk :: fat_fs where
  "ex_disk = ex_fat12\<lparr>s_blocksize := 512, s_blocksize_bits := 9, fat_length := 1, cluster_bits := 9, s_maxbytes := 8192,
     fdev := (\<lambda>a. if a = 516 \<or> a = 1028 then 0x50 else if a = 519 \<or> a = 1031 then 0xf0 else if a = 520 \<or> a = 1032 then 0xff else 0), free_clusters := 6\<rparr>"

definition ex_two :: msdos_inode where
  "ex_two = ex_inode\<lparr>i_start := 3, i_logstart := 3, i_size := 1000, mmu_private := 1000, i_blocks := 2, i_pos := 0\<rparr>"

lemma ex_disk_fields: "max_cluster ex_disk = 10" "faults ex_disk = []" "cluster_bits ex_disk = 9" "s_maxbytes ex_disk = 8192" "fats ex_disk = 2" "fatent_ops ex_disk = fat12_ops"
    "fbase ex_disk = 512" "free_clusters ex_disk = 6" "prev_free ex_disk = 2"
  by (simp_all add: ex_disk_def ex_fat12_def fbase_def)

lemma ex_disk_table: "ftab ex_disk 2 = 0" "ftab ex_disk 3 = 5" "ftab ex_disk 4 = 0" "ftab ex_disk 5 = FAT_ENT_EOF" "ftab ex_disk 6 = 0" "ftab ex_disk 7 = 0"
    "ftab ex_disk 8 = 0" "ftab ex_disk 9 = 0"
  unfolding ftab_def ex_disk_fields by (simp_all add: fat12_ent_get_def ex_disk_def ex_fat12_def fat_consts)

lemma ex_disk_facts:
  "wf_fat ex_disk" "prev_ok ex_disk" "cnt_ok ex_disk" "copies_agree ex_disk {}" "file_ok ex_disk ex_two [3, 5]" "entry_outside ex_disk ex_two"
  "free_set ex_disk = {2, 4, 6, 7, 8, 9}" "S_ISREG (i_mode ex_two)" "i_size ex_two = 1000"
proof -
  show "wf_fat ex_disk" by (simp add: wf_fat_def ex_disk_def ex_fat12_def fat_consts)
  show "prev_ok ex_disk" by (simp add: prev_ok_def valid_clus_def FAT_START_ENT_def ex_disk_fields)
  have e: "e = 2 \<or> e = 3 \<or> e = 4 \<or> e = 5 \<or> e = 6 \<or> e = 7 \<or> e = 8 \<or> e = 9" if "valid_clus ex_disk e" for e
    using that by (simp add: valid_clus_def FAT_START_ENT_def ex_disk_fields) arith
  show fr: "free_set ex_disk = {2, 4, 6, 7, 8, 9}"
  proof (rule set_eqI)
    show "x \<in> free_set ex_disk \<longleftrightarrow> x \<in> {2, 4, 6, 7, 8, 9}" for x
    proof (cases "valid_clus ex_disk x")
      case True
      show ?thesis using e [OF True] True by (elim disjE) (simp_all add: free_set_def ex_disk_table fat_consts)
    next
      case False
      then show ?thesis by (auto simp: free_set_def valid_clus_def FAT_START_ENT_def ex_disk_fields)
    qed
  qed
  show "cnt_ok ex_disk" by (simp add: cnt_ok_def fr ex_disk_fields)
  show "copies_agree ex_disk {}" by (auto simp: copies_agree_def same_copy_def in_table_def ex_disk_def ex_fat12_def)
  have "file_chain ex_disk [3, 5]" by (simp add: file_chain_def ex_disk_table valid_clus_def FAT_START_ENT_def ex_disk_fields)
  then show "file_ok ex_disk ex_two [3, 5]"
    by (simp add: file_ok_def ex_two_def ex_inode_def cache_inv_def FAT_MAX_CACHE_def ex_disk_fields)
  show "entry_outside ex_disk ex_two" "S_ISREG (i_mode ex_two)" "i_size ex_two = 1000"
    by (simp_all add: entry_outside_def ex_two_def ex_inode_def S_ISREG_def mode_defs)
qed

theorem fat_add_cluster_appends_witness:
  "\<exists>ino' fs' c. fat_add_cluster ex_tm (\<lambda>ino. snd (fat_cache_lookup ino 1)) ex_two ex_disk = Some (Inr (), ino', fs') \<and> c \<in> {2, 4, 6, 7, 8, 9} \<and>
    file_ok fs' ino' [3, 5, c] \<and> copies_agree fs' {}"
  using fat_add_cluster_appends [OF ex_disk_facts(1,2,5) _ keeps_cache_lookup [of "[3, 5]" 1] ex_disk_facts(6) _ ex_disk_facts(3,4), of ex_tm]
  by (auto simp: ex_disk_facts(7) ex_disk_fields drop_bit_eq_div)

theorem fat_fallocate_covers_witness:
  "\<exists>ino' fs'. fat_fallocate ex_tm (\<lambda>ino. snd (fat_cache_lookup ino 1)) (\<lambda>ino _ fs. Some (Inr (), ino, fs)) ex_two FALLOC_FL_KEEP_SIZE 1000 1500 ex_disk = Some (Inr (), ino', fs') \<and>
    2500 \<le> 512 * i_blocks ino' \<and> i_size ino' = 1000 \<and> copies_agree fs' {}"
  using fat_fallocate_covers [OF ex_disk_facts(1,2,5,8) _ refl _ keeps_cache_lookup [of _ 1] ex_disk_facts(6) _ ex_disk_facts(3,4), of 1000 1500 ex_tm "\<lambda>ino _ fs. Some (Inr (), ino, fs)"]
  by (auto simp: ex_disk_facts(7,9) ex_disk_fields drop_bit_eq_div)

theorem fat_free_cuts_chain_witness:
  "\<exists>ino' fs'. fat_free ex_tm (\<lambda>ino. snd (fat_cache_lookup ino 1)) \<lparr>tv_sec = 0, tv_nsec = 0\<rparr> ex_two 1 ex_disk = Some (Inr (), ino', fs') \<and>
    file_ok fs' ino' [3] \<and> free_set fs' = {2, 4, 5, 6, 7, 8, 9} \<and> copies_agree fs' {}"
  using fat_free_cuts_chain [OF ex_disk_facts(1,5) _ keeps_cache_lookup [of "take 1 [3, 5]" 1] ex_disk_facts(6) _ _ ex_disk_facts(3,4), of ex_tm "\<lparr>tv_sec = 0, tv_nsec = 0\<rparr>"]
  by (auto simp: ex_disk_facts(7) ex_disk_fields drop_bit_eq_div insert_commute)

end
