(* ===== verification/Fat_Evict.thy ===== *)
theory Fat_Evict
  imports Fat_Resize
begin

text \<open>
  What happens when the kernel drops an inode from memory, after \<^verbatim>\<open>fat_free_eofblocks\<close>, \<^verbatim>\<open>fat_evict_inode\<close> and \<^verbatim>\<open>fat_detach\<close> of \<^verbatim>\<open>fat/inode.c\<close>: the clusters of an unlinked file, or the ones
  preallocated beyond the end of a linked one, are given back.  None of these functions looks at the write gate of \<open>Fat_Gate\<close>.  The page cache and the hash table of inodes are not modelled;
  \<open>nlink\<close> is the link count of the inode, and \<open>None\<close> stands for a failed \<^verbatim>\<open>BUG_ON\<close> as in \<open>Fat_File\<close>.
\<close>

subsection \<open>Definitions\<close>

definition fat_free_eofblocks :: "(int \<Rightarrow> int \<Rightarrow> tm) \<Rightarrow> (msdos_inode \<Rightarrow> msdos_inode) \<Rightarrow> timespec64 \<Rightarrow> msdos_inode \<Rightarrow> fat_fs \<Rightarrow> (msdos_inode \<times> fat_fs) option" where
  "fat_free_eofblocks time64_to_tm others now ino fs =
     (let cluster_size = 2 ^ cluster_bits fs
      in if (mmu_private ino + (cluster_size - 1)) div cluster_size * cluster_size < push_bit 9 (i_blocks ino)
         then (case fat_truncate_blocks time64_to_tm others now ino (mmu_private ino) fs of
                 None \<Rightarrow> None
               | Some (ino, fs) \<Rightarrow> Some (ino, snd (run_state (raw_write_inode time64_to_tm ino (inode_needs_sync ino)) fs)))
         else Some (ino, fs))"

definition fat_detach :: "msdos_inode \<Rightarrow> msdos_inode" where
  "fat_detach ino = ino\<lparr>i_pos := 0\<rparr>"

definition fat_evict_inode :: "(int \<Rightarrow> int \<Rightarrow> tm) \<Rightarrow> (msdos_inode \<Rightarrow> msdos_inode) \<Rightarrow> timespec64 \<Rightarrow> nat \<Rightarrow> msdos_inode \<Rightarrow> fat_fs \<Rightarrow> (msdos_inode \<times> fat_fs) option" where
  "fat_evict_inode time64_to_tm others now nlink ino fs =
     (case (if nlink = 0 then fat_truncate_blocks time64_to_tm others now (ino\<lparr>i_size := 0\<rparr>) 0 fs
            else fat_free_eofblocks time64_to_tm others now ino fs) of
        None \<Rightarrow> None
      | Some (ino, fs) \<Rightarrow> Some (fat_detach (fat_cache_inval_inode ino), fs))"

subsection \<open>Eviction gives clusters back\<close>

lemma raw_write_still:
  assumes wf: "wf_fat fs" and out: "entry_outside fs ino" and f: "0 < fats fs" and run: "run_state (raw_write_inode time64_to_tm ino wait) fs = (r, fs')"
  shows "still fs fs'" and "copies_agree fs B \<Longrightarrow> copies_agree fs' B"
proof -
  obtain r1 fs1 where sy: "run_state (fat_sync_inode time64_to_tm ino) fs = (r1, fs1)" by (metis surj_pair)
  have of: "only_faults fs' fs1"
    using run sy ofa.frame_refl keepsD [OF ofa_fallible]
    by (cases wait) (auto simp: fat_sync_inode_def raw_write_inode_def upd_fs_def Let_def split: prod.splits sum.splits if_splits)
  then have "fs' = fs1\<lparr>faults := faults fs'\<rparr>" by (auto simp: only_faults_def)
  then have of': "only_faults fs1 fs'" unfolding only_faults_def by blast
  show "still fs fs'" using still_trans [OF sync_inode_still(1) [OF wf out f sy] still_only_faults [OF of']] .
  show "copies_agree fs' B" if "copies_agree fs B"
    using copies_agree_only_faults [OF of'] sync_inode_still(2) [OF wf out f sy that] by blast
qed

lemma file_ok_fields [simp]: "file_ok fs (ino\<lparr>mmu_private := a\<rparr>) cs = file_ok fs ino cs" "file_ok fs (ino\<lparr>i_size := b\<rparr>) cs = file_ok fs ino cs"
  "entry_outside fs (ino\<lparr>mmu_private := a\<rparr>) = entry_outside fs ino" "entry_outside fs (ino\<lparr>i_size := b\<rparr>) = entry_outside fs ino"
  unfolding file_ok_def cache_inv_def entry_outside_def by simp_all

lemma truncate_shrinks:
  assumes "wf_fat fs" and ok: "file_ok fs ino cs" and "length cs \<le> drop_bit (cluster_bits fs) (s_maxbytes fs) + 1"
    and k: "k = (offset + (2 ^ cluster_bits fs - 1)) div 2 ^ cluster_bits fs" and "keeps_cache (take k cs) others"
    and out: "entry_outside fs ino" and "0 < fats fs" and "faults fs = []" and "cnt_ok fs" and "copies_agree fs {}"
  shows "\<exists>ino1 ino' fs'. fat_truncate_blocks time64_to_tm others now ino offset fs = Some (ino', fs') \<and> shrunk k cs ino1 fs ino' fs' \<and>
    i_pos ino1 = i_pos ino \<and> i_root ino1 = i_root ino"
proof -
  define ino1 where "ino1 = (if offset < mmu_private ino then ino\<lparr>mmu_private := offset\<rparr> else ino)"
  have i: "file_ok fs ino1 cs" "entry_outside fs ino1" "i_pos ino1 = i_pos ino" "i_root ino1 = i_root ino"
    using ok out by (simp_all add: ino1_def)
  obtain ino' fs' where "fat_free time64_to_tm others now ino1 k fs = Some (Inr (), ino', fs') \<and> shrunk k cs ino1 fs ino' fs'"
    using fat_free_shrinks [OF assms(1) i(1) assms(3,5) i(2) assms(7-10)] by blast
  moreover have "drop_bit (cluster_bits fs) (offset + (2 ^ cluster_bits fs - 1)) = k" unfolding k by (rule drop_bit_eq_div)
  ultimately have "fat_truncate_blocks time64_to_tm others now ino offset fs = Some (ino', fs')" "shrunk k cs ino1 fs ino' fs'"
    by (simp_all add: fat_truncate_blocks_def Let_def flip: ino1_def)
  then show ?thesis using i(3,4) by blast
qed

lemma entry_outside_cong:
  "geometry fs' = geometry fs \<Longrightarrow> i_pos ino' = i_pos ino \<Longrightarrow> i_root ino' = i_root ino \<Longrightarrow> entry_outside fs' ino' = entry_outside fs ino"
  using geometry_fields [of fs' fs] by (simp add: entry_outside_def fat_get_blknr_offset_def)

lemma blocks_clusters: "9 \<le> b \<Longrightarrow> push_bit 9 (push_bit (b - 9) n) = n * 2 ^ (b :: nat)" for n :: nat
  by (simp only: push_bit_push_bit) (simp add: push_bit_eq_mult)

text \<open>
  C36 (eviction frees what is no longer needed).  On a consistent file system with no failing access, evicting the inode of an unlinked file frees all its clusters, and evicting
  the inode of a linked one exactly those beyond its initialised size; nothing else becomes free, no entry outside the file changes, the count of free
  clusters stays exact and the copies of the table stay equal.  The state of the write gate plays no part in it.
\<close>

theorem fat_evict_frees:
  assumes wf: "wf_fat fs" and ok: "file_ok fs ino cs" and len: "length cs \<le> drop_bit (cluster_bits fs) (s_maxbytes fs) + 1"
    and k: "k = (if nlink = 0 then 0 else (mmu_private ino + (2 ^ cluster_bits fs - 1)) div 2 ^ cluster_bits fs)" and oth: "keeps_cache (take k cs) others"
    and out: "entry_outside fs ino" and f: "0 < fats fs" and fa: "faults fs = []" and cnt: "cnt_ok fs" and ag: "copies_agree fs {}" and cb: "9 \<le> cluster_bits fs"
  shows "\<exists>ino' fs'. fat_evict_inode time64_to_tm others now nlink ino fs = Some (ino', fs') \<and> free_set fs' = free_set fs \<union> set (drop k cs) \<and>
    (\<forall>e < max_cluster fs. e \<notin> set cs \<longrightarrow> ftab fs' e = ftab fs e) \<and> cnt_ok fs' \<and> copies_agree fs' {}"
proof (cases "nlink = 0")
  case True
  have "file_ok fs (ino\<lparr>i_size := 0\<rparr>) cs" "entry_outside fs (ino\<lparr>i_size := 0\<rparr>)"
    using ok out by simp_all
  moreover have "k = (0 + (2 ^ cluster_bits fs - 1)) div 2 ^ cluster_bits fs" using k True by simp
  ultimately obtain ino1 ino' fs' where "fat_truncate_blocks time64_to_tm others now (ino\<lparr>i_size := 0\<rparr>) 0 fs = Some (ino', fs')" "shrunk k cs ino1 fs ino' fs'"
    using truncate_shrinks [OF wf _ len _ oth _ f fa cnt ag] by blast
  then show ?thesis using True by (simp add: fat_evict_inode_def shrunk_def)
next
  case linked: False
  define c where "c = (2 :: nat) ^ cluster_bits fs"
  have kk: "k = (mmu_private ino + (c - 1)) div c" and c: "0 < c" using k linked by (simp_all add: c_def)
  have blk: "push_bit 9 (i_blocks ino) = length cs * c" using ok blocks_clusters [OF cb] by (simp add: file_ok_def c_def)
  have eq: "fat_free_eofblocks time64_to_tm others now ino fs = (if k * c < length cs * c
      then (case fat_truncate_blocks time64_to_tm others now ino (mmu_private ino) fs of None \<Rightarrow> None
            | Some (ino, fs) \<Rightarrow> Some (ino, snd (run_state (raw_write_inode time64_to_tm ino (inode_needs_sync ino)) fs)))
      else Some (ino, fs))"
    unfolding fat_free_eofblocks_def Let_def c_def [symmetric] kk [symmetric] blk ..
  show ?thesis
  proof (cases "k < length cs")
    case False
    then have "drop k cs = []" "\<not> k * c < length cs * c" using c by simp_all
    then show ?thesis using linked eq cnt ag by (simp add: fat_evict_inode_def)
  next
    case True
    obtain ino1 ino2 fs2 where t: "fat_truncate_blocks time64_to_tm others now ino (mmu_private ino) fs = Some (ino2, fs2)" "shrunk k cs ino1 fs ino2 fs2"
        "i_pos ino1 = i_pos ino" "i_root ino1 = i_root ino"
      using truncate_shrinks [OF wf ok len kk [unfolded c_def] oth out f fa cnt ag] by blast
    have g: "geometry fs2 = geometry fs" using t(2) by (simp add: shrunk_def)
    have out2: "entry_outside fs2 ino2" using entry_outside_cong [OF g] t(2-4) out by (simp add: shrunk_def same_entry_def)
    obtain r fs3 where w: "run_state (raw_write_inode time64_to_tm ino2 (inode_needs_sync ino2)) fs2 = (r, fs3)" by (metis surj_pair)
    have wf2: "wf_fat fs2" "0 < fats fs2" "max_cluster fs2 = max_cluster fs" using geometry_fields(6,7,11) [OF g] wf f by simp_all
    note st = raw_write_still [OF wf2(1) out2 wf2(2) w]
    have "fat_evict_inode time64_to_tm others now nlink ino fs = Some (fat_detach (fat_cache_inval_inode ino2), fs3)"
      using linked eq True c t(1) w by (simp add: fat_evict_inode_def)
    moreover have "free_set fs3 = free_set fs \<union> set (drop k cs)" "cnt_ok fs3" "copies_agree fs3 {}" "\<forall>e < max_cluster fs. e \<notin> set cs \<longrightarrow> ftab fs3 e = ftab fs e"
      using t(2) still_sets [OF st(1)] st wf2(3) by (simp_all add: shrunk_def still_def)
    ultimately show ?thesis by blast
  qed
qed

theorem fat_evict_frees_witness:
  "\<exists>ino' fs'. fat_evict_inode ex_tm (\<lambda>ino. snd (fat_cache_lookup ino 1)) \<lparr>tv_sec = 0, tv_nsec = 0\<rparr> 0 ex_two ex_disk = Some (ino', fs') \<and>
    free_set fs' = {2, 3, 4, 5, 6, 7, 8, 9} \<and> copies_agree fs' {}"
  using fat_evict_frees [where nlink = 0 and time64_to_tm = ex_tm and now = "\<lparr>tv_sec = 0, tv_nsec = 0\<rparr>",
      OF ex_disk_facts(1,5) _ refl keeps_cache_lookup [of _ 1] ex_disk_facts(6) _ _ ex_disk_facts(3,4)]
  by (auto simp: ex_disk_facts(7) ex_disk_fields drop_bit_eq_div insert_commute)

end
