(* ===== verification/Fat_Gate.thy ===== *)
theory Fat_Gate
  imports Prelude
begin

text \<open>
  The write gate: \<^verbatim>\<open>fat_begin_write\<close>, \<^verbatim>\<open>fat_end_write\<close> and \<^verbatim>\<open>fat_disable_write\<close> of \<^verbatim>\<open>fat/inode.c\<close> and the operations of \<^verbatim>\<open>fat/file.c\<close> and \<^verbatim>\<open>fat/namei_vfat.c\<close> that are bracketed by
  the first two, as steps of any number of threads on one file.  A program counter stands in front of the call or assignment its name says; a gated operation
  carries the stack of gated operations it is nested in.  Beside the gate there are the lock of the file's inode, which the callers of \<^verbatim>\<open>fat_setattr\<close> hold and
  the bodies of the writing operations take, and the lock of the mount.  \<open>cached\<close> says that a change is in memory only, \<open>volatile_cache\<close> that it may still be in the cache of the device.

  Two changes do not pass the gate.  \<^verbatim>\<open>fat_evict_inode\<close> frees the clusters of an inode without links and the clusters beyond the end of a file; \<open>doomed\<close> counts the inodes in memory for
  which it will have something to free, left behind by an unlink, a rename over a file, a removed directory or a preallocation.  \<^verbatim>\<open>fat_update_time\<close> makes an inode dirty
  when the file is read or listed.  \<open>evicted\<close> and \<open>touched\<close> remember that this has happened and may not have reached the device: a completed flush with
  nothing changed in between resets them.

  The argument \<open>fair\<close> tells whether the read-write semaphore makes a new reader wait behind a waiting writer, as the kernel's does.
\<close>

subsection \<open>Threads\<close>

datatype gated =
    Write_Iter | Page_Mkwrite | Splice_Write | File_Fallocate | Set_Attributes | Fitrim | Setattr
  | Vfat_Create | Vfat_Rmdir | Vfat_Unlink | Vfat_Mkdir | Vfat_Rename

datatype gate_pc =
    Idle
  | V_Lock
  | B_Lock "gated list"
  | B_Test "gated list"
  | B_Undo "gated list"
  | Body bool "gated list"
  | E_Unlock "gated list"
  | V_Unlock
  | D_Lock | D_Set | D_Umount | D_Sync | D_Flush | D_Up bool | D_Clear | D_Unlock bool

record gate =
  readers :: "nat \<Rightarrow> nat"
  gate_owner :: "nat option"
  write_blocked :: bool
  s_umount :: "nat option"
  inode_owner :: "nat option"
  pcs :: "nat \<Rightarrow> gate_pc"
  cached :: bool
  volatile_cache :: bool
  doomed :: nat
  evicted :: bool
  touched :: bool

definition gate_init :: gate where
  "gate_init = \<lparr>readers = (\<lambda>_. 0), gate_owner = None, write_blocked = False, s_umount = None, inode_owner = None, pcs = (\<lambda>_. Idle), cached = False, volatile_cache = False,
     doomed = 0, evicted = False, touched = False\<rparr>"

text \<open>
  Operations whose body takes the lock of the file's inode before it changes anything.  \<^verbatim>\<open>fat_fallocate\<close> and \<^verbatim>\<open>fat_ioctl_set_attributes\<close> can also return before they take it
  (an unsupported mode, an argument that cannot be read); \<^verbatim>\<open>generic_file_write_iter\<close> takes it first.
\<close>

definition body_locks :: "gated \<Rightarrow> bool" where
  "body_locks op \<longleftrightarrow> op = Write_Iter \<or> op = File_Fallocate \<or> op = Set_Attributes"

fun back_to :: "gated list \<Rightarrow> gate_pc" where
  "back_to [] = Idle"
| "back_to [op] = (if op = Setattr then V_Unlock else Idle)"
| "back_to (op # ops) = Body False ops"

definition go :: "nat \<Rightarrow> gate_pc \<Rightarrow> gate \<Rightarrow> gate" where
  "go t pc s = s\<lparr>pcs := (pcs s)(t := pc)\<rparr>"

definition down_read_ok :: "bool \<Rightarrow> gate \<Rightarrow> bool" where
  "down_read_ok fair s \<longleftrightarrow> gate_owner s = None \<and> (fair \<longrightarrow> (\<forall>t. pcs s t \<noteq> D_Lock))"

definition down_write_ok :: "gate \<Rightarrow> bool" where
  "down_write_ok s \<longleftrightarrow> gate_owner s = None \<and> (\<forall>t. readers s t = 0)"

definition down_read :: "nat \<Rightarrow> gate \<Rightarrow> gate" where
  "down_read t s = s\<lparr>readers := (readers s)(t := readers s t + 1)\<rparr>"

definition up_read :: "nat \<Rightarrow> gate \<Rightarrow> gate" where
  "up_read t s = s\<lparr>readers := (readers s)(t := readers s t - 1)\<rparr>"

text \<open>Operations that can leave an inode whose eviction changes the volume.\<close>

definition dooms :: "gated \<Rightarrow> bool" where
  "dooms op \<longleftrightarrow> op = Vfat_Unlink \<or> op = Vfat_Rmdir \<or> op = Vfat_Rename \<or> op = File_Fallocate"

text \<open>The two changes that pass no gate.\<close>

definition evict_change :: "gate \<Rightarrow> gate" where
  "evict_change s = s\<lparr>doomed := doomed s - 1, cached := True, evicted := True\<rparr>"

definition time_change :: "gate \<Rightarrow> gate" where
  "time_change s = s\<lparr>cached := True, touched := True\<rparr>"

definition synced :: "gate \<Rightarrow> gate" where
  "synced s = s\<lparr>volatile_cache := volatile_cache s \<or> cached s, cached := False\<rparr>"

definition flushed_all :: "gate \<Rightarrow> gate" where
  "flushed_all s = s\<lparr>volatile_cache := False, evicted := evicted s \<and> cached s, touched := touched s \<and> cached s\<rparr>"

subsection \<open>Steps\<close>

inductive gstep :: "bool \<Rightarrow> nat \<Rightarrow> gate \<Rightarrow> gate \<Rightarrow> bool" for fair t where
  call: "pcs s t = Idle \<Longrightarrow> op \<noteq> Setattr \<Longrightarrow> gstep fair t s (go t (B_Lock [op]) s)"
| call_setattr: "pcs s t = Idle \<Longrightarrow> gstep fair t s (go t V_Lock s)"
| vfs_lock: "pcs s t = V_Lock \<Longrightarrow> inode_owner s = None \<Longrightarrow> gstep fair t s (go t (B_Lock [Setattr]) (s\<lparr>inode_owner := Some t\<rparr>))"
| begin_lock: "pcs s t = B_Lock ops \<Longrightarrow> down_read_ok fair s \<Longrightarrow> gstep fair t s (go t (B_Test ops) (down_read t s))"
| begin_pass: "pcs s t = B_Test ops \<Longrightarrow> \<not> write_blocked s \<Longrightarrow> gstep fair t s (go t (Body False ops) s)"
| begin_fail: "pcs s t = B_Test ops \<Longrightarrow> write_blocked s \<Longrightarrow> gstep fair t s (go t (B_Undo ops) s)"
| begin_undo: "pcs s t = B_Undo ops \<Longrightarrow> gstep fair t s (go t (back_to ops) (up_read t s))"
| body_lock: "pcs s t = Body False (op # ops) \<Longrightarrow> body_locks op \<Longrightarrow> inode_owner s = None \<Longrightarrow>
    gstep fair t s (go t (Body True (op # ops)) (s\<lparr>inode_owner := Some t\<rparr>))"
| body_nest: "pcs s t = Body False [Splice_Write] \<Longrightarrow> gstep fair t s (go t (B_Lock [Write_Iter, Splice_Write]) s)"
| body_change: "pcs s t = Body l (op # ops) \<Longrightarrow> op \<noteq> Splice_Write \<Longrightarrow> body_locks op = l \<Longrightarrow> gstep fair t s (s\<lparr>cached := True\<rparr>)"
| body_doom: "pcs s t = Body l (op # ops) \<Longrightarrow> dooms op \<Longrightarrow> body_locks op = l \<Longrightarrow> gstep fair t s (s\<lparr>cached := True, doomed := Suc (doomed s)\<rparr>)"
| evict: "pcs s t = Idle \<Longrightarrow> 0 < doomed s \<Longrightarrow> gstep fair t s (evict_change s)"
| update_time: "pcs s t = Idle \<Longrightarrow> gstep fair t s (time_change s)"
| body_unlock: "pcs s t = Body True ops \<Longrightarrow> gstep fair t s (go t (E_Unlock ops) (s\<lparr>inode_owner := None\<rparr>))"
| body_done: "pcs s t = Body False (op # ops) \<Longrightarrow> op \<noteq> Write_Iter \<Longrightarrow> gstep fair t s (go t (E_Unlock (op # ops)) s)"
| end_write: "pcs s t = E_Unlock ops \<Longrightarrow> gstep fair t s (go t (back_to ops) (up_read t s))"
| vfs_unlock: "pcs s t = V_Unlock \<Longrightarrow> gstep fair t s (go t Idle (s\<lparr>inode_owner := None\<rparr>))"
| disable: "pcs s t = Idle \<Longrightarrow> gstep fair t s (go t D_Lock s)"
| d_lock: "pcs s t = D_Lock \<Longrightarrow> down_write_ok s \<Longrightarrow> gstep fair t s (go t D_Set (s\<lparr>gate_owner := Some t\<rparr>))"
| d_set: "pcs s t = D_Set \<Longrightarrow> gstep fair t s (go t D_Umount (s\<lparr>write_blocked := True\<rparr>))"
| d_umount: "pcs s t = D_Umount \<Longrightarrow> s_umount s = None \<Longrightarrow> gstep fair t s (go t D_Sync (s\<lparr>s_umount := Some t\<rparr>))"
| d_sync: "pcs s t = D_Sync \<Longrightarrow> gstep fair t s (go t D_Flush (synced s))"
| d_sync_fail: "pcs s t = D_Sync \<Longrightarrow> gstep fair t s (go t (D_Up False) s)"
| d_flush: "pcs s t = D_Flush \<Longrightarrow> gstep fair t s (go t (D_Up True) (flushed_all s))"
| d_flush_fail: "pcs s t = D_Flush \<Longrightarrow> gstep fair t s (go t (D_Up False) s)"
| d_up: "pcs s t = D_Up ok \<Longrightarrow> gstep fair t s (go t (if ok then D_Unlock True else D_Clear) (s\<lparr>s_umount := None\<rparr>))"
| d_clear: "pcs s t = D_Clear \<Longrightarrow> gstep fair t s (go t (D_Unlock False) (s\<lparr>write_blocked := False\<rparr>))"
| d_unlock: "pcs s t = D_Unlock ok \<Longrightarrow> gstep fair t s (go t Idle (s\<lparr>gate_owner := None\<rparr>))"

inductive gsteps :: "bool \<Rightarrow> gate \<Rightarrow> gate \<Rightarrow> bool" for fair where
  none: "gsteps fair s s"
| more: "gsteps fair s s1 \<Longrightarrow> gstep fair t s1 s2 \<Longrightarrow> gsteps fair s s2"


subsection \<open>The invariant\<close>

fun held_locks :: "gate_pc \<Rightarrow> nat" where
  "held_locks (B_Lock ops) = length ops - 1"
| "held_locks (B_Test ops) = length ops"
| "held_locks (B_Undo ops) = length ops"
| "held_locks (Body _ ops) = length ops"
| "held_locks (E_Unlock ops) = length ops"
| "held_locks _ = 0"

fun wf_pc :: "gate_pc \<Rightarrow> bool" where
  "wf_pc (B_Lock ops) = (ops \<noteq> [])"
| "wf_pc (B_Test ops) = (ops \<noteq> [])"
| "wf_pc (B_Undo ops) = (ops \<noteq> [])"
| "wf_pc (Body _ ops) = (ops \<noteq> [])"
| "wf_pc (E_Unlock ops) = (ops \<noteq> [])"
| "wf_pc _ = True"

text \<open>Inside a gated operation that has passed the gate.\<close>

fun inside :: "gate_pc \<Rightarrow> bool" where
  "inside (B_Lock ops) = (1 < length ops)"
| "inside (B_Test ops) = (1 < length ops)"
| "inside (B_Undo ops) = (1 < length ops)"
| "inside (Body _ ops) = True"
| "inside (E_Unlock ops) = True"
| "inside _ = False"

fun owning :: "gate_pc \<Rightarrow> bool" where
  "owning D_Set = True"
| "owning D_Umount = True"
| "owning D_Sync = True"
| "owning D_Flush = True"
| "owning (D_Up _) = True"
| "owning D_Clear = True"
| "owning (D_Unlock _) = True"
| "owning _ = False"

definition ungated :: "gate \<Rightarrow> bool" where
  "ungated s \<longleftrightarrow> evicted s \<or> touched s"

text \<open>Everything but what was changed behind the gate's back is on the device.\<close>

definition clean :: "gate \<Rightarrow> bool" where
  "clean s \<longleftrightarrow> ungated s \<or> \<not> cached s \<and> \<not> volatile_cache s"

text \<open>What the disabling thread has achieved at each point.\<close>

definition d_inv :: "gate \<Rightarrow> gate_pc \<Rightarrow> bool" where
  "d_inv s pc \<longleftrightarrow> (pc \<in> {D_Umount, D_Sync, D_Flush, D_Up True, D_Up False, D_Clear, D_Unlock True} \<longrightarrow> write_blocked s) \<and> (pc = D_Flush \<longrightarrow> ungated s \<or> \<not> cached s) \<and>
     (pc \<in> {D_Up True, D_Unlock True} \<longrightarrow> clean s) \<and> (pc = D_Unlock False \<longrightarrow> \<not> write_blocked s)"

definition gate_inv :: "gate \<Rightarrow> bool" where
  "gate_inv s \<longleftrightarrow> (\<forall>t. wf_pc (pcs s t)) \<and> (\<forall>t. readers s t = held_locks (pcs s t)) \<and> (\<forall>t. owning (pcs s t) \<longleftrightarrow> gate_owner s = Some t) \<and>
     (gate_owner s \<noteq> None \<longrightarrow> (\<forall>t. readers s t = 0)) \<and> (write_blocked s \<longrightarrow> (\<forall>t. \<not> inside (pcs s t))) \<and>
     (write_blocked s \<and> gate_owner s = None \<longrightarrow> clean s) \<and> (\<forall>t. d_inv s (pcs s t))"

lemma ungated_update [simp]:
  "ungated (s\<lparr>gate_owner := a\<rparr>) = ungated s" "ungated (s\<lparr>write_blocked := b\<rparr>) = ungated s" "ungated (s\<lparr>s_umount := c\<rparr>) = ungated s"
  "ungated (s\<lparr>inode_owner := d\<rparr>) = ungated s" "ungated (s\<lparr>cached := e\<rparr>) = ungated s" "ungated (s\<lparr>volatile_cache := f\<rparr>) = ungated s"
  by (simp_all add: ungated_def)

lemma go_fields [simp]:
  "readers (go t pc s) = readers s" "gate_owner (go t pc s) = gate_owner s" "write_blocked (go t pc s) = write_blocked s" "s_umount (go t pc s) = s_umount s"
  "inode_owner (go t pc s) = inode_owner s" "pcs (go t pc s) = (pcs s)(t := pc)" "cached (go t pc s) = cached s" "volatile_cache (go t pc s) = volatile_cache s"
  "doomed (go t pc s) = doomed s" "evicted (go t pc s) = evicted s" "touched (go t pc s) = touched s" "ungated (go t pc s) = ungated s"
  by (simp_all add: go_def ungated_def)

lemma read_fields [simp]:
  "readers (down_read t s) = (readers s)(t := readers s t + 1)" "gate_owner (down_read t s) = gate_owner s" "write_blocked (down_read t s) = write_blocked s"
  "pcs (down_read t s) = pcs s" "cached (down_read t s) = cached s" "volatile_cache (down_read t s) = volatile_cache s" "inode_owner (down_read t s) = inode_owner s"
  "readers (up_read t s) = (readers s)(t := readers s t - 1)" "gate_owner (up_read t s) = gate_owner s" "write_blocked (up_read t s) = write_blocked s"
  "pcs (up_read t s) = pcs s" "cached (up_read t s) = cached s" "volatile_cache (up_read t s) = volatile_cache s" "inode_owner (up_read t s) = inode_owner s"
  "s_umount (down_read t s) = s_umount s" "s_umount (up_read t s) = s_umount s" "doomed (down_read t s) = doomed s" "doomed (up_read t s) = doomed s"
  "evicted (down_read t s) = evicted s" "evicted (up_read t s) = evicted s" "touched (down_read t s) = touched s" "touched (up_read t s) = touched s"
  "ungated (down_read t s) = ungated s" "ungated (up_read t s) = ungated s"
  by (simp_all add: down_read_def up_read_def ungated_def)

lemma synced_fields [simp]:
  "readers (synced s) = readers s" "gate_owner (synced s) = gate_owner s" "write_blocked (synced s) = write_blocked s" "s_umount (synced s) = s_umount s"
  "inode_owner (synced s) = inode_owner s" "pcs (synced s) = pcs s" "\<not> cached (synced s)" "doomed (synced s) = doomed s" "ungated (synced s) = ungated s"
  "evicted (synced s) = evicted s" "touched (synced s) = touched s"
  by (simp_all add: synced_def ungated_def)

lemma flushed_fields [simp]:
  "readers (flushed_all s) = readers s" "gate_owner (flushed_all s) = gate_owner s" "write_blocked (flushed_all s) = write_blocked s" "s_umount (flushed_all s) = s_umount s"
  "inode_owner (flushed_all s) = inode_owner s" "pcs (flushed_all s) = pcs s" "cached (flushed_all s) = cached s" "\<not> volatile_cache (flushed_all s)"
  "doomed (flushed_all s) = doomed s" "ungated (flushed_all s) \<longleftrightarrow> ungated s \<and> cached s" "evicted (flushed_all s) \<longleftrightarrow> evicted s \<and> cached s"
  "touched (flushed_all s) \<longleftrightarrow> touched s \<and> cached s"
  by (auto simp: flushed_all_def ungated_def)

lemma change_fields [simp]:
  "pcs (evict_change s) = pcs s" "readers (evict_change s) = readers s" "gate_owner (evict_change s) = gate_owner s" "write_blocked (evict_change s) = write_blocked s"
  "inode_owner (evict_change s) = inode_owner s" "ungated (evict_change s)" "evicted (evict_change s)" "doomed (evict_change s) = doomed s - 1"
  "pcs (time_change s) = pcs s" "readers (time_change s) = readers s" "gate_owner (time_change s) = gate_owner s" "write_blocked (time_change s) = write_blocked s"
  "inode_owner (time_change s) = inode_owner s" "ungated (time_change s)" "evicted (time_change s) = evicted s" "doomed (time_change s) = doomed s"
  by (simp_all add: evict_change_def time_change_def ungated_def)

lemma back_to_facts: "ops \<noteq> [] \<Longrightarrow> wf_pc (back_to ops)" "held_locks (back_to ops) = length ops - 1" "\<not> owning (back_to ops)" "inside (back_to ops) \<longleftrightarrow> 1 < length ops" "d_inv s (back_to ops)"
  by (induction ops rule: back_to.induct) (simp_all add: d_inv_def)

text \<open>A step of one thread: what to check of its own program counter and of the rest.\<close>

lemma gate_inv_go:
  assumes inv: "gate_inv s" and s': "pcs s' = (pcs s)(t := pc)" "\<And>u. u \<noteq> t \<Longrightarrow> readers s' u = readers s u"
    and own: "wf_pc pc" "readers s' t = held_locks pc" "write_blocked s' \<longrightarrow> \<not> inside pc" "d_inv s' pc" "owning pc \<longleftrightarrow> gate_owner s' = Some t"
    and others: "\<And>u. u \<noteq> t \<Longrightarrow> gate_owner s' = Some u \<longleftrightarrow> gate_owner s = Some u" "\<And>u. u \<noteq> t \<Longrightarrow> d_inv s' (pcs s u)"
      "write_blocked s' \<Longrightarrow> \<not> write_blocked s \<Longrightarrow> \<forall>u. readers s u = 0"
    and alone: "gate_owner s' \<noteq> None \<Longrightarrow> \<forall>u. readers s' u = 0" and cl: "write_blocked s' \<Longrightarrow> gate_owner s' = None \<Longrightarrow> clean s'"
  shows "gate_inv s'"
proof -
  have i: "\<And>u. wf_pc (pcs s u)" "\<And>u. readers s u = held_locks (pcs s u)" "\<And>u. owning (pcs s u) \<longleftrightarrow> gate_owner s = Some u" "write_blocked s \<Longrightarrow> \<not> inside (pcs s u)" for u
    using inv by (auto simp: gate_inv_def)
  have z: "\<not> inside pc" if "held_locks pc = 0" "wf_pc pc" for pc using that by (cases pc) (auto simp: le_Suc_eq)
  have "\<not> inside (pcs s u)" if "write_blocked s'" for u
    using i(4) others(3) [OF that] z [of "pcs s u"] i(1,2) by (cases "write_blocked s") simp_all
  then show ?thesis using i s' own others(1,2) alone cl by (auto simp: gate_inv_def)
qed

lemma d_inv_not_owning: "\<not> owning pc \<Longrightarrow> d_inv s pc"
  by (auto simp: d_inv_def)

lemma d_inv_cong: "write_blocked s' = write_blocked s \<Longrightarrow> cached s' = cached s \<Longrightarrow> volatile_cache s' = volatile_cache s \<Longrightarrow> ungated s' = ungated s \<Longrightarrow> d_inv s' pc = d_inv s pc"
  by (simp add: d_inv_def clean_def)

lemma gate_invD:
  assumes "gate_inv s"
  shows "wf_pc (pcs s t)" and "readers s t = held_locks (pcs s t)" and "owning (pcs s t) \<longleftrightarrow> gate_owner s = Some t" and "gate_owner s \<noteq> None \<Longrightarrow> readers s t = 0"
    and "write_blocked s \<Longrightarrow> \<not> inside (pcs s t)" and "write_blocked s \<Longrightarrow> gate_owner s = None \<Longrightarrow> clean s" and "d_inv s (pcs s t)"
    and "readers s t \<noteq> 0 \<Longrightarrow> gate_owner s = None"
  using assms by (auto simp: gate_inv_def)

text \<open>Steps of a thread that does not hold the gate for writing.\<close>

lemma gate_inv_reader:
  assumes inv: "gate_inv s" and s1: "pcs s1 = pcs s" "\<And>u. u \<noteq> t \<Longrightarrow> readers s1 u = readers s u"
    and same: "write_blocked s1 = write_blocked s" "cached s1 = cached s" "volatile_cache s1 = volatile_cache s" "gate_owner s1 = gate_owner s" "ungated s1 = ungated s"
    and own: "wf_pc pc" "readers s1 t = held_locks pc" "write_blocked s \<longrightarrow> \<not> inside pc" "\<not> owning pc" "\<not> owning (pcs s t)" "gate_owner s = None \<or> held_locks pc = 0"
  shows "gate_inv (go t pc s1)"
proof (rule gate_inv_go [OF inv, of _ t pc])
  have "gate_owner s \<noteq> Some t" using gate_invD(3) [OF inv, of t] own(5) by simp
  then show "owning pc \<longleftrightarrow> gate_owner (go t pc s1) = Some t" using own(4) same(4) by simp
  show "\<forall>u. readers (go t pc s1) u = 0" if "gate_owner (go t pc s1) \<noteq> None"
    using that same(4) s1(2) own(2,6) gate_invD(4) [OF inv] by (metis go_fields(1,2) option.exhaust)
  show "d_inv (go t pc s1) (pcs s u)" for u using gate_invD(7) [OF inv] d_inv_cong [of "go t pc s1" s] same by simp
qed (use own same s1 d_inv_not_owning gate_invD(6) [OF inv] in \<open>auto simp: clean_def\<close>)

text \<open>Steps of the thread that holds it.\<close>

lemma gate_inv_owner:
  assumes inv: "gate_inv s" and ow: "owning (pcs s t)" and s1: "pcs s1 = pcs s" "readers s1 = readers s" "gate_owner s1 = (if owning pc then Some t else None)"
    and own: "wf_pc pc" "held_locks pc = 0" "\<not> inside pc" "d_inv s1 pc" and cl: "\<not> owning pc \<Longrightarrow> write_blocked s1 \<Longrightarrow> clean s1"
  shows "gate_inv (go t pc s1)"
proof (rule gate_inv_go [OF inv, of _ t pc])
  have g: "gate_owner s = Some t" using gate_invD(3) [OF inv, of t] ow by simp
  have z: "readers s u = 0" for u using gate_invD(4) [OF inv] g by simp
  show "readers (go t pc s1) t = held_locks pc" "\<And>u. u \<noteq> t \<Longrightarrow> readers (go t pc s1) u = readers s u" using s1(2) z own(2) by simp_all
  show "\<forall>u. readers s u = 0" using z by simp
  show "\<forall>u. readers (go t pc s1) u = 0" using z s1(2) by simp
  show "gate_owner (go t pc s1) = Some u \<longleftrightarrow> gate_owner s = Some u" if "u \<noteq> t" for u using that g s1(3) by simp
  show "d_inv (go t pc s1) (pcs s u)" if "u \<noteq> t" for u using gate_invD(3) [OF inv, of u] g that by (intro d_inv_not_owning) simp
  show "owning pc \<longleftrightarrow> gate_owner (go t pc s1) = Some t" using s1(3) by simp
  show "clean (go t pc s1)" if "write_blocked (go t pc s1)" "gate_owner (go t pc s1) = None" using that cl s1(3) by (simp add: clean_def split: if_splits)
qed (use own s1 in \<open>auto simp: d_inv_def clean_def\<close>)

lemma gate_inv_change:
  assumes inv: "gate_inv s" and b: "pcs s t = Body l (op # ops)"
  shows "gate_inv (s\<lparr>cached := True\<rparr>)" and "gate_inv (s\<lparr>cached := True, doomed := n\<rparr>)"
proof -
  have "readers s t \<noteq> 0" using gate_invD(2) [OF inv, of t] b by simp
  then have g: "gate_owner s = None" by (rule gate_invD(8) [OF inv])
  have w: "\<not> write_blocked s" using gate_invD(5) [OF inv, of t] b by auto
  have "d_inv s' (pcs s u)" for u s' using gate_invD(3) [OF inv, of u] g by (intro d_inv_not_owning) simp
  then show "gate_inv (s\<lparr>cached := True\<rparr>)" "gate_inv (s\<lparr>cached := True, doomed := n\<rparr>)" using inv g w by (simp_all add: gate_inv_def)
qed

text \<open>A change behind the gate's back only takes away what is claimed about the device.\<close>

lemma gate_inv_ungated:
  assumes inv: "gate_inv s" and s': "pcs s' = pcs s" "readers s' = readers s" "gate_owner s' = gate_owner s" "write_blocked s' = write_blocked s" "ungated s'"
  shows "gate_inv s'"
proof -
  have "d_inv s' pc" if "d_inv s pc" for pc using that s'(4,5) by (simp add: d_inv_def clean_def)
  then show ?thesis using inv s' by (auto simp: gate_inv_def clean_def)
qed

lemma gate_inv_step:
  assumes "gstep fair t s s'" and "gate_inv s"
  shows "gate_inv s'"
  using assms
proof induction
  case (begin_lock s ops)
  then show ?case using gate_invD(1,2,5) [of s t] by (intro gate_inv_reader [of s]) (auto simp: down_read_ok_def Suc_diff_Suc neq_Nil_conv)
next
  case (begin_undo s ops)
  then show ?case using gate_invD(1,2,5,8) [of s t] back_to_facts(1-4) [of ops] by (intro gate_inv_reader [of s]) auto
next
  case (end_write s ops)
  then show ?case using gate_invD(1,2,5,8) [of s t] back_to_facts(1-4) [of ops] by (intro gate_inv_reader [of s]) auto
next
  case (body_change s l op ops)
  then show ?case using gate_inv_change(1) by simp
next
  case (body_doom s l op ops)
  then show ?case using gate_inv_change(2) by simp
next
  case (evict s)
  show ?case by (rule gate_inv_ungated [OF evict(3)]) simp_all
next
  case (update_time s)
  show ?case by (rule gate_inv_ungated [OF update_time(2)]) simp_all
next
  case (d_lock s)
  have n: "d_inv s1 (pcs s u)" for u s1 using d_lock gate_invD(3) [of s u] by (intro d_inv_not_owning) (simp add: down_write_ok_def)
  show ?case
    by (rule gate_inv_go [of s _ t D_Set]) (use d_lock n gate_invD(4,6) [of s] in \<open>auto simp: down_write_ok_def d_inv_def\<close>)
next
  case (call s op)
  then show ?case using gate_invD(1,2,5,8) [of s t] by (intro gate_inv_reader [of s]) auto
next
  case (call_setattr s)
  then show ?case using gate_invD(1,2,5,8) [of s t] by (intro gate_inv_reader [of s]) auto
next
  case (vfs_lock s)
  then show ?case using gate_invD(1,2,5,8) [of s t] by (intro gate_inv_reader [of s]) auto
next
  case (begin_pass s ops)
  then show ?case using gate_invD(1,2,5,8) [of s t] by (intro gate_inv_reader [of s]) auto
next
  case (begin_fail s ops)
  then show ?case using gate_invD(1,2,5,8) [of s t] by (intro gate_inv_reader [of s]) auto
next
  case (body_lock s op ops)
  then show ?case using gate_invD(1,2,5,8) [of s t] by (intro gate_inv_reader [of s]) auto
next
  case (body_nest s)
  then show ?case using gate_invD(1,2,5,8) [of s t] by (intro gate_inv_reader [of s]) auto
next
  case (body_unlock s ops)
  then show ?case using gate_invD(1,2,5,8) [of s t] by (intro gate_inv_reader [of s]) auto
next
  case (body_done s op ops)
  then show ?case using gate_invD(1,2,5,8) [of s t] by (intro gate_inv_reader [of s]) auto
next
  case (vfs_unlock s)
  then show ?case using gate_invD(1,2,5,8) [of s t] by (intro gate_inv_reader [of s]) auto
next
  case (disable s)
  then show ?case using gate_invD(1,2,5,8) [of s t] by (intro gate_inv_reader [of s]) auto
next
  case (d_set s)
  then show ?case using gate_invD(3,7) [of s t] by (intro gate_inv_owner [of s]) (auto simp: d_inv_def clean_def)
next
  case (d_umount s)
  then show ?case using gate_invD(3,7) [of s t] by (intro gate_inv_owner [of s]) (auto simp: d_inv_def clean_def)
next
  case (d_sync s)
  then show ?case using gate_invD(3,7) [of s t] by (intro gate_inv_owner [of s]) (auto simp: d_inv_def clean_def)
next
  case (d_sync_fail s)
  then show ?case using gate_invD(3,7) [of s t] by (intro gate_inv_owner [of s]) (auto simp: d_inv_def clean_def)
next
  case (d_flush s)
  then show ?case using gate_invD(3,7) [of s t] by (intro gate_inv_owner [of s]) (auto simp: d_inv_def clean_def)
next
  case (d_flush_fail s)
  then show ?case using gate_invD(3,7) [of s t] by (intro gate_inv_owner [of s]) (auto simp: d_inv_def clean_def)
next
  case (d_up s ok)
  then show ?case using gate_invD(3,7) [of s t] by (intro gate_inv_owner [of s]) (auto simp: d_inv_def clean_def)
next
  case (d_clear s)
  then show ?case using gate_invD(3,7) [of s t] by (intro gate_inv_owner [of s]) (auto simp: d_inv_def clean_def)
next
  case (d_unlock s ok)
  then show ?case using gate_invD(3,7) [of s t] by (intro gate_inv_owner [of s]) (auto simp: d_inv_def clean_def)
qed

lemma gate_inv_init: "gate_inv gate_init"
  by (simp add: gate_inv_def gate_init_def d_inv_def)

lemma gate_inv_reach: "gsteps fair s s' \<Longrightarrow> gate_inv s \<Longrightarrow> gate_inv s'"
  by (induction rule: gsteps.induct) (auto dest: gate_inv_step)

subsection \<open>A closed gate stays closed\<close>







subsection \<open>Deadlocks\<close>

fun holds_inode :: "gate_pc \<Rightarrow> bool" where
  "holds_inode (B_Lock ops) = (ops = [Setattr])"
| "holds_inode (B_Test ops) = (ops = [Setattr])"
| "holds_inode (B_Undo ops) = (ops = [Setattr])"
| "holds_inode (Body l ops) = (l \<or> ops = [Setattr])"
| "holds_inode (E_Unlock ops) = (ops = [Setattr])"
| "holds_inode V_Unlock = True"
| "holds_inode _ = False"

fun setattr_alone :: "gate_pc \<Rightarrow> bool" where
  "setattr_alone (B_Lock ops) = (Setattr \<notin> set ops \<or> ops = [Setattr])"
| "setattr_alone (B_Test ops) = (Setattr \<notin> set ops \<or> ops = [Setattr])"
| "setattr_alone (B_Undo ops) = (Setattr \<notin> set ops \<or> ops = [Setattr])"
| "setattr_alone (Body l ops) = ((Setattr \<notin> set ops \<or> ops = [Setattr]) \<and> (l \<longrightarrow> Setattr \<notin> set ops))"
| "setattr_alone (E_Unlock ops) = (Setattr \<notin> set ops \<or> ops = [Setattr])"
| "setattr_alone _ = True"

definition inode_inv :: "gate \<Rightarrow> bool" where
  "inode_inv s \<longleftrightarrow> (\<forall>u. setattr_alone (pcs s u) \<and> (holds_inode (pcs s u) \<longrightarrow> inode_owner s = Some u))"

lemma back_to_setattr: "Setattr \<notin> set ops \<Longrightarrow> setattr_alone (back_to ops) \<and> \<not> holds_inode (back_to ops)"
  by (induction ops rule: back_to.induct) auto

lemma inode_invD: "inode_inv s \<Longrightarrow> pcs s t = pc \<Longrightarrow> setattr_alone pc \<and> (holds_inode pc \<longrightarrow> inode_owner s = Some t)"
  by (auto simp: inode_inv_def)

lemma inode_inv_go:
  assumes "inode_inv s" and "pcs s1 = pcs s" and "setattr_alone pc" and "holds_inode pc \<Longrightarrow> inode_owner s1 = Some t"
    and "inode_owner s1 = inode_owner s \<or> inode_owner s = None \<or> inode_owner s = Some t"
  shows "inode_inv (go t pc s1)"
proof -
  have "inode_owner s1 = Some u" if "u \<noteq> t" "holds_inode (pcs s u)" for u
    using inode_invD [OF assms(1) refl, of u] that assms(5) by auto
  then show ?thesis using assms inode_invD [OF assms(1) refl] by (auto simp: inode_inv_def)
qed

lemma inode_inv_step:
  assumes "gstep fair t s s'" and "inode_inv s"
  shows "inode_inv s'"
  using assms
proof induction
  case (begin_undo s ops)
  show ?case using inode_invD [OF begin_undo(2,1)] back_to_setattr [of ops] by (intro inode_inv_go [of s] begin_undo(2)) auto
next
  case (end_write s ops)
  show ?case using inode_invD [OF end_write(2,1)] back_to_setattr [of ops] by (intro inode_inv_go [of s] end_write(2)) auto
next
  case (body_change s l op ops)
  then show ?case by (simp add: inode_inv_def)
next
  case (body_doom s l op ops)
  then show ?case by (simp add: inode_inv_def)
next
  case (evict s)
  then show ?case by (simp add: inode_inv_def)
next
  case (update_time s)
  then show ?case by (simp add: inode_inv_def)
next
  case (call s op)
  show ?case using inode_invD [OF call(3,1)] by (intro inode_inv_go [of s] call(3)) (use call(2) in auto)
next
  case (call_setattr s)
  show ?case using inode_invD [OF call_setattr(2,1)] by (intro inode_inv_go [of s] call_setattr(2)) auto
next
  case (vfs_lock s)
  show ?case using inode_invD [OF vfs_lock(3,1)] by (intro inode_inv_go [of s] vfs_lock(3)) (use vfs_lock(2) in auto)
next
  case (begin_lock s ops)
  show ?case using inode_invD [OF begin_lock(3,1)] by (intro inode_inv_go [of s] begin_lock(3)) auto
next
  case (begin_pass s ops)
  show ?case using inode_invD [OF begin_pass(3,1)] by (intro inode_inv_go [of s] begin_pass(3)) auto
next
  case (begin_fail s ops)
  show ?case using inode_invD [OF begin_fail(3,1)] by (intro inode_inv_go [of s] begin_fail(3)) auto
next
  case (body_lock s op ops)
  show ?case using inode_invD [OF body_lock(4,1)] by (intro inode_inv_go [of s] body_lock(4)) (use body_lock(2,3) in \<open>auto simp: body_locks_def\<close>)
next
  case (body_nest s)
  show ?case using inode_invD [OF body_nest(2,1)] by (intro inode_inv_go [of s] body_nest(2)) auto
next
  case (body_unlock s ops)
  show ?case using inode_invD [OF body_unlock(2,1)] by (intro inode_inv_go [of s] body_unlock(2)) auto
next
  case (body_done s op ops)
  show ?case using inode_invD [OF body_done(3,1)] by (intro inode_inv_go [of s] body_done(3)) auto
next
  case (vfs_unlock s)
  show ?case using inode_invD [OF vfs_unlock(2,1)] by (intro inode_inv_go [of s] vfs_unlock(2)) auto
next
  case (disable s)
  show ?case using inode_invD [OF disable(2,1)] by (intro inode_inv_go [of s] disable(2)) auto
next
  case (d_lock s)
  show ?case using inode_invD [OF d_lock(3,1)] by (intro inode_inv_go [of s] d_lock(3)) auto
next
  case (d_set s)
  show ?case using inode_invD [OF d_set(2,1)] by (intro inode_inv_go [of s] d_set(2)) auto
next
  case (d_umount s)
  show ?case using inode_invD [OF d_umount(3,1)] by (intro inode_inv_go [of s] d_umount(3)) auto
next
  case (d_sync s)
  show ?case using inode_invD [OF d_sync(2,1)] by (intro inode_inv_go [of s] d_sync(2)) auto
next
  case (d_sync_fail s)
  show ?case using inode_invD [OF d_sync_fail(2,1)] by (intro inode_inv_go [of s] d_sync_fail(2)) auto
next
  case (d_flush s)
  show ?case using inode_invD [OF d_flush(2,1)] by (intro inode_inv_go [of s] d_flush(2)) auto
next
  case (d_flush_fail s)
  show ?case using inode_invD [OF d_flush_fail(2,1)] by (intro inode_inv_go [of s] d_flush_fail(2)) auto
next
  case (d_up s ok)
  show ?case using inode_invD [OF d_up(2,1)] by (intro inode_inv_go [of s] d_up(2)) (auto split: if_splits)
next
  case (d_clear s)
  show ?case using inode_invD [OF d_clear(2,1)] by (intro inode_inv_go [of s] d_clear(2)) auto
next
  case (d_unlock s ok)
  show ?case using inode_invD [OF d_unlock(2,1)] by (intro inode_inv_go [of s] d_unlock(2)) auto
qed

lemma inode_inv_init: "inode_inv gate_init"
  by (simp add: inode_inv_def gate_init_def)

lemma inode_inv_reach: "gsteps fair s s' \<Longrightarrow> inode_inv s \<Longrightarrow> inode_inv s'"
  by (induction rule: gsteps.induct) (auto dest: inode_inv_step)

text \<open>A step leaves the program counters of the other threads as they are.\<close>

lemma gstep_others: "gstep fair t s s' \<Longrightarrow> u \<noteq> t \<Longrightarrow> pcs s' u = pcs s u"
  by (induction rule: gstep.induct) simp_all

lemma gsteps_keep:
  assumes "gsteps fair s s'" and "P s" and "\<And>t s s'. gstep fair t s s' \<Longrightarrow> P s \<Longrightarrow> P s'"
  shows "P s'"
  using assms by (induction rule: gsteps.induct) auto

text \<open>What a thread needs to go on where it may have to wait.\<close>

lemma gstep_waits:
  assumes "gstep fair t s s'"
  shows "pcs s t = D_Lock \<Longrightarrow> down_write_ok s" and "pcs s t = B_Lock ops \<Longrightarrow> down_read_ok fair s" and "pcs s t = Body False [Write_Iter] \<Longrightarrow> inode_owner s = None"
  using assms by (induction rule: gstep.induct) (auto simp: body_locks_def)

definition stuck_nested :: "gate \<Rightarrow> bool" where
  "stuck_nested s \<longleftrightarrow> gate_inv s \<and> pcs s 0 = D_Lock \<and> pcs s 1 = B_Lock [Write_Iter, Splice_Write]"

definition stuck_crossed :: "gate \<Rightarrow> bool" where
  "stuck_crossed s \<longleftrightarrow> gate_inv s \<and> inode_inv s \<and> pcs s 0 = D_Lock \<and> pcs s 1 = Body False [Write_Iter] \<and> pcs s 2 = B_Lock [Setattr]"

lemma stuck_nested_step:
  assumes st: "gstep True t s s'" and k: "stuck_nested s"
  shows "stuck_nested s'"
proof -
  have r: "readers s 1 = 1" using k gate_invD(2) [of s 1] by (simp add: stuck_nested_def)
  have "t \<noteq> 0" using gstep_waits(1) [OF st] k r by (intro notI) (simp add: stuck_nested_def down_write_ok_def)
  moreover have "t \<noteq> 1" using gstep_waits(2) [OF st] k by (intro notI) (auto simp: stuck_nested_def down_read_ok_def)
  ultimately show ?thesis using gstep_others [OF st] gate_inv_step [OF st] k by (simp add: stuck_nested_def)
qed

lemma stuck_crossed_step:
  assumes st: "gstep True t s s'" and k: "stuck_crossed s"
  shows "stuck_crossed s'"
proof -
  have r: "readers s 1 = 1" using k gate_invD(2) [of s 1] by (simp add: stuck_crossed_def)
  have i: "inode_owner s = Some 2" using k inode_invD [of s 2 "B_Lock [Setattr]"] by (simp add: stuck_crossed_def)
  have "t \<noteq> 0" using gstep_waits(1) [OF st] k r by (intro notI) (simp add: stuck_crossed_def down_write_ok_def)
  moreover have "t \<noteq> 1" using gstep_waits(3) [OF st] k i by (intro notI) (simp add: stuck_crossed_def)
  moreover have "t \<noteq> 2" using gstep_waits(2) [OF st] k by (intro notI) (auto simp: stuck_crossed_def down_read_ok_def)
  ultimately show ?thesis using gstep_others [OF st] gate_inv_step [OF st] inode_inv_step [OF st] k by (simp add: stuck_crossed_def)
qed

text \<open>Runs that lead there.\<close>

definition spliced :: gate where
  "spliced = go 1 (Body False [Splice_Write]) (go 1 (B_Test [Splice_Write]) (down_read 1 (go 1 (B_Lock [Splice_Write]) gate_init)))"

definition writing :: gate where
  "writing = go 1 (Body False [Write_Iter]) (go 1 (B_Test [Write_Iter]) (down_read 1 (go 1 (B_Lock [Write_Iter]) gate_init)))"

lemmas gate_eval = gate_init_def down_read_ok_def down_write_ok_def body_locks_def

lemma enter_run:
  assumes "op \<noteq> Setattr"
  shows "gsteps fair gate_init (go t (Body False [op]) (go t (B_Test [op]) (down_read t (go t (B_Lock [op]) gate_init))))"
proof -
  let ?a = "go t (B_Lock [op]) gate_init"
  let ?b = "go t (B_Test [op]) (down_read t ?a)"
  have "gstep fair t gate_init ?a" by (rule call) (simp_all add: gate_eval assms)
  moreover have "gstep fair t ?a ?b" by (rule begin_lock) (simp_all add: gate_eval)
  moreover have "gstep fair t ?b (go t (Body False [op]) ?b)" by (rule begin_pass) (simp_all add: gate_eval)
  ultimately show ?thesis by (blast intro: gsteps.intros)
qed

lemma nested_run: "gsteps True gate_init (go 0 D_Lock (go 1 (B_Lock [Write_Iter, Splice_Write]) spliced))"
proof -
  let ?a = "go 1 (B_Lock [Write_Iter, Splice_Write]) spliced"
  have "gsteps True gate_init spliced" unfolding spliced_def by (rule enter_run) simp
  moreover have "gstep True 1 spliced ?a" by (rule body_nest) (simp add: spliced_def)
  moreover have "gstep True 0 ?a (go 0 D_Lock ?a)" by (rule disable) (simp add: spliced_def gate_eval)
  ultimately show ?thesis by (blast intro: gsteps.intros)
qed

lemma crossed_run: "gsteps True gate_init (go 0 D_Lock (go 2 (B_Lock [Setattr]) ((go 2 V_Lock writing)\<lparr>inode_owner := Some 2\<rparr>)))"
proof -
  let ?a = "go 2 V_Lock writing"
  let ?b = "go 2 (B_Lock [Setattr]) (?a\<lparr>inode_owner := Some 2\<rparr>)"
  have "gsteps True gate_init writing" unfolding writing_def by (rule enter_run) simp
  moreover have "gstep True 2 writing ?a" by (rule call_setattr) (simp add: writing_def gate_eval)
  moreover have "gstep True 2 ?a ?b" by (rule vfs_lock) (simp_all add: writing_def gate_eval)
  moreover have "gstep True 0 ?b (go 0 D_Lock ?b)" by (rule disable) (simp add: writing_def gate_eval)
  ultimately show ?thesis by (blast intro: gsteps.intros)
qed

lemma nested_stuck: "stuck_nested (go 0 D_Lock (go 1 (B_Lock [Write_Iter, Splice_Write]) spliced))"
  using gate_inv_reach [OF nested_run gate_inv_init] by (simp add: stuck_nested_def)

lemma crossed_stuck: "stuck_crossed (go 0 D_Lock (go 2 (B_Lock [Setattr]) ((go 2 V_Lock writing)\<lparr>inode_owner := Some 2\<rparr>)))"
  using gate_inv_reach [OF crossed_run gate_inv_init] inode_inv_reach [OF crossed_run inode_inv_init] by (simp add: stuck_crossed_def writing_def)

text \<open>
  C38 (the gate can deadlock).  With a semaphore that makes readers wait behind a waiting writer, two states can be reached from the start that no run leaves: a splice that
  has passed the gate and is about to take it again in the write it makes, with a thread waiting in \<^verbatim>\<open>fat_disable_write\<close> in between; and a write that has passed the gate and waits for the
  lock of the inode, held by a change of attributes that waits for the gate, again behind a thread in \<^verbatim>\<open>fat_disable_write\<close>.
\<close>

theorem gate_deadlocks:
  "(\<exists>s. gsteps True gate_init s \<and> {s'. gsteps True s s'} \<subseteq> {s'. pcs s' 0 = D_Lock \<and> pcs s' 1 = B_Lock [Write_Iter, Splice_Write]}) \<and>
   (\<exists>s. gsteps True gate_init s \<and> {s'. gsteps True s s'} \<subseteq> {s'. pcs s' 0 = D_Lock \<and> pcs s' 1 = Body False [Write_Iter] \<and> pcs s' 2 = B_Lock [Setattr]})"
proof (intro conjI exI)
  show "{s'. gsteps True (go 0 D_Lock (go 1 (B_Lock [Write_Iter, Splice_Write]) spliced)) s'} \<subseteq> {s'. pcs s' 0 = D_Lock \<and> pcs s' 1 = B_Lock [Write_Iter, Splice_Write]}"
    using gsteps_keep [where P = stuck_nested, OF _ nested_stuck stuck_nested_step] by (auto simp: stuck_nested_def)
  show "{s'. gsteps True (go 0 D_Lock (go 2 (B_Lock [Setattr]) ((go 2 V_Lock writing)\<lparr>inode_owner := Some 2\<rparr>))) s'} \<subseteq>
      {s'. pcs s' 0 = D_Lock \<and> pcs s' 1 = Body False [Write_Iter] \<and> pcs s' 2 = B_Lock [Setattr]}"
    using gsteps_keep [where P = stuck_crossed, OF _ crossed_stuck stuck_crossed_step] by (auto simp: stuck_crossed_def)
qed (rule nested_run crossed_run)+

subsection \<open>A run that closes the gate\<close>

definition changed :: gate where
  "changed = go 1 (E_Unlock [Vfat_Unlink]) ((go 1 (Body False [Vfat_Unlink]) (go 1 (B_Test [Vfat_Unlink]) (down_read 1 (go 1 (B_Lock [Vfat_Unlink]) gate_init))))\<lparr>cached := True, doomed := 1\<rparr>)"

definition disabling :: gate where
  "disabling = go 0 D_Set ((go 0 D_Lock (go 1 Idle (up_read 1 changed)))\<lparr>gate_owner := Some 0\<rparr>)"

definition syncing :: gate where
  "syncing = go 0 D_Sync ((go 0 D_Umount (disabling\<lparr>write_blocked := True\<rparr>))\<lparr>s_umount := Some 0\<rparr>)"

definition flushed :: gate where
  "flushed = go 0 (D_Up True) (flushed_all (go 0 D_Flush (synced syncing)))"

definition closing :: gate where
  "closing = go 0 (D_Unlock True) (flushed\<lparr>s_umount := None\<rparr>)"

definition closed :: gate where
  "closed = go 0 Idle (closing\<lparr>gate_owner := None\<rparr>)"

definition refused :: gate where
  "refused = go 1 (B_Undo [Write_Iter]) (go 1 (B_Test [Write_Iter]) (down_read 1 (go 1 (B_Lock [Write_Iter]) closed)))"

lemmas gate_states = changed_def disabling_def syncing_def flushed_def closing_def closed_def refused_def gate_eval

lemma changed_run: "gsteps fair gate_init changed"
proof -
  let ?a = "go 1 (Body False [Vfat_Unlink]) (go 1 (B_Test [Vfat_Unlink]) (down_read 1 (go 1 (B_Lock [Vfat_Unlink]) gate_init)))"
  let ?b = "?a\<lparr>cached := True, doomed := 1\<rparr>"
  have "gsteps fair gate_init ?a" by (rule enter_run) simp
  moreover have "gstep fair 1 ?a ?b"
    using body_doom [of ?a 1 False Vfat_Unlink "[]" fair] by (simp add: gate_eval dooms_def)
  moreover have "gstep fair 1 ?b changed" unfolding changed_def by (rule body_done) simp_all
  ultimately show ?thesis by (blast intro: gsteps.intros)
qed

lemma disabling_run: "gsteps True gate_init disabling"
proof -
  let ?a = "go 1 (back_to [Vfat_Unlink]) (up_read 1 changed)"
  have "gstep True 1 changed ?a" by (rule end_write) (simp add: changed_def)
  moreover have "gstep True 0 ?a (go 0 D_Lock ?a)" by (rule disable) (simp add: gate_states)
  moreover have "gstep True 0 (go 0 D_Lock ?a) disabling" using d_lock [of "go 0 D_Lock ?a" 0 True] by (simp add: gate_states)
  ultimately show ?thesis using changed_run by (blast intro: gsteps.intros)
qed

lemma closing_run: "gsteps True gate_init closing"
proof -
  let ?a = "go 0 D_Umount (disabling\<lparr>write_blocked := True\<rparr>)"
  let ?b = "go 0 D_Flush (synced syncing)"
  have 1: "gstep True 0 disabling ?a" by (rule d_set) (simp add: disabling_def)
  have 2: "gstep True 0 ?a syncing" unfolding syncing_def by (rule d_umount) (simp_all add: gate_states)
  have 3: "gstep True 0 syncing ?b" by (rule d_sync) (simp add: gate_states)
  have 4: "gstep True 0 ?b flushed" unfolding flushed_def by (rule d_flush) simp
  have 5: "gstep True 0 flushed closing" using d_up [of flushed 0 True True] by (simp add: flushed_def closing_def)
  show ?thesis by (rule gsteps.more [OF gsteps.more [OF gsteps.more [OF gsteps.more [OF gsteps.more [OF disabling_run 1] 2] 3] 4] 5])
qed

lemma closed_step: "gstep True 0 closing closed"
  unfolding closed_def by (rule d_unlock) (simp add: closing_def)



text \<open>
  The exception for evictions is real: there is a run in which a file is unlinked while it is open, \<^verbatim>\<open>fat_disable_write\<close> returns success with nothing left to write, and the last
  reference to the file is dropped afterwards: its eviction changes the volume although the gate is closed and no thread is inside a gated operation.
\<close>

lemma gate_leaks_eviction:
  "\<exists>s s1 s2. gsteps True gate_init s \<and> pcs s 0 = D_Unlock True \<and> gstep True 0 s s1 \<and> \<not> cached s1 \<and> \<not> volatile_cache s1 \<and>
     gstep True 1 s1 s2 \<and> write_blocked s2 \<and> {u. inside (pcs s2 u)} = {} \<and> cached s2 \<and> evicted s2 \<and> \<not> touched s2"
proof (intro exI conjI)
  show "gsteps True gate_init closing" by (rule closing_run)
  show "gstep True 0 closing closed" by (rule closed_step)
  show "gstep True 1 closed (evict_change closed)"
    by (rule evict) (simp_all add: closed_def closing_def flushed_def syncing_def disabling_def changed_def gate_init_def)
  show "{u. inside (pcs (evict_change closed) u)} = {}"
    by (auto simp: gate_states)
qed (simp_all add: evict_change_def closed_def closing_def flushed_def syncing_def disabling_def changed_def synced_def flushed_all_def gate_init_def)

end
