(* ===== verification/Fat_Dir.thy ===== *)
theory Fat_Dir
  imports Fat_File
begin

text \<open>
  Directories, after \<^verbatim>\<open>fat/dir.c\<close>: the cursor that steps through the entries of a directory, the searches built on it, and adding and removing entries.
  An entry is 32 bytes of the buffer cache, named by its address; a cursor has the position of the \<^emph>\<open>next\<close> entry, the block that is held and
  the address of the current entry, as \<^verbatim>\<open>pos\<close>, \<^verbatim>\<open>bh\<close> and \<^verbatim>\<open>de\<close> do.  As in \<open>Fat_File\<close>, \<open>None\<close> stands for a failed \<^verbatim>\<open>BUG_ON\<close>, and here also for a loop that does not end.
  Reading ahead has no effect on the contents and no counterpart.
\<close>

subsection \<open>The cursor\<close>

record dir_cursor =
  c_pos :: nat
  c_bh :: "nat option"
  c_de :: "nat option"

definition DELETED_FLAG :: u8 where "DELETED_FLAG = 0xe5"
definition ATTR_EXT :: u8 where "ATTR_EXT = 15"

text \<open>\<^verbatim>\<open>sizeof(struct msdos_dir_entry)\<close>\<close>

definition DE_SIZE :: nat where "DE_SIZE = 32"

definition dir_per_block :: "fat_fs \<Rightarrow> nat" where
  "dir_per_block fs = s_blocksize fs div DE_SIZE"

definition fat_make_i_pos :: "fat_fs \<Rightarrow> nat \<Rightarrow> nat \<Rightarrow> nat" where
  "fat_make_i_pos fs bh de = push_bit (dir_per_block_bits fs) bh OR ((de - b_data fs bh) div DE_SIZE)"

definition IS_FREE :: "nat \<Rightarrow> mem \<Rightarrow> bool" where
  "IS_FREE de m \<longleftrightarrow> m de = 0 \<or> m de = DELETED_FLAG"

definition de_attr :: "nat \<Rightarrow> mem \<Rightarrow> u8" where
  "de_attr de m = m (de + 11)"

definition de_name :: "nat \<Rightarrow> mem \<Rightarrow> u8 list" where
  "de_name de m = map (\<lambda>i. m (de + i)) [0..<11]"

partial_function (option) get_entry_slow :: "(msdos_inode \<Rightarrow> msdos_inode) \<Rightarrow> msdos_inode \<Rightarrow> dir_cursor \<Rightarrow> fat_fs \<Rightarrow>
    (bool \<times> dir_cursor \<times> msdos_inode \<times> fat_fs) option" where
  "get_entry_slow others dir cur fs =
     (let cur = cur\<lparr>c_bh := None\<rparr>;
          iblock = drop_bit (s_blocksize_bits fs) (c_pos cur)
      in (case fat_bmap others dir iblock False False fs of
            None \<Rightarrow> None
          | Some (Inl e, dir, fs) \<Rightarrow> Some (False, cur, dir, fs)
          | Some (Inr (phys, _), dir, fs) \<Rightarrow>
              if phys = 0 then Some (False, cur, dir, fs)
              else (case run_state (sb_bread phys) fs of
                      (Inl _, fs) \<Rightarrow> get_entry_slow others dir (cur\<lparr>c_pos := push_bit (s_blocksize_bits fs) (iblock + 1)\<rparr>) fs
                    | (Inr _, fs) \<Rightarrow>
                        Some (True, \<lparr>c_pos = c_pos cur + DE_SIZE, c_bh = Some phys,
                          c_de = Some (b_data fs phys + (c_pos cur AND (s_blocksize fs - 1)))\<rparr>, dir, fs))))"

definition fat_get_entry :: "(msdos_inode \<Rightarrow> msdos_inode) \<Rightarrow> msdos_inode \<Rightarrow> dir_cursor \<Rightarrow> fat_fs \<Rightarrow> (bool \<times> dir_cursor \<times> msdos_inode \<times> fat_fs) option" where
  "fat_get_entry others dir cur fs =
     (case (c_bh cur, c_de cur) of
        (Some bh, Some de) \<Rightarrow>
          if int ((de - b_data fs bh) div DE_SIZE) < int (dir_per_block fs) - 1
          then Some (True, cur\<lparr>c_pos := c_pos cur + DE_SIZE, c_de := Some (de + DE_SIZE)\<rparr>, dir, fs)
          else get_entry_slow others dir cur fs
      | _ \<Rightarrow> get_entry_slow others dir cur fs)"

subsection \<open>Searching\<close>

partial_function (option) fat_get_short_entry :: "(msdos_inode \<Rightarrow> msdos_inode) \<Rightarrow> msdos_inode \<Rightarrow> dir_cursor \<Rightarrow> fat_fs \<Rightarrow>
    (bool \<times> dir_cursor \<times> msdos_inode \<times> fat_fs) option" where
  "fat_get_short_entry others dir cur fs =
     (case fat_get_entry others dir cur fs of
        None \<Rightarrow> None
      | Some (found, cur, dir, fs) \<Rightarrow>
          if \<not> found then Some (False, cur, dir, fs)
          else (let de = the (c_de cur)
                in if \<not> IS_FREE de (fdev fs) \<and> de_attr de (fdev fs) AND ATTR_VOLUME = 0 then Some (True, cur, dir, fs)
                   else fat_get_short_entry others dir cur fs))"

definition cursor0 :: dir_cursor where
  "cursor0 = \<lparr>c_pos = 0, c_bh = None, c_de = None\<rparr>"

definition MSDOS_DOT :: "u8 list" where
  "MSDOS_DOT = 46 # replicate 10 32"

definition MSDOS_DOTDOT :: "u8 list" where
  "MSDOS_DOTDOT = 46 # 46 # replicate 9 32"

text \<open>
  Names of entries are compared with \<^verbatim>\<open>strncmp\<close>, which stops behind a null byte.
\<close>

fun strncmp_eq :: "u8 list \<Rightarrow> u8 list \<Rightarrow> bool" where
  "strncmp_eq (a # as) (b # bs) = (a = b \<and> (a = 0 \<or> strncmp_eq as bs))"
| "strncmp_eq _ _ = True"

partial_function (option) dotdot_loop :: "(msdos_inode \<Rightarrow> msdos_inode) \<Rightarrow> msdos_inode \<Rightarrow> dir_cursor \<Rightarrow> fat_fs \<Rightarrow>
    ((errno + dir_cursor) \<times> msdos_inode \<times> fat_fs) option" where
  "dotdot_loop others dir cur fs =
     (case fat_get_short_entry others dir cur fs of
        None \<Rightarrow> None
      | Some (found, cur, dir, fs) \<Rightarrow>
          if \<not> found then Some (Inl ENOENT, dir, fs)
          else if strncmp_eq (de_name (the (c_de cur)) (fdev fs)) MSDOS_DOTDOT then Some (Inr cur, dir, fs)
          else dotdot_loop others dir cur fs)"

definition fat_get_dotdot_entry :: "(msdos_inode \<Rightarrow> msdos_inode) \<Rightarrow> msdos_inode \<Rightarrow> fat_fs \<Rightarrow> ((errno + dir_cursor) \<times> msdos_inode \<times> fat_fs) option" where
  "fat_get_dotdot_entry others dir fs = dotdot_loop others dir cursor0 fs"

partial_function (option) dir_empty_loop :: "(msdos_inode \<Rightarrow> msdos_inode) \<Rightarrow> msdos_inode \<Rightarrow> dir_cursor \<Rightarrow> fat_fs \<Rightarrow>
    ((errno + unit) \<times> msdos_inode \<times> fat_fs) option" where
  "dir_empty_loop others dir cur fs =
     (case fat_get_short_entry others dir cur fs of
        None \<Rightarrow> None
      | Some (found, cur, dir, fs) \<Rightarrow>
          if \<not> found then Some (Inr (), dir, fs)
          else (let name = de_name (the (c_de cur)) (fdev fs)
                in if \<not> strncmp_eq name MSDOS_DOT \<and> \<not> strncmp_eq name MSDOS_DOTDOT then Some (Inl ENOTEMPTY, dir, fs)
                   else dir_empty_loop others dir cur fs))"

definition fat_dir_empty :: "(msdos_inode \<Rightarrow> msdos_inode) \<Rightarrow> msdos_inode \<Rightarrow> fat_fs \<Rightarrow> ((errno + unit) \<times> msdos_inode \<times> fat_fs) option" where
  "fat_dir_empty others dir fs = dir_empty_loop others dir cursor0 fs"

partial_function (option) subdirs_loop :: "(msdos_inode \<Rightarrow> msdos_inode) \<Rightarrow> msdos_inode \<Rightarrow> dir_cursor \<Rightarrow> nat \<Rightarrow> fat_fs \<Rightarrow> (nat \<times> msdos_inode \<times> fat_fs) option" where
  "subdirs_loop others dir cur n fs =
     (case fat_get_short_entry others dir cur fs of
        None \<Rightarrow> None
      | Some (found, cur, dir, fs) \<Rightarrow>
          if \<not> found then Some (n, dir, fs)
          else subdirs_loop others dir cur (if de_attr (the (c_de cur)) (fdev fs) AND ATTR_DIR \<noteq> 0 then n + 1 else n) fs)"

definition fat_subdirs :: "(msdos_inode \<Rightarrow> msdos_inode) \<Rightarrow> msdos_inode \<Rightarrow> fat_fs \<Rightarrow> (nat \<times> msdos_inode \<times> fat_fs) option" where
  "fat_subdirs others dir fs = subdirs_loop others dir cursor0 0 fs"

record fat_slot_info =
  si_i_pos :: nat
  slot_off :: nat
  nr_slots :: nat
  si_de :: nat
  si_bh :: nat

definition found_slot :: "fat_fs \<Rightarrow> dir_cursor \<Rightarrow> fat_slot_info" where
  "found_slot fs cur = \<lparr>si_i_pos = fat_make_i_pos fs (the (c_bh cur)) (the (c_de cur)), slot_off = c_pos cur - DE_SIZE, nr_slots = 1,
     si_de = the (c_de cur), si_bh = the (c_bh cur)\<rparr>"

partial_function (option) scan_loop :: "(msdos_inode \<Rightarrow> msdos_inode) \<Rightarrow> (nat \<Rightarrow> fat_fs \<Rightarrow> bool) \<Rightarrow> msdos_inode \<Rightarrow> dir_cursor \<Rightarrow> fat_fs \<Rightarrow>
    ((errno + fat_slot_info) \<times> msdos_inode \<times> fat_fs) option" where
  "scan_loop others matches dir cur fs =
     (case fat_get_short_entry others dir cur fs of
        None \<Rightarrow> None
      | Some (found, cur, dir, fs) \<Rightarrow>
          if \<not> found then Some (Inl ENOENT, dir, fs)
          else if matches (the (c_de cur)) fs then Some (Inr (found_slot fs cur), dir, fs)
          else scan_loop others matches dir cur fs)"

definition fat_scan :: "(msdos_inode \<Rightarrow> msdos_inode) \<Rightarrow> msdos_inode \<Rightarrow> u8 list \<Rightarrow> fat_fs \<Rightarrow> ((errno + fat_slot_info) \<times> msdos_inode \<times> fat_fs) option" where
  "fat_scan others dir name fs = scan_loop others (\<lambda>de fs. strncmp_eq (de_name de (fdev fs)) name) dir cursor0 fs"

definition fat_scan_logstart :: "(msdos_inode \<Rightarrow> msdos_inode) \<Rightarrow> msdos_inode \<Rightarrow> int \<Rightarrow> fat_fs \<Rightarrow> ((errno + fat_slot_info) \<times> msdos_inode \<times> fat_fs) option" where
  "fat_scan_logstart others dir logstart fs = scan_loop others (\<lambda>de fs. fat_get_start fs de (fdev fs) = logstart) dir cursor0 fs"

subsection \<open>Removing entries\<close>

text \<open>From the entry with number \<open>k\<close> of the block at \<open>base\<close> backwards, at most to the first of the block; the number of slots left is returned.\<close>

fun delete_back :: "nat \<Rightarrow> nat \<Rightarrow> nat \<Rightarrow> mem \<Rightarrow> nat \<times> mem" where
  "delete_back 0 k base m = (0, m)"
| "delete_back (Suc n) 0 base m = (n, m(base := DELETED_FLAG))"
| "delete_back (Suc n) (Suc k) base m = delete_back n k base (m(base + DE_SIZE * Suc k := DELETED_FLAG))"

fun delete_forward :: "nat \<Rightarrow> nat \<Rightarrow> nat \<Rightarrow> mem \<Rightarrow> nat \<times> mem" where
  "delete_forward 0 de endp m = (0, m)"
| "delete_forward (Suc n) de endp m = (if de < endp then delete_forward n (de + DE_SIZE) endp (m(de := DELETED_FLAG)) else (Suc n, m))"

definition dir_sync :: "msdos_inode \<Rightarrow> fat_fs \<Rightarrow> (errno + unit) \<times> fat_fs" where
  "dir_sync dir fs = (if i_dirsync dir then run_state (fallible EIO) fs else (Inr (), fs))"

partial_function (option) raw_remove_entries :: "(msdos_inode \<Rightarrow> msdos_inode) \<Rightarrow> msdos_inode \<Rightarrow> nat \<Rightarrow> nat \<Rightarrow> fat_fs \<Rightarrow>
    ((errno + unit) \<times> msdos_inode \<times> fat_fs) option" where
  "raw_remove_entries others dir p n fs =
     (if n = 0 then Some (Inr (), dir, fs)
      else (case fat_get_entry others dir \<lparr>c_pos = p, c_bh = None, c_de = None\<rparr> fs of
              None \<Rightarrow> None
            | Some (found, cur, dir, fs) \<Rightarrow>
                if \<not> found then Some (Inl EIO, dir, fs)
                else (case delete_forward n (the (c_de cur)) (b_data fs (the (c_bh cur)) + s_blocksize fs) (fdev fs) of
                        (left, m) \<Rightarrow>
                          (case dir_sync dir (fs\<lparr>fdev := m\<rparr>) of
                             (Inl e, fs) \<Rightarrow> Some (Inl e, dir, fs)
                           | (Inr _, fs) \<Rightarrow> raw_remove_entries others dir (c_pos cur + (n - left) * DE_SIZE - DE_SIZE) left fs))))"

definition update_dir_inode :: "(int \<Rightarrow> int \<Rightarrow> tm) \<Rightarrow> msdos_inode \<Rightarrow> fat_fs \<Rightarrow> msdos_inode \<times> fat_fs" where
  "update_dir_inode time64_to_tm dir fs =
     (if i_dirsync dir then (dir, snd (run_state (fat_sync_inode time64_to_tm dir) fs)) else (mark_inode_dirty dir, fs))"

definition fat_remove_entries :: "(int \<Rightarrow> int \<Rightarrow> tm) \<Rightarrow> (msdos_inode \<Rightarrow> msdos_inode) \<Rightarrow> timespec64 \<Rightarrow> msdos_inode \<Rightarrow> fat_slot_info \<Rightarrow> fat_fs \<Rightarrow>
    ((errno + unit) \<times> msdos_inode \<times> fat_fs) option" where
  "fat_remove_entries time64_to_tm others now dir sinfo fs =
     (let base = b_data fs (si_bh sinfo);
          (left, m) = delete_back (nr_slots sinfo) ((si_de sinfo - base) div DE_SIZE) base (fdev fs)
      in (case dir_sync dir (fs\<lparr>fdev := m\<rparr>) of
            (Inl e, fs) \<Rightarrow> Some (Inl e, dir, fs)
          | (Inr _, fs) \<Rightarrow>
              (case (if left = 0 then Some (Inr (), dir, fs) else raw_remove_entries others dir (slot_off sinfo) left fs) of
                 None \<Rightarrow> None
               | Some (_, dir, fs) \<Rightarrow>
                   (case update_dir_inode time64_to_tm (fat_truncate_time fs now (S_ATIME OR S_MTIME) dir) fs of
                      (dir, fs) \<Rightarrow> Some (Inr (), dir, fs)))))"

subsection \<open>Adding entries\<close>

definition put_bytes :: "nat \<Rightarrow> u8 list \<Rightarrow> mem \<Rightarrow> mem" where
  "put_bytes p bs m = (\<lambda>a. if p \<le> a \<and> a < p + length bs then bs ! (a - p) else m a)"

text \<open>Clearing blocks; on an error the buffers are forgotten by the source, here they stay as they are, in a cluster no file refers to.\<close>

function zero_loop :: "bool \<Rightarrow> nat \<Rightarrow> nat \<Rightarrow> nat list \<Rightarrow> nat \<Rightarrow> fat_fs \<Rightarrow> (errno + unit) \<times> fat_fs" where
  "zero_loop sync blknr last_blknr bs nr fs =
     (if blknr < last_blknr
      then (case run_state (fallible ENOMEM) fs of
              (Inl e, fs) \<Rightarrow> (Inl e, fs)
            | (Inr _, fs) \<Rightarrow>
                (let fs = fs\<lparr>fdev := put_bytes (b_data fs blknr) (replicate (s_blocksize fs) 0) (fdev fs)\<rparr>;
                     bs = bs @ [blknr]
                 in if length bs = nr
                    then (case (if sync then run_state (fat_sync_bhs bs) fs else (Inr (), fs)) of
                            (Inl e, fs) \<Rightarrow> (Inl e, fs)
                          | (Inr _, fs) \<Rightarrow> zero_loop sync (blknr + 1) last_blknr [] nr fs)
                    else zero_loop sync (blknr + 1) last_blknr bs nr fs))
      else if sync then run_state (fat_sync_bhs bs) fs else (Inr (), fs))"
  by pat_completeness auto
termination
  by (relation "measure (\<lambda>(_, blknr, last_blknr, _). last_blknr - blknr)") auto

declare zero_loop.simps [simp del]

definition fat_zeroed_cluster :: "msdos_inode \<Rightarrow> nat \<Rightarrow> nat list \<Rightarrow> nat \<Rightarrow> fat_fs \<Rightarrow> (errno + unit) \<times> fat_fs" where
  "fat_zeroed_cluster dir blknr used nr fs = zero_loop (i_dirsync dir) (blknr + length used) (blknr + sec_per_clus fs) used nr fs"

definition new_dir_entry :: "(int \<Rightarrow> int \<Rightarrow> tm) \<Rightarrow> fat_fs \<Rightarrow> timespec64 \<Rightarrow> u8 list \<Rightarrow> int \<Rightarrow> nat \<Rightarrow> mem \<Rightarrow> mem" where
  "new_dir_entry time64_to_tm fs ts name cluster de m =
     (let (time, date, time_cs) = fat_time_unix2fat time64_to_tm fs ts;
          vfat = isvfat (options fs);
          m = put_bytes de name m;
          m = m(de + 11 := ATTR_DIR, de + 12 := 0, de + 13 := (if vfat then time_cs else 0));
          m = put_le16_entry (de + 24) date (put_le16_entry (de + 22) time m);
          m = put_le16_entry (de + 14) (if vfat then time else 0) m;
          m = put_le16_entry (de + 18) (if vfat then date else 0) (put_le16_entry (de + 16) (if vfat then date else 0) m);
          m = fat_set_start de cluster m
      in put_le32_at (de + 28) 0 m)"

definition fat_alloc_new_dir :: "(int \<Rightarrow> int \<Rightarrow> tm) \<Rightarrow> msdos_inode \<Rightarrow> timespec64 \<Rightarrow> fat_fs \<Rightarrow> ((errno + nat) \<times> fat_fs) option" where
  "fat_alloc_new_dir time64_to_tm dir ts fs =
     (case fat_alloc_clusters 1 (inode_needs_sync dir) fs of
        None \<Rightarrow> None
      | Some (Inl e, _, fs) \<Rightarrow> Some (Inl e, fs)
      | Some (Inr _, cl, fs) \<Rightarrow>
          (let cluster = cl ! 0; blknr = fat_clus_to_blknr fs (int cluster)
           in (case run_state (fallible ENOMEM) fs of
                 (Inl e, fs) \<Rightarrow> map_option (\<lambda>(_, fs). (Inl e, fs)) (fat_free_clusters (int cluster) fs)
               | (Inr _, fs) \<Rightarrow>
                   (let de = b_data fs blknr;
                        m = new_dir_entry time64_to_tm fs ts MSDOS_DOT (int cluster) de (fdev fs);
                        m = new_dir_entry time64_to_tm fs ts MSDOS_DOTDOT (i_logstart dir) (de + DE_SIZE) m;
                        fs = fs\<lparr>fdev := put_bytes (de + 2 * DE_SIZE) (replicate (s_blocksize fs - 2 * DE_SIZE) 0) m\<rparr>
                    in (case fat_zeroed_cluster dir blknr [blknr] MAX_BUF_PER_PAGE fs of
                          (Inl e, fs) \<Rightarrow> map_option (\<lambda>(_, fs). (Inl e, fs)) (fat_free_clusters (int cluster) fs)
                        | (Inr _, fs) \<Rightarrow> Some (Inr cluster, fs))))))"

text \<open>The two nested loops of \<^verbatim>\<open>fat_add_new_entries\<close>: the blocks of one cluster, and the clusters.\<close>

fun fill_blocks :: "nat \<Rightarrow> nat \<Rightarrow> u8 list \<Rightarrow> nat list \<Rightarrow> nat \<Rightarrow> fat_fs \<Rightarrow> ((errno + nat) \<times> u8 list \<times> nat list) \<times> fat_fs" where
  "fill_blocks 0 blknr slots bs copy fs = ((Inr copy, slots, bs), fs)"
| "fill_blocks (Suc k) blknr slots bs copy fs =
     (case run_state (fallible ENOMEM) fs of
        (Inl e, fs) \<Rightarrow> ((Inl e, slots, bs), fs)
      | (Inr _, fs) \<Rightarrow>
          (let copy = min (length slots) (s_blocksize fs);
               fs = fs\<lparr>fdev := put_bytes (b_data fs blknr) (take copy slots) (fdev fs)\<rparr>;
               slots = drop copy slots;
               bs = bs @ [blknr]
           in if slots = [] then ((Inr copy, slots, bs), fs) else fill_blocks k (blknr + 1) slots bs copy fs))"

fun fill_clusters :: "nat list \<Rightarrow> u8 list \<Rightarrow> nat list \<Rightarrow> nat \<Rightarrow> nat \<Rightarrow> fat_fs \<Rightarrow> ((errno + nat \<times> nat) \<times> nat list) \<times> fat_fs" where
  "fill_clusters [] slots bs copy start fs = ((Inr (copy, start), bs), fs)"
| "fill_clusters (c # cs) slots bs copy start fs =
     (let start = fat_clus_to_blknr fs (int c)
      in (case fill_blocks (sec_per_clus fs) start slots bs copy fs of
            ((Inl e, _, bs), fs) \<Rightarrow> ((Inl e, bs), fs)
          | ((Inr copy, slots, bs), fs) \<Rightarrow> fill_clusters cs slots bs copy start fs))"

text \<open>The first cluster, how many there are, and block and address of the last entry.\<close>

definition fat_add_new_entries :: "msdos_inode \<Rightarrow> u8 list \<Rightarrow> fat_fs \<Rightarrow> ((errno + nat \<times> nat \<times> nat \<times> nat) \<times> fat_fs) option" where
  "fat_add_new_entries dir slots fs =
     (let nr_cluster = drop_bit (cluster_bits fs) (length slots + (2 ^ cluster_bits fs - 1))
      in if 2 < nr_cluster then None
         else (case fat_alloc_clusters nr_cluster (inode_needs_sync dir) fs of
                 None \<Rightarrow> None
               | Some (Inl e, _, fs) \<Rightarrow> Some (Inl e, fs)
               | Some (Inr _, cl, fs) \<Rightarrow>
                   (case fill_clusters cl slots [] 0 0 fs of
                      ((Inl e, _), fs) \<Rightarrow> map_option (\<lambda>(_, fs). (Inl e, fs)) (fat_free_clusters (int (cl ! 0)) fs)
                    | ((Inr (copy, start), bs), fs) \<Rightarrow>
                        (let bh = last bs;
                             fs = fs\<lparr>fdev := put_bytes (b_data fs bh + copy) (replicate (s_blocksize fs - copy) 0) (fdev fs)\<rparr>
                         in (case fat_zeroed_cluster dir start bs MAX_BUF_PER_PAGE fs of
                               (Inl e, fs) \<Rightarrow> map_option (\<lambda>(_, fs). (Inl e, fs)) (fat_free_clusters (int (cl ! 0)) fs)
                             | (Inr _, fs) \<Rightarrow> Some (Inr (cl ! 0, nr_cluster, bh, b_data fs bh + copy - DE_SIZE), fs))))))"

definition FAT_MAX_DIR_SIZE :: nat where "FAT_MAX_DIR_SIZE = 65536 * 32"

text \<open>
  The first stage: whether a run of \<open>n\<close> free entries was found, the cursor, the length of the last run of free entries and its blocks.
\<close>

partial_function (option) free_run :: "(msdos_inode \<Rightarrow> msdos_inode) \<Rightarrow> msdos_inode \<Rightarrow> nat \<Rightarrow> dir_cursor \<Rightarrow> nat \<Rightarrow> nat list \<Rightarrow> fat_fs \<Rightarrow>
    ((errno + bool \<times> dir_cursor \<times> nat \<times> nat list) \<times> msdos_inode \<times> fat_fs) option" where
  "free_run others dir n cur free bs fs =
     (case fat_get_entry others dir cur fs of
        None \<Rightarrow> None
      | Some (found, cur, dir, fs) \<Rightarrow>
          if \<not> found then Some (Inr (False, cur, free, bs), dir, fs)
          else if FAT_MAX_DIR_SIZE \<le> c_pos cur then Some (Inl ENOSPC, dir, fs)
          else if IS_FREE (the (c_de cur)) (fdev fs)
          then (let bs = (if bs \<noteq> [] \<and> last bs = the (c_bh cur) then bs else bs @ [the (c_bh cur)])
                in if free + 1 = n then Some (Inr (True, cur, free + 1, bs), dir, fs)
                   else free_run others dir n cur (free + 1) bs fs)
          else free_run others dir n cur 0 [] fs)"

fun fill_free :: "nat list \<Rightarrow> nat \<Rightarrow> u8 list \<Rightarrow> fat_fs \<Rightarrow> u8 list \<times> nat \<times> fat_fs" where
  "fill_free [] offset slots fs = (slots, offset, fs)"
| "fill_free (b # bs) offset slots fs =
     (let copy = min (s_blocksize fs - offset) (length slots)
      in fill_free bs 0 (drop copy slots) (fs\<lparr>fdev := put_bytes (b_data fs b + offset) (take copy slots) (fdev fs)\<rparr>))"

text \<open>The second stage; \<open>slots\<close> are the bytes that go into the free entries and \<open>full\<close> says that those are all.\<close>

definition write_free :: "msdos_inode \<Rightarrow> nat list \<Rightarrow> nat \<Rightarrow> bool \<Rightarrow> u8 list \<Rightarrow> fat_fs \<Rightarrow> (errno + unit) \<times> fat_fs" where
  "write_free dir bs offset full slots fs =
     (let long_bhs = length bs - (if full then 1 else 0)
      in (case fill_free (take long_bhs bs) offset slots fs of
            (slots, offset, fs) \<Rightarrow>
              (case (if 0 < long_bhs \<and> i_dirsync dir then run_state (fat_sync_bhs (take long_bhs bs)) fs else (Inr (), fs)) of
                 (Inl e, fs) \<Rightarrow> (Inl e, fs)
               | (Inr _, fs) \<Rightarrow>
                   if long_bhs < length bs
                   then (case fill_free [bs ! long_bhs] offset slots fs of (_, _, fs) \<Rightarrow> dir_sync dir fs)
                   else (Inr (), fs))))"

text \<open>The third stage: new clusters for the entries that are left, and the directory grown by them.\<close>

definition grow_dir :: "(int \<Rightarrow> int \<Rightarrow> tm) \<Rightarrow> (msdos_inode \<Rightarrow> msdos_inode) \<Rightarrow> msdos_inode \<Rightarrow> u8 list \<Rightarrow> fat_fs \<Rightarrow>
    ((errno + nat \<times> nat) \<times> msdos_inode \<times> fat_fs) option" where
  "grow_dir time64_to_tm others dir slots fs =
     (case fat_add_new_entries dir slots fs of
        None \<Rightarrow> None
      | Some (Inl e, fs) \<Rightarrow> Some (Inl e, dir, fs)
      | Some (Inr (cluster, nr_cluster, bh, de), fs) \<Rightarrow>
          (case fat_chain_add time64_to_tm others dir (int cluster) nr_cluster fs of
             None \<Rightarrow> None
           | Some (Inl e, dir, fs) \<Rightarrow> map_option (\<lambda>(_, fs). (Inl e, dir, fs)) (fat_free_clusters (int cluster) fs)
           | Some (Inr _, dir, fs) \<Rightarrow>
               (let size = 2 ^ cluster_bits fs;
                    (dir, fs) = (if i_size dir AND (size - 1) \<noteq> 0
                                 then (dir\<lparr>i_size := (i_size dir + size - 1) div size * size\<rparr>, snd (run_state fat_fs_error fs)) else (dir, fs));
                    added = push_bit (cluster_bits fs) nr_cluster
                in Some (Inr (bh, de), dir\<lparr>i_size := i_size dir + added, mmu_private := mmu_private dir + added\<rparr>, fs))))"

definition fat_add_entries :: "(int \<Rightarrow> int \<Rightarrow> tm) \<Rightarrow> (msdos_inode \<Rightarrow> msdos_inode) \<Rightarrow> msdos_inode \<Rightarrow> u8 list \<Rightarrow> nat \<Rightarrow> fat_fs \<Rightarrow>
    ((errno + fat_slot_info) \<times> msdos_inode \<times> fat_fs) option" where
  "fat_add_entries time64_to_tm others dir slots n fs =
     (case free_run others dir n cursor0 0 [] fs of
        None \<Rightarrow> None
      | Some (Inl e, dir, fs) \<Rightarrow> Some (Inl e, dir, fs)
      | Some (Inr (enough, cur, free, bs), dir, fs) \<Rightarrow>
          if \<not> enough \<and> i_root dir \<and> \<not> is_fat32 fs then Some (Inl ENOSPC, dir, fs)
          else if \<not> enough \<and> \<not> i_root dir \<and> i_start dir = 0 then Some (Inl EIO, dir, fs)
          else (let p = c_pos cur - free * DE_SIZE;
                    offset = p AND (s_blocksize fs - 1);
                    undo = (\<lambda>e dir fs. if free = 0 then Some (Inl e, dir, fs)
                              else map_option (\<lambda>(_, dir, fs). (Inl e, dir, fs)) (raw_remove_entries others dir p free fs));
                    ready = (\<lambda>bh de dir fs. Some (Inr \<lparr>si_i_pos = fat_make_i_pos fs bh de, slot_off = p, nr_slots = n, si_de = de, si_bh = bh\<rparr>, dir, fs))
                in (case (if free = 0 then (Inr (), fs) else write_free dir bs offset (n = free) (take (free * DE_SIZE) slots) fs) of
                      (Inl e, fs) \<Rightarrow> undo e dir fs
                    | (Inr _, fs) \<Rightarrow>
                        if n = free then ready (the (c_bh cur)) (the (c_de cur)) dir fs
                        else (case grow_dir time64_to_tm others dir (drop (free * DE_SIZE) slots) fs of
                                None \<Rightarrow> None
                              | Some (Inl e, dir, fs) \<Rightarrow> undo e dir fs
                              | Some (Inr (bh, de), dir, fs) \<Rightarrow> ready bh de dir fs))))"

end
