(* ===== verification/Fat_Lookup.thy ===== *)
theory Fat_Lookup
  imports Fat_Dir
begin

text \<open>
  What the operations on directories do to the sequence of entries.  A directory is the list of its blocks; the locale \<open>dir_map\<close> is what the cursor relies on: that
  \<^verbatim>\<open>fat_bmap\<close> maps the blocks of the directory to that list and nothing behind its end, and that writing into the blocks does not change the mapping.
  It is interpreted for the directories of the file system, which are a chain of clusters or the fixed area of the root directory of FAT12 and FAT16.
\<close>

subsection \<open>Entries by number\<close>

definition slot_addr :: "fat_fs \<Rightarrow> nat list \<Rightarrow> nat \<Rightarrow> nat" where
  "slot_addr fs bs k = b_data fs (bs ! (k div dir_per_block fs)) + DE_SIZE * (k mod dir_per_block fs)"

definition nr_entries :: "fat_fs \<Rightarrow> nat list \<Rightarrow> nat" where
  "nr_entries fs bs = length bs * dir_per_block fs"

definition live :: "fat_fs \<Rightarrow> nat \<Rightarrow> bool" where
  "live fs de \<longleftrightarrow> \<not> IS_FREE de (fdev fs) \<and> de_attr de (fdev fs) AND ATTR_VOLUME = 0"

text \<open>The cursor in front of entry \<open>k\<close>, the entry before it being the current one unless there is none.\<close>

definition cursor_at :: "fat_fs \<Rightarrow> nat list \<Rightarrow> nat \<Rightarrow> dir_cursor \<Rightarrow> bool" where
  "cursor_at fs bs k cur \<longleftrightarrow> c_pos cur = DE_SIZE * k \<and>
     (c_bh cur = None \<or> 0 < k \<and> c_bh cur = Some (bs ! ((k - 1) div dir_per_block fs)) \<and> c_de cur = Some (slot_addr fs bs (k - 1)))"

definition cursor_on :: "fat_fs \<Rightarrow> nat list \<Rightarrow> nat \<Rightarrow> dir_cursor" where
  "cursor_on fs bs k = \<lparr>c_pos = DE_SIZE * Suc k, c_bh = Some (bs ! (k div dir_per_block fs)), c_de = Some (slot_addr fs bs k)\<rparr>"

lemma cursor_at_on [simp]: "cursor_at fs bs (Suc k) (cursor_on fs bs k)"
  by (simp add: cursor_at_def cursor_on_def)

lemma cursor_at_0 [simp]: "cursor_at fs bs 0 cursor0"
  by (simp add: cursor_at_def cursor0_def)

definition dir_geometry :: "fat_fs \<Rightarrow> bool" where
  "dir_geometry fs \<longleftrightarrow> s_blocksize fs = 2 ^ s_blocksize_bits fs \<and> 5 \<le> s_blocksize_bits fs"

lemma block_entries:
  assumes "dir_geometry fs"
  shows "s_blocksize fs = DE_SIZE * dir_per_block fs" and "0 < dir_per_block fs"
proof -
  have "s_blocksize fs = DE_SIZE * 2 ^ (s_blocksize_bits fs - 5)"
    using assms power_add [of "2 :: nat" 5 "s_blocksize_bits fs - 5"] by (simp add: dir_geometry_def DE_SIZE_def)
  then show "s_blocksize fs = DE_SIZE * dir_per_block fs" "0 < dir_per_block fs" by (simp_all add: dir_per_block_def DE_SIZE_def)
qed

lemma pos_block:
  assumes "dir_geometry fs"
  shows "drop_bit (s_blocksize_bits fs) (DE_SIZE * k) = k div dir_per_block fs"
    and "DE_SIZE * k AND (s_blocksize fs - 1) = DE_SIZE * (k mod dir_per_block fs)"
proof -
  have b: "2 ^ s_blocksize_bits fs = DE_SIZE * dir_per_block fs" using assms block_entries(1) [OF assms] by (simp add: dir_geometry_def)
  have "drop_bit (s_blocksize_bits fs) (DE_SIZE * k) = DE_SIZE * k div (DE_SIZE * dir_per_block fs)" unfolding drop_bit_eq_div b ..
  also have "\<dots> = k div dir_per_block fs" by (rule div_mult_mult1) (simp add: DE_SIZE_def)
  finally show "drop_bit (s_blocksize_bits fs) (DE_SIZE * k) = k div dir_per_block fs" .
  have "s_blocksize fs = 2 ^ s_blocksize_bits fs" using assms by (simp add: dir_geometry_def)
  then have "DE_SIZE * k AND (s_blocksize fs - 1) = DE_SIZE * k mod 2 ^ s_blocksize_bits fs" using and_exp_minus_1 [of "DE_SIZE * k" "s_blocksize_bits fs"] by simp
  also have "\<dots> = DE_SIZE * (k mod dir_per_block fs)" unfolding b by (rule mod_mult_mult1)
  finally show "DE_SIZE * k AND (s_blocksize fs - 1) = DE_SIZE * (k mod dir_per_block fs)" .
qed

lemma slot_addr_block:
  assumes "dir_geometry fs"
  shows "slot_addr fs bs k + j - b_data fs (bs ! (k div dir_per_block fs)) = DE_SIZE * (k mod dir_per_block fs) + j"
    and "j < DE_SIZE \<Longrightarrow> (slot_addr fs bs k + j) div s_blocksize fs = bs ! (k div dir_per_block fs)"
proof -
  show "slot_addr fs bs k + j - b_data fs (bs ! (k div dir_per_block fs)) = DE_SIZE * (k mod dir_per_block fs) + j" by (simp add: slot_addr_def)
  assume j: "j < DE_SIZE"
  have "Suc (k mod dir_per_block fs) \<le> dir_per_block fs" using block_entries(2) [OF assms] by (simp add: Suc_le_eq)
  then have "DE_SIZE * Suc (k mod dir_per_block fs) \<le> DE_SIZE * dir_per_block fs" by (rule mult_le_mono2)
  then have lt: "DE_SIZE * (k mod dir_per_block fs) + j < s_blocksize fs" using j block_entries(1) [OF assms] by simp
  have "(bs ! (k div dir_per_block fs) * s_blocksize fs + (DE_SIZE * (k mod dir_per_block fs) + j)) div s_blocksize fs = bs ! (k div dir_per_block fs)"
    using lt by (simp add: div_mult_self3)
  then show "(slot_addr fs bs k + j) div s_blocksize fs = bs ! (k div dir_per_block fs)" by (simp only: slot_addr_def b_data_def add.assoc)
qed

lemma slot_next:
  assumes "dir_geometry fs" and "0 < k" and "(k - 1) mod dir_per_block fs + 1 < dir_per_block fs"
  shows "k div dir_per_block fs = (k - 1) div dir_per_block fs" and "slot_addr fs bs k = slot_addr fs bs (k - 1) + DE_SIZE"
proof -
  have m: "k mod dir_per_block fs = (k - 1) mod dir_per_block fs + 1" and d: "k div dir_per_block fs = (k - 1) div dir_per_block fs"
    using assms(2,3) by (cases k; simp add: mod_Suc div_Suc)+
  show "k div dir_per_block fs = (k - 1) div dir_per_block fs" by (rule d)
  show "slot_addr fs bs k = slot_addr fs bs (k - 1) + DE_SIZE" by (simp add: slot_addr_def d m)
qed

lemma last_index: "0 < d \<Longrightarrow> 0 < n * d \<Longrightarrow> (n * d - 1) mod d = d - (1 :: nat)"
proof -
  assume d: "0 < d" "0 < n * d"
  then obtain m where "n = Suc m" by (cases n) auto
  then have "n * d - 1 = d - 1 + m * d" using d by simp
  then show "(n * d - 1) mod d = d - 1" using d by (simp only: mod_mult_self1) simp
qed

text \<open>Searching a range for the first number with two properties, by way of the numbers with the first one.\<close>

lemma find_upt_and:
  "find P [k..<n] = None \<Longrightarrow> find (\<lambda>j. P j \<and> Q j) [k..<n] = None"
  "find P [k..<n] = Some j \<Longrightarrow> find (\<lambda>j. P j \<and> Q j) [k..<n] = (if Q j then Some j else find (\<lambda>j. P j \<and> Q j) [Suc j..<n])"
  "find P [k..<n] = Some j \<Longrightarrow> k \<le> j \<and> j < n \<and> P j"
proof -
  show "find P [k..<n] = None \<Longrightarrow> find (\<lambda>j. P j \<and> Q j) [k..<n] = None" by (auto simp: find_None_iff)
  show "find P [k..<n] = Some j \<Longrightarrow> k \<le> j \<and> j < n \<and> P j" by (auto simp: find_Some_iff)
  show "find P [k..<n] = Some j \<Longrightarrow> find (\<lambda>j. P j \<and> Q j) [k..<n] = (if Q j then Some j else find (\<lambda>j. P j \<and> Q j) [Suc j..<n])"
  proof (induction "n - k" arbitrary: k)
    case (Suc d)
    then have k: "[k..<n] = k # [Suc k..<n]" by (intro upt_conv_Cons) simp
    show ?case using Suc(1) [of "Suc k"] Suc(2,3) unfolding k by (cases "P k") auto
  qed simp
qed

lemma filter_upt_and:
  "find P [k..<n] = None \<Longrightarrow> filter (\<lambda>j. P j \<and> Q j) [k..<n] = []"
  "find P [k..<n] = Some j \<Longrightarrow> filter (\<lambda>j. P j \<and> Q j) [k..<n] = (if Q j then [j] else []) @ filter (\<lambda>j. P j \<and> Q j) [Suc j..<n]"
proof -
  show "find P [k..<n] = None \<Longrightarrow> filter (\<lambda>j. P j \<and> Q j) [k..<n] = []" by (auto simp: find_None_iff filter_empty_conv)
  show "find P [k..<n] = Some j \<Longrightarrow> filter (\<lambda>j. P j \<and> Q j) [k..<n] = (if Q j then [j] else []) @ filter (\<lambda>j. P j \<and> Q j) [Suc j..<n]"
  proof (induction "n - k" arbitrary: k)
    case (Suc d)
    then have k: "[k..<n] = k # [Suc k..<n]" by (intro upt_conv_Cons) simp
    show ?case using Suc(1) [of "Suc k"] Suc(2,3) unfolding k by (cases "P k") auto
  qed simp
qed

text \<open>Entries of one block, and marking entries as deleted.\<close>

lemma slot_addr_offset:
  assumes "j < dir_per_block fs - k mod dir_per_block fs"
  shows "slot_addr fs bs (k + j) = b_data fs (bs ! (k div dir_per_block fs)) + DE_SIZE * (k mod dir_per_block fs + j)"
proof -
  define d q r where "d = dir_per_block fs" and "q = k div d" and "r = k mod d"
  have k: "k + j = (r + j) + q * d" by (simp add: q_def r_def)
  have "r + j < d" using assms by (simp add: d_def r_def)
  then have "(k + j) div d = q" "(k + j) mod d = r + j" unfolding k by simp_all
  then show ?thesis by (simp add: slot_addr_def flip: d_def q_def r_def)
qed

lemma slots_image:
  assumes "n \<le> dir_per_block fs - k mod dir_per_block fs"
  shows "slot_addr fs bs ` {k..<k + n} = (\<lambda>i. b_data fs (bs ! (k div dir_per_block fs)) + DE_SIZE * i) ` {k mod dir_per_block fs..<k mod dir_per_block fs + n}"
proof -
  have "slot_addr fs bs ` {k..<k + n} = (\<lambda>j. slot_addr fs bs (k + j)) ` {0..<n}"
    using image_image [of "slot_addr fs bs" "(+) k" "{0..<n}"] by (simp add: image_add_atLeastLessThan add.commute)
  also have "\<dots> = (\<lambda>j. b_data fs (bs ! (k div dir_per_block fs)) + DE_SIZE * (k mod dir_per_block fs + j)) ` {0..<n}"
    using assms by (intro image_cong) (simp_all add: slot_addr_offset)
  also have "\<dots> = (\<lambda>i. b_data fs (bs ! (k div dir_per_block fs)) + DE_SIZE * i) ` {k mod dir_per_block fs..<k mod dir_per_block fs + n}"
    using image_image [of "\<lambda>i. b_data fs (bs ! (k div dir_per_block fs)) + DE_SIZE * i" "(+) (k mod dir_per_block fs)" "{0..<n}"] by (simp add: image_add_atLeastLessThan add.commute)
  finally show ?thesis .
qed

definition marked :: "fat_fs \<Rightarrow> nat set \<Rightarrow> mem" where
  "marked fs A = (\<lambda>a. if a \<in> A then DELETED_FLAG else fdev fs a)"

lemma marked_again [simp]: "marked (fs\<lparr>fdev := marked fs A\<rparr>) B = marked fs (A \<union> B)"
  by (auto simp: marked_def)

lemma slot_addr_update [simp]: "slot_addr (fs\<lparr>fdev := m\<rparr>) = slot_addr fs" "nr_entries (fs\<lparr>fdev := m\<rparr>) = nr_entries fs" "dir_per_block (fs\<lparr>fdev := m\<rparr>) = dir_per_block fs"
    "b_data (fs\<lparr>fdev := m\<rparr>) = b_data fs"
  by (simp_all add: fun_eq_iff slot_addr_def nr_entries_def dir_per_block_def b_data_def)

lemma delete_back_run:
  "delete_back n k base m = (n - Suc k, \<lambda>a. if a \<in> (\<lambda>i. base + DE_SIZE * i) ` {Suc k - n..k} \<and> 0 < n then DELETED_FLAG else m a)"
proof (induction n k base m rule: delete_back.induct)
  case (3 n k base m)
  have s: "{Suc (Suc k) - Suc n..Suc k} = insert (Suc k) {Suc k - n..k}" by auto
  show ?case unfolding delete_back.simps 3 s by (cases "n = 0") (auto simp: fun_eq_iff)
qed (auto simp: fun_eq_iff)

lemma delete_forward_run:
  "delete_forward n (base + DE_SIZE * j) (base + DE_SIZE * d) m =
     (n - (d - j), \<lambda>a. if a \<in> (\<lambda>i. base + DE_SIZE * i) ` {j..<j + min n (d - j)} then DELETED_FLAG else m a)"
proof (induction n arbitrary: j m)
  case (Suc n)
  show ?case
  proof (cases "j < d")
    case True
    have s: "{j..<j + min (Suc n) (d - j)} = insert j {Suc j..<Suc j + min n (d - Suc j)}" using True by auto
    have lt: "base + DE_SIZE * j < base + DE_SIZE * d" using True by (simp add: DE_SIZE_def)
    have nx: "base + DE_SIZE * j + DE_SIZE = base + DE_SIZE * Suc j" by simp
    show ?thesis unfolding delete_forward.simps if_P [OF lt] nx Suc s using True by (auto simp: fun_eq_iff)
  next
    case False
    then show ?thesis by (simp add: DE_SIZE_def)
  qed
qed simp

lemma DE_SIZE_split: "DE_SIZE * x + b = DE_SIZE * y + c \<Longrightarrow> b < DE_SIZE \<Longrightarrow> c < DE_SIZE \<Longrightarrow> x = y \<and> b = c"
proof -
  assume a: "DE_SIZE * x + b = DE_SIZE * y + c" "b < DE_SIZE" "c < DE_SIZE"
  have "(32 * x + b) div 32 = x" "(32 * y + c) div 32 = y" using a(2,3) by (simp_all add: DE_SIZE_def)
  then have "x = y" using a(1) by (simp add: DE_SIZE_def)
  then show ?thesis using a(1) by simp
qed

lemma slot_addr_inj:
  assumes g: "dir_geometry fs" and d: "distinct bs" and ij: "i < nr_entries fs bs" "j < nr_entries fs bs" and bc: "b < DE_SIZE" "c < DE_SIZE"
    and eq: "slot_addr fs bs i + b = slot_addr fs bs j + c"
  shows "i = j \<and> b = c"
proof -
  have "bs ! (i div dir_per_block fs) = bs ! (j div dir_per_block fs)"
    using slot_addr_block(2) [OF g bc(1), of bs i] slot_addr_block(2) [OF g bc(2), of bs j] eq by simp
  moreover have "i div dir_per_block fs < length bs" "j div dir_per_block fs < length bs"
    using ij by (simp_all add: nr_entries_def less_mult_imp_div_less)
  ultimately have q: "i div dir_per_block fs = j div dir_per_block fs" using d by (simp add: nth_eq_iff_index_eq)
  then have e: "DE_SIZE * (i mod dir_per_block fs) + b = DE_SIZE * (j mod dir_per_block fs) + c" using eq by (simp add: slot_addr_def)
  have "i mod dir_per_block fs = j mod dir_per_block fs \<and> b = c"
    by (rule DE_SIZE_split [OF e bc])
  then show ?thesis using q by (metis div_mult_mod_eq)
qed

text \<open>Entries that are not marked stay as they are.\<close>

lemma marked_entry:
  assumes g: "dir_geometry fs" and d: "distinct bs" and S: "\<And>i. i \<in> S \<Longrightarrow> i < nr_entries fs bs" and j: "j < nr_entries fs bs"
  shows "b < DE_SIZE \<Longrightarrow> marked fs (slot_addr fs bs ` S) (slot_addr fs bs j + b) = (if j \<in> S \<and> b = 0 then DELETED_FLAG else fdev fs (slot_addr fs bs j + b))"
    and "live (fs\<lparr>fdev := marked fs (slot_addr fs bs ` S)\<rparr>) (slot_addr fs bs j) \<longleftrightarrow> live fs (slot_addr fs bs j) \<and> j \<notin> S"
    and "j \<notin> S \<Longrightarrow> de_name (slot_addr fs bs j) (marked fs (slot_addr fs bs ` S)) = de_name (slot_addr fs bs j) (fdev fs)"
proof -
  show b: "marked fs (slot_addr fs bs ` S) (slot_addr fs bs j + b) = (if j \<in> S \<and> b = 0 then DELETED_FLAG else fdev fs (slot_addr fs bs j + b))" if "b < DE_SIZE" for b
    using slot_addr_inj [OF g d j S that, of _ 0] by (fastforce simp: marked_def DE_SIZE_def)
  have b0: "marked fs (slot_addr fs bs ` S) (slot_addr fs bs j) = (if j \<in> S then DELETED_FLAG else fdev fs (slot_addr fs bs j))"
    and b11: "marked fs (slot_addr fs bs ` S) (slot_addr fs bs j + 11) = fdev fs (slot_addr fs bs j + 11)"
    using b [of 0] b [of 11] by (simp_all add: DE_SIZE_def)
  show "live (fs\<lparr>fdev := marked fs (slot_addr fs bs ` S)\<rparr>) (slot_addr fs bs j) \<longleftrightarrow> live fs (slot_addr fs bs j) \<and> j \<notin> S"
    by (auto simp: live_def IS_FREE_def de_attr_def b0 b11)
  show "de_name (slot_addr fs bs j) (marked fs (slot_addr fs bs ` S)) = de_name (slot_addr fs bs j) (fdev fs)" if "j \<notin> S"
    unfolding de_name_def using that by (intro map_cong refl) (simp add: b DE_SIZE_def)
qed

subsection \<open>Stepping through a directory\<close>

locale dir_map =
  fixes ok :: "(msdos_inode \<Rightarrow> msdos_inode) \<Rightarrow> nat list \<Rightarrow> msdos_inode \<Rightarrow> fat_fs \<Rightarrow> bool"
  assumes ok_bmap: "ok others bs dir fs \<Longrightarrow> \<exists>n dir'. fat_bmap others dir i False False fs = Some (Inr (if i < length bs then bs ! i else 0, n), dir', fs) \<and>
      ok others bs dir' fs \<and> same_file dir dir'"
    and ok_fs: "ok others bs dir fs \<Longrightarrow> faults fs = [] \<and> dir_geometry fs \<and> 0 \<notin> set bs \<and> distinct bs"
    and ok_write: "ok others bs dir fs \<Longrightarrow> (\<And>a. m a \<noteq> fdev fs a \<Longrightarrow> a div s_blocksize fs \<in> set bs) \<Longrightarrow> ok others bs dir (fs\<lparr>fdev := m\<rparr>)"
begin

lemma calm:
  assumes "ok others bs dir fs"
  shows "faults fs = []" and "dir_geometry fs" and "distinct bs" and "i < length bs \<Longrightarrow> bs ! i \<noteq> 0"
  using ok_fs [OF assms] nth_mem [of i bs] by metis+

lemma calm_bread: "ok others bs dir fs \<Longrightarrow> run_state (sb_bread b) fs = (Inr (), fs)"
  using calm(1) by (simp add: sb_bread_def fallible_def)

lemma slow_in:
  assumes ok: "ok others bs dir fs" and p: "c_pos cur = DE_SIZE * k" and k: "k < nr_entries fs bs"
  shows "\<exists>dir'. get_entry_slow others dir cur fs = Some (True, cursor_on fs bs k, dir', fs) \<and> ok others bs dir' fs \<and> same_file dir dir'"
proof -
  have i: "k div dir_per_block fs < length bs" using k by (simp add: nr_entries_def less_mult_imp_div_less)
  obtain n dir' where b: "fat_bmap others dir (k div dir_per_block fs) False False fs = Some (Inr (bs ! (k div dir_per_block fs), n), dir', fs)"
      "ok others bs dir' fs" "same_file dir dir'"
    using ok_bmap [OF ok, of "k div dir_per_block fs"] i by auto
  have "get_entry_slow others dir cur fs = Some (True, cursor_on fs bs k, dir', fs)"
    using b(1) calm(4) [OF ok i] pos_block [OF calm(2) [OF ok], of k] calm_bread [OF b(2)]
    by (subst get_entry_slow.simps) (simp add: Let_def p cursor_on_def slot_addr_def)
  then show ?thesis using b(2,3) by blast
qed

lemma slow_out:
  assumes ok: "ok others bs dir fs" and p: "c_pos cur = DE_SIZE * k" and k: "nr_entries fs bs \<le> k"
  shows "\<exists>dir'. get_entry_slow others dir cur fs = Some (False, cur\<lparr>c_bh := None\<rparr>, dir', fs) \<and> ok others bs dir' fs \<and> same_file dir dir'"
proof -
  have i: "\<not> k div dir_per_block fs < length bs"
    using k block_entries(2) [OF calm(2) [OF ok]] by (simp add: nr_entries_def not_less less_eq_div_iff_mult_less_eq)
  obtain n dir' where b: "fat_bmap others dir (k div dir_per_block fs) False False fs = Some (Inr (0, n), dir', fs)" "ok others bs dir' fs" "same_file dir dir'"
    using ok_bmap [OF ok, of "k div dir_per_block fs"] i by auto
  have "get_entry_slow others dir cur fs = Some (False, cur\<lparr>c_bh := None\<rparr>, dir', fs)"
    using b(1) pos_block [OF calm(2) [OF ok], of k] by (subst get_entry_slow.simps) (simp add: Let_def p)
  then show ?thesis using b(2,3) by blast
qed

lemma get_entry_in:
  assumes ok: "ok others bs dir fs" and c: "cursor_at fs bs k cur" and k: "k < nr_entries fs bs"
  shows "\<exists>dir'. fat_get_entry others dir cur fs = Some (True, cursor_on fs bs k, dir', fs) \<and> ok others bs dir' fs \<and> same_file dir dir'"
proof -
  note g = calm(2) [OF ok]
  have p: "c_pos cur = DE_SIZE * k" using c by (simp add: cursor_at_def)
  note slow = slow_in [OF ok p k]
  show ?thesis
  proof (cases "c_bh cur = None")
    case True
    then show ?thesis using slow by (simp add: fat_get_entry_def)
  next
    case False
    then have cur: "0 < k" "c_bh cur = Some (bs ! ((k - 1) div dir_per_block fs))" "c_de cur = Some (slot_addr fs bs (k - 1))"
      using c by (auto simp: cursor_at_def)
    have idx: "(slot_addr fs bs (k - 1) - b_data fs (bs ! ((k - 1) div dir_per_block fs))) div DE_SIZE = (k - 1) mod dir_per_block fs"
      by (simp add: slot_addr_def DE_SIZE_def)
    show ?thesis
    proof (cases "(k - 1) mod dir_per_block fs + 1 < dir_per_block fs")
      case True
      then have "fat_get_entry others dir cur fs = Some (True, cur\<lparr>c_pos := c_pos cur + DE_SIZE, c_de := Some (slot_addr fs bs (k - 1) + DE_SIZE)\<rparr>, dir, fs)"
        using cur idx by (simp add: fat_get_entry_def)
      moreover have "cur\<lparr>c_pos := c_pos cur + DE_SIZE, c_de := Some (slot_addr fs bs (k - 1) + DE_SIZE)\<rparr> = cursor_on fs bs k"
        using slot_next [OF g cur(1) True] cur p by (simp add: cursor_on_def)
      ultimately show ?thesis using ok by simp
    next
      case False
      then have "fat_get_entry others dir cur fs = get_entry_slow others dir cur fs" using cur idx by (simp add: fat_get_entry_def)
      then show ?thesis using slow by simp
    qed
  qed
qed

lemma get_entry_out:
  assumes ok: "ok others bs dir fs" and c: "cursor_at fs bs k cur" and k: "k = nr_entries fs bs"
  shows "\<exists>cur' dir'. fat_get_entry others dir cur fs = Some (False, cur', dir', fs) \<and> ok others bs dir' fs \<and> same_file dir dir' \<and> c_pos cur' = DE_SIZE * k"
proof -
  have p: "c_pos cur = DE_SIZE * k" using c by (simp add: cursor_at_def)
  obtain dir' where slow: "get_entry_slow others dir cur fs = Some (False, cur\<lparr>c_bh := None\<rparr>, dir', fs)" "ok others bs dir' fs" "same_file dir dir'"
    using slow_out [OF ok p] k by auto
  have "fat_get_entry others dir cur fs = get_entry_slow others dir cur fs"
  proof (cases "c_bh cur = None")
    case False
    then have cur: "0 < k" "c_bh cur = Some (bs ! ((k - 1) div dir_per_block fs))" "c_de cur = Some (slot_addr fs bs (k - 1))"
      using c by (auto simp: cursor_at_def)
    have d: "0 < dir_per_block fs" by (rule block_entries(2) [OF calm(2) [OF ok]])
    then have "(k - 1) mod dir_per_block fs + 1 = dir_per_block fs"
      using last_index [of "dir_per_block fs" "length bs"] cur(1) k by (simp add: nr_entries_def)
    then show ?thesis using cur by (simp add: fat_get_entry_def slot_addr_def DE_SIZE_def)
  qed (simp add: fat_get_entry_def)
  then show ?thesis using slow p by simp
qed

lemma short_entry:
  assumes "ok others bs dir fs" and "cursor_at fs bs k cur" and "k \<le> nr_entries fs bs"
  shows "\<exists>r cur' dir'. fat_get_short_entry others dir cur fs = Some (r, cur', dir', fs) \<and> ok others bs dir' fs \<and> same_file dir dir' \<and>
    (case find (\<lambda>j. live fs (slot_addr fs bs j)) [k..<nr_entries fs bs] of None \<Rightarrow> \<not> r | Some j \<Rightarrow> r \<and> cur' = cursor_on fs bs j)"
  using assms
proof (induction "nr_entries fs bs - k" arbitrary: k cur dir)
  case 0
  have k: "k = nr_entries fs bs" using 0(1,4) by simp
  obtain cur' dir' where "fat_get_entry others dir cur fs = Some (False, cur', dir', fs)" "ok others bs dir' fs" "same_file dir dir'"
    using get_entry_out [OF 0(2,3) k] by blast
  then have "fat_get_short_entry others dir cur fs = Some (False, cur', dir', fs) \<and> ok others bs dir' fs \<and> same_file dir dir'"
    by (subst fat_get_short_entry.simps) simp
  then show ?case unfolding k by fastforce
next
  case (Suc d)
  have "k < nr_entries fs bs" using Suc(2) by simp
  then obtain dir' where e: "fat_get_entry others dir cur fs = Some (True, cursor_on fs bs k, dir', fs)" "ok others bs dir' fs" "same_file dir dir'"
    using get_entry_in [OF Suc(3,4)] by blast
  have k: "[k..<nr_entries fs bs] = k # [Suc k..<nr_entries fs bs]" using Suc(2) by (intro upt_conv_Cons) simp
  have de: "the (c_de (cursor_on fs bs k)) = slot_addr fs bs k" by (simp add: cursor_on_def)
  show ?case
  proof (cases "live fs (slot_addr fs bs k)")
    case True
    then have "fat_get_short_entry others dir cur fs = Some (True, cursor_on fs bs k, dir', fs)"
      using e(1) de by (subst fat_get_short_entry.simps) (simp add: live_def)
    then show ?thesis using e(2,3) True unfolding k by fastforce
  next
    case False
    have "fat_get_short_entry others dir cur fs = fat_get_short_entry others dir' (cursor_on fs bs k) fs"
      using e(1) de False by (subst fat_get_short_entry.simps) (auto simp: live_def Let_def)
    moreover have "d = nr_entries fs bs - Suc k" "Suc k \<le> nr_entries fs bs" using Suc(2) by simp_all
    ultimately show ?thesis using Suc(1) [OF _ e(2) cursor_at_on] same_file_trans [OF e(3)] False unfolding k by fastforce
  qed
qed

lemma scan_from:
  assumes "ok others bs dir fs" and "cursor_at fs bs k cur" and "k \<le> nr_entries fs bs"
  shows "\<exists>r dir'. scan_loop others P dir cur fs = Some (r, dir', fs) \<and> ok others bs dir' fs \<and> same_file dir dir' \<and>
    r = (case find (\<lambda>j. live fs (slot_addr fs bs j) \<and> P (slot_addr fs bs j) fs) [k..<nr_entries fs bs] of
           None \<Rightarrow> Inl ENOENT | Some j \<Rightarrow> Inr (found_slot fs (cursor_on fs bs j)))"
  using assms
proof (induction "nr_entries fs bs - k" arbitrary: k cur dir rule: less_induct)
  case less
  let ?live = "\<lambda>j. live fs (slot_addr fs bs j)" and ?P = "\<lambda>j. P (slot_addr fs bs j) fs"
  obtain r cur' dir' where e: "fat_get_short_entry others dir cur fs = Some (r, cur', dir', fs)" "ok others bs dir' fs" "same_file dir dir'"
      "case find ?live [k..<nr_entries fs bs] of None \<Rightarrow> \<not> r | Some j \<Rightarrow> r \<and> cur' = cursor_on fs bs j"
    using short_entry [OF less(2-4)] by blast
  show ?case
  proof (cases "find ?live [k..<nr_entries fs bs]")
    case None
    then show ?thesis using e find_upt_and(1) [OF None, of ?P] by (subst scan_loop.simps) simp
  next
    case (Some j)
    then have j: "r" "cur' = cursor_on fs bs j" "k \<le> j" "j < nr_entries fs bs" using e(4) find_upt_and(3) [OF Some] by simp_all
    have m: "nr_entries fs bs - Suc j < nr_entries fs bs - k" "Suc j \<le> nr_entries fs bs" using j(3,4) by simp_all
    have de: "the (c_de (cursor_on fs bs j)) = slot_addr fs bs j" by (simp add: cursor_on_def)
    show ?thesis
    proof (cases "?P j")
      case True
      then show ?thesis using e(1-3) j(1,2) de find_upt_and(2) [OF Some, of ?P] by (subst scan_loop.simps) simp
    next
      case False
      then have "scan_loop others P dir cur fs = scan_loop others P dir' (cursor_on fs bs j) fs" using e(1) j(1,2) de by (subst scan_loop.simps) simp
      then show ?thesis
        using less(1) [OF m(1) e(2) cursor_at_on m(2)] same_file_trans [OF e(3)] find_upt_and(2) [OF Some, of ?P] False by auto
    qed
  qed
qed

lemma subdirs_from:
  assumes "ok others bs dir fs" and "cursor_at fs bs k cur" and "k \<le> nr_entries fs bs"
  shows "\<exists>dir'. subdirs_loop others dir cur n fs = Some (n +
      length (filter (\<lambda>j. live fs (slot_addr fs bs j) \<and> de_attr (slot_addr fs bs j) (fdev fs) AND ATTR_DIR \<noteq> 0) [k..<nr_entries fs bs]), dir', fs) \<and>
    ok others bs dir' fs \<and> same_file dir dir'"
  using assms
proof (induction "nr_entries fs bs - k" arbitrary: k cur dir n rule: less_induct)
  case less
  let ?live = "\<lambda>j. live fs (slot_addr fs bs j)" and ?P = "\<lambda>j. de_attr (slot_addr fs bs j) (fdev fs) AND ATTR_DIR \<noteq> 0"
  obtain r cur' dir' where e: "fat_get_short_entry others dir cur fs = Some (r, cur', dir', fs)" "ok others bs dir' fs" "same_file dir dir'"
      "case find ?live [k..<nr_entries fs bs] of None \<Rightarrow> \<not> r | Some j \<Rightarrow> r \<and> cur' = cursor_on fs bs j"
    using short_entry [OF less(2-4)] by blast
  show ?case
  proof (cases "find ?live [k..<nr_entries fs bs]")
    case None
    then show ?thesis using e filter_upt_and(1) [OF None, of ?P] by (subst subdirs_loop.simps) simp
  next
    case (Some j)
    then have j: "r" "cur' = cursor_on fs bs j" "k \<le> j" "j < nr_entries fs bs" using e(4) find_upt_and(3) [OF Some] by simp_all
    have m: "nr_entries fs bs - Suc j < nr_entries fs bs - k" "Suc j \<le> nr_entries fs bs" using j(3,4) by simp_all
    have "subdirs_loop others dir cur n fs = subdirs_loop others dir' (cursor_on fs bs j) (if ?P j then n + 1 else n) fs"
      using e(1) j(1,2) by (subst subdirs_loop.simps) (simp add: cursor_on_def)
    then show ?thesis
      using less(1) [OF m(1) e(2) cursor_at_on m(2), of "if ?P j then n + 1 else n"] same_file_trans [OF e(3)] filter_upt_and(2) [OF Some, of ?P] by auto
  qed
qed

lemma empty_from:
  assumes "ok others bs dir fs" and "cursor_at fs bs k cur" and "k \<le> nr_entries fs bs"
  shows "\<exists>r dir'. dir_empty_loop others dir cur fs = Some (r, dir', fs) \<and> ok others bs dir' fs \<and> same_file dir dir' \<and>
    r = (case find (\<lambda>j. live fs (slot_addr fs bs j) \<and> \<not> strncmp_eq (de_name (slot_addr fs bs j) (fdev fs)) MSDOS_DOT \<and>
           \<not> strncmp_eq (de_name (slot_addr fs bs j) (fdev fs)) MSDOS_DOTDOT) [k..<nr_entries fs bs] of None \<Rightarrow> Inr () | Some j \<Rightarrow> Inl ENOTEMPTY)"
  using assms
proof (induction "nr_entries fs bs - k" arbitrary: k cur dir rule: less_induct)
  case less
  let ?live = "\<lambda>j. live fs (slot_addr fs bs j)"
  let ?P = "\<lambda>j. \<not> strncmp_eq (de_name (slot_addr fs bs j) (fdev fs)) MSDOS_DOT \<and> \<not> strncmp_eq (de_name (slot_addr fs bs j) (fdev fs)) MSDOS_DOTDOT"
  obtain r cur' dir' where e: "fat_get_short_entry others dir cur fs = Some (r, cur', dir', fs)" "ok others bs dir' fs" "same_file dir dir'"
      "case find ?live [k..<nr_entries fs bs] of None \<Rightarrow> \<not> r | Some j \<Rightarrow> r \<and> cur' = cursor_on fs bs j"
    using short_entry [OF less(2-4)] by blast
  show ?case
  proof (cases "find ?live [k..<nr_entries fs bs]")
    case None
    then show ?thesis using e find_upt_and(1) [OF None, of ?P] by (subst dir_empty_loop.simps) simp
  next
    case (Some j)
    then have j: "r" "cur' = cursor_on fs bs j" "k \<le> j" "j < nr_entries fs bs" using e(4) find_upt_and(3) [OF Some] by simp_all
    have m: "nr_entries fs bs - Suc j < nr_entries fs bs - k" "Suc j \<le> nr_entries fs bs" using j(3,4) by simp_all
    have de: "the (c_de (cursor_on fs bs j)) = slot_addr fs bs j" by (simp add: cursor_on_def)
    show ?thesis
    proof (cases "?P j")
      case True
      then show ?thesis using e(1-3) j(1,2) de find_upt_and(2) [OF Some, of ?P] by (subst dir_empty_loop.simps) simp
    next
      case False
      then have "dir_empty_loop others dir cur fs = dir_empty_loop others dir' (cursor_on fs bs j) fs"
        using e(1) j(1,2) de by (subst dir_empty_loop.simps) (auto simp: Let_def)
      then show ?thesis
        using less(1) [OF m(1) e(2) cursor_at_on m(2)] same_file_trans [OF e(3)] find_upt_and(2) [OF Some, of ?P] False by auto
    qed
  qed
qed

lemma ok_marked:
  assumes ok: "ok others bs dir fs" and S: "\<And>i. i \<in> S \<Longrightarrow> i < nr_entries fs bs"
  shows "ok others bs dir (fs\<lparr>fdev := marked fs (slot_addr fs bs ` S)\<rparr>)"
proof (rule ok_write [OF ok])
  fix a
  assume "marked fs (slot_addr fs bs ` S) a \<noteq> fdev fs a"
  then obtain i where i: "i \<in> S" "a = slot_addr fs bs i" by (auto simp: marked_def split: if_splits)
  have "a div s_blocksize fs = bs ! (i div dir_per_block fs)"
    using slot_addr_block(2) [OF calm(2) [OF ok], of 0 bs i] i(2) by (simp add: DE_SIZE_def)
  then show "a div s_blocksize fs \<in> set bs" using S [OF i(1)] by (simp add: nr_entries_def less_mult_imp_div_less)
qed

lemma remove_from:
  assumes "ok others bs dir fs" and "\<not> i_dirsync dir" and "k + n \<le> nr_entries fs bs"
  shows "\<exists>dir'. raw_remove_entries others dir (DE_SIZE * k) n fs = Some (Inr (), dir', fs\<lparr>fdev := marked fs (slot_addr fs bs ` {k..<k + n})\<rparr>) \<and>
    ok others bs dir' (fs\<lparr>fdev := marked fs (slot_addr fs bs ` {k..<k + n})\<rparr>) \<and> same_file dir dir'"
  using assms
proof (induction n arbitrary: k dir fs rule: less_induct)
  case (less n)
  show ?case
  proof (cases "n = 0")
    case True
    then show ?thesis using less(2) by (subst raw_remove_entries.simps) (simp add: marked_def)
  next
    case False
    define p where "p = min n (dir_per_block fs - k mod dir_per_block fs)"
    define fs1 where "fs1 = fs\<lparr>fdev := marked fs (slot_addr fs bs ` {k..<k + p})\<rparr>"
    note g = calm(2) [OF less(2)]
    have d: "0 < dir_per_block fs" by (rule block_entries(2) [OF g])
    define x where "x = dir_per_block fs - k mod dir_per_block fs"
    have px: "p = min n x" "0 < x" using d by (simp_all add: p_def x_def)
    then have p: "0 < p" "p \<le> n" and nx: "n - x = n - p" using False by simp_all
    have "k < nr_entries fs bs" using False less(4) by simp
    then obtain dir1 where e: "fat_get_entry others dir \<lparr>c_pos = DE_SIZE * k, c_bh = None, c_de = None\<rparr> fs = Some (True, cursor_on fs bs k, dir1, fs)"
        "ok others bs dir1 fs" "same_file dir dir1"
      using get_entry_in [OF less(2), of k "\<lparr>c_pos = DE_SIZE * k, c_bh = None, c_de = None\<rparr>"] by (auto simp: cursor_at_def)
    have ds: "\<not> i_dirsync dir1" using less(3) same_file_fields(9) [OF e(3)] by simp
    have end_of: "b_data fs b + s_blocksize fs = b_data fs b + DE_SIZE * dir_per_block fs" for b using block_entries(1) [OF g] by simp
    have mem: "(\<lambda>a. if a \<in> (\<lambda>i. b_data fs (bs ! (k div dir_per_block fs)) + DE_SIZE * i) ` {k mod dir_per_block fs..<k mod dir_per_block fs + p} then DELETED_FLAG else fdev fs a) =
        marked fs (slot_addr fs bs ` {k..<k + p})"
      using slots_image [of p fs k bs] by (simp add: marked_def p_def)
    have del: "delete_forward n (slot_addr fs bs k) (b_data fs (bs ! (k div dir_per_block fs)) + s_blocksize fs) (fdev fs) = (n - p, fdev fs1)"
      unfolding slot_addr_def end_of delete_forward_run x_def [symmetric] nx px(1) [symmetric] mem by (simp add: fs1_def slot_addr_def [abs_def])
    have "raw_remove_entries others dir (DE_SIZE * k) n fs = raw_remove_entries others dir1 (DE_SIZE * (k + p)) (n - p) fs1"
      using False e(1) del ds p(1,2) by (subst raw_remove_entries.simps) (simp add: cursor_on_def dir_sync_def fs1_def algebra_simps)
    moreover have "ok others bs dir1 fs1" unfolding fs1_def using less(4) p(2) by (intro ok_marked [OF e(2)]) simp
    moreover have "marked fs1 (slot_addr fs1 bs ` {k + p..<k + p + (n - p)}) = marked fs (slot_addr fs bs ` {k..<k + n})"
      using p(2) by (simp add: fs1_def ivl_disj_un_two(3) flip: image_Un)
    ultimately show ?thesis
      using less(1) [of "n - p" dir1 fs1 "k + p"] p(1,2) ds less(4) same_file_trans [OF e(3)] by (auto simp: fs1_def)
  qed
qed

end

subsection \<open>The directories of the file system\<close>

definition cluster_blocks :: "fat_fs \<Rightarrow> nat \<Rightarrow> nat list" where
  "cluster_blocks fs c = [fat_clus_to_blknr fs (int c)..<fat_clus_to_blknr fs (int c) + sec_per_clus fs]"

text \<open>The blocks of a directory that is a chain of clusters, and its inode.\<close>

definition dir_chain :: "(msdos_inode \<Rightarrow> msdos_inode) \<Rightarrow> nat list \<Rightarrow> msdos_inode \<Rightarrow> fat_fs \<Rightarrow> nat list \<Rightarrow> nat \<Rightarrow> bool" where
  "dir_chain others bs dir fs cs k \<longleftrightarrow> file_chain fs cs \<and> i_start dir = int (hd cs) \<and> cache_inv cs 0 dir \<and>
     length cs \<le> drop_bit (cluster_bits fs) (s_maxbytes fs) + 1 \<and> keeps_cache cs others \<and> cluster_bits fs = s_blocksize_bits fs + k \<and> sec_per_clus fs = 2 ^ k \<and>
     i_size dir = length cs * 2 ^ cluster_bits fs \<and> bs = concat (map (cluster_blocks fs) cs)"

text \<open>A directory with the blocks \<open>bs\<close>, behind the tables, on a file system where no access fails.\<close>

definition dir_ok :: "(msdos_inode \<Rightarrow> msdos_inode) \<Rightarrow> nat list \<Rightarrow> msdos_inode \<Rightarrow> fat_fs \<Rightarrow> bool" where
  "dir_ok others bs dir fs \<longleftrightarrow> wf_fat fs \<and> faults fs = [] \<and> 5 \<le> s_blocksize_bits fs \<and> 0 < fats fs \<and> 0 \<notin> set bs \<and> distinct bs \<and>
     (\<forall>b \<in> set bs. fat_start fs + fats fs * fat_length fs \<le> b) \<and>
     (if is_fat32 fs \<or> \<not> i_root dir then \<exists>cs k. dir_chain others bs dir fs cs k
      else bs = [dir_start fs..<dir_start fs + drop_bit (dir_per_block_bits fs) (dir_entries fs)])"

lemma concat_nth_const: "(\<And>x. x \<in> set xss \<Longrightarrow> length x = n) \<Longrightarrow> i < length xss * n \<Longrightarrow> concat xss ! i = xss ! (i div n) ! (i mod n)"
proof (induction xss arbitrary: i)
  case (Cons x xss)
  then have n: "0 < n" by (cases n) auto
  show ?case
  proof (cases "i < n")
    case True
    then show ?thesis using Cons.prems by (simp add: nth_append)
  next
    case False
    then have "concat xss ! (i - n) = xss ! ((i - n) div n) ! ((i - n) mod n)" using Cons by simp
    then show ?thesis using False Cons.prems(1) n by (simp add: nth_append le_div_geq le_mod_geq)
  qed
qed simp

lemma dir_chain_length:
  assumes "dir_chain others bs dir fs cs k"
  shows "length bs = length cs * sec_per_clus fs" and "i_size dir = length bs * 2 ^ s_blocksize_bits fs"
proof -
  have "bs = concat (map (cluster_blocks fs) cs)" and sz: "i_size dir = length cs * 2 ^ cluster_bits fs" "cluster_bits fs = s_blocksize_bits fs + k" "sec_per_clus fs = 2 ^ k"
    using assms by (simp_all add: dir_chain_def)
  then show l: "length bs = length cs * sec_per_clus fs"
    by (simp add: length_concat comp_def cluster_blocks_def sum_list_triv)
  show "i_size dir = length bs * 2 ^ s_blocksize_bits fs" unfolding l sz power_add by simp
qed

lemma dir_chain_bmap:
  assumes wf: "wf_fat fs" and fl: "faults fs = []" and ch: "dir_chain others bs dir fs cs k" and root: "is_fat32 fs \<or> \<not> i_root dir"
  shows "\<exists>n dir'. fat_bmap others dir i False False fs = Some (Inr (if i < length bs then bs ! i else 0, n), dir', fs) \<and> dir_chain others bs dir' fs cs k \<and> same_file dir dir'"
proof -
  have d: "file_chain fs cs" "i_start dir = int (hd cs)" "cache_inv cs 0 dir" "length cs \<le> drop_bit (cluster_bits fs) (s_maxbytes fs) + 1" "keeps_cache cs others"
      "cluster_bits fs = s_blocksize_bits fs + k" "sec_per_clus fs = 2 ^ k" "bs = concat (map (cluster_blocks fs) cs)"
    using ch unfolding dir_chain_def by blast+
  have bsz: "s_blocksize fs = 2 ^ s_blocksize_bits fs" using wf by (simp add: wf_fat_def)
  note len = dir_chain_length [OF ch]
  show ?thesis
  proof (cases "i < length bs")
    case True
    then have sec: "i * s_blocksize fs < i_size dir" and cov: "i div sec_per_clus fs < length cs" by (simp_all add: len bsz less_mult_imp_div_less)
    obtain n dir' fs' where b: "fat_bmap others dir i False False fs =
          Some (Inr ((cs ! (i div sec_per_clus fs) - FAT_START_ENT) * sec_per_clus fs + data_start fs + i mod sec_per_clus fs, n), dir', fs')"
        "cache_inv cs 0 dir'" "spends fs fs'" "same_file dir dir'" "FAT_START_ENT \<le> cs ! (i div sec_per_clus fs)"
      using bmap_calm [OF wf d(1-5) fl root d(6,7) sec cov, of False] by blast
    have "fs' = fs" using b(3) fl by (simp add: spends_def)
    have "length x = sec_per_clus fs" if "x \<in> set (map (cluster_blocks fs) cs)" for x using that by (auto simp: cluster_blocks_def)
    then have "bs ! i = cluster_blocks fs (cs ! (i div sec_per_clus fs)) ! (i mod sec_per_clus fs)"
      using concat_nth_const [of "map (cluster_blocks fs) cs" "sec_per_clus fs" i] True cov len(1) d(8) by simp
    also have "\<dots> = (cs ! (i div sec_per_clus fs) - FAT_START_ENT) * sec_per_clus fs + data_start fs + i mod sec_per_clus fs"
    proof -
      have "i mod sec_per_clus fs < sec_per_clus fs" using d(7) by simp
      then show ?thesis by (simp add: cluster_blocks_def clus_to_blknr [OF b(5)])
    qed
    finally have "fat_bmap others dir i False False fs = Some (Inr (bs ! i, n), dir', fs)" using b(1) \<open>fs' = fs\<close> by simp
    moreover have "dir_chain others bs dir' fs cs k" using ch b(2) unfolding dir_chain_def same_file_fields(1,5) [OF b(4)] by blast
    ultimately show ?thesis using True b(4) by auto
  next
    case False
    define b where "b = s_blocksize fs"
    have "length bs * b \<le> i * b" using False by (intro mult_le_mono1) simp
    moreover have "0 < b" using bsz by (simp add: b_def)
    ultimately have "i_size dir + (s_blocksize fs - 1) < (i + 1) * 2 ^ s_blocksize_bits fs" unfolding len(2) bsz [symmetric] b_def [symmetric] add_mult_distrib by linarith
    then have "(i_size dir + (s_blocksize fs - 1)) div 2 ^ s_blocksize_bits fs < i + 1" by (rule less_mult_imp_div_less)
    then have "is_exceed_eof fs dir i False = (True, (i_size dir + (s_blocksize fs - 1)) div 2 ^ s_blocksize_bits fs)"
      by (simp add: is_exceed_eof_def Let_def drop_bit_eq_div)
    then have "fat_bmap others dir i False False fs = Some (Inr (0, 0), dir, fs)" using root by (auto simp: fat_bmap_def)
    then show ?thesis using False ch by simp
  qed
qed

lemma dir_ok_bmap:
  assumes "dir_ok others bs dir fs"
  shows "\<exists>n dir'. fat_bmap others dir i False False fs = Some (Inr (if i < length bs then bs ! i else 0, n), dir', fs) \<and> dir_ok others bs dir' fs \<and> same_file dir dir'"
proof (cases "is_fat32 fs \<or> \<not> i_root dir")
  case True
  then obtain cs k where "dir_chain others bs dir fs cs k" using assms by (auto simp: dir_ok_def)
  moreover have "wf_fat fs" "faults fs = []" using assms by (simp_all add: dir_ok_def)
  ultimately obtain n dir' where b: "fat_bmap others dir i False False fs = Some (Inr (if i < length bs then bs ! i else 0, n), dir', fs)" "dir_chain others bs dir' fs cs k" "same_file dir dir'"
    using dir_chain_bmap [OF _ _ _ True] by blast
  have "is_fat32 fs \<or> \<not> i_root dir'" using True same_file_fields(4) [OF b(3)] by simp
  then have "dir_ok others bs dir' fs" using assms b(2) by (auto simp: dir_ok_def)
  then show ?thesis using b(1,3) by blast
next
  case False
  then have "bs = [dir_start fs..<dir_start fs + drop_bit (dir_per_block_bits fs) (dir_entries fs)]" using assms by (simp add: dir_ok_def)
  then show ?thesis using False assms by (auto simp: fat_bmap_def)
qed

lemma dir_ok_write:
  assumes ok: "dir_ok others bs dir fs" and m: "\<And>a. m a \<noteq> fdev fs a \<Longrightarrow> a div s_blocksize fs \<in> set bs"
  shows "dir_ok others bs dir (fs\<lparr>fdev := m\<rparr>)"
proof -
  have b: "fat_start fs + fats fs * fat_length fs \<le> b" if "b \<in> set bs" for b using ok that by (simp add: dir_ok_def)
  have "m a = fdev fs a" if "a < (fat_start fs + fats fs * fat_length fs) * s_blocksize fs" for a
    using m [of a] b [of "a div s_blocksize fs"] less_mult_imp_div_less [OF that] by fastforce
  moreover have "wf_fat fs" "0 < fats fs" using ok by (simp_all add: dir_ok_def)
  moreover have "fs\<lparr>fdev := m\<rparr> = fs\<lparr>fdev := m, faults := faults fs\<rparr>" by simp
  ultimately have "still fs (fs\<lparr>fdev := m\<rparr>)" using outside_still(1) [of fs "fs\<lparr>fdev := m\<rparr>" "faults fs" m] by blast
  note ch = file_chain_cong [OF this] and wf = geometry_fields(11) [OF still_geometry [OF this]]
  have "dir_chain others bs dir (fs\<lparr>fdev := m\<rparr>) = dir_chain others bs dir fs"
    by (intro ext) (simp add: dir_chain_def ch cluster_blocks_def [abs_def] fat_clus_to_blknr_def)
  then show ?thesis using ok wf by (simp add: dir_ok_def is_fat32_def)
qed

interpretation dmp: dir_map dir_ok
proof
  fix others bs dir fs i m
  assume ok: "dir_ok others bs dir fs"
  show "\<exists>n dir'. fat_bmap others dir i False False fs = Some (Inr (if i < length bs then bs ! i else 0, n), dir', fs) \<and> dir_ok others bs dir' fs \<and> same_file dir dir'"
    by (rule dir_ok_bmap [OF ok])
  show "faults fs = [] \<and> dir_geometry fs \<and> 0 \<notin> set bs \<and> distinct bs" using ok by (simp add: dir_ok_def dir_geometry_def wf_fat_def)
  show "dir_ok others bs dir (fs\<lparr>fdev := m\<rparr>)" if "\<And>a. m a \<noteq> fdev fs a \<Longrightarrow> a div s_blocksize fs \<in> set bs" by (rule dir_ok_write [OF ok that])
qed

subsection \<open>Reading a directory\<close>

text \<open>The number of the first entry of a file or directory with a property and its place.\<close>

definition first_entry :: "fat_fs \<Rightarrow> nat list \<Rightarrow> (nat \<Rightarrow> bool) \<Rightarrow> nat option" where
  "first_entry fs bs P = find (\<lambda>j. live fs (slot_addr fs bs j) \<and> P j) [0..<nr_entries fs bs]"

definition named :: "fat_fs \<Rightarrow> nat list \<Rightarrow> u8 list \<Rightarrow> nat \<Rightarrow> bool" where
  "named fs bs name j \<longleftrightarrow> strncmp_eq (de_name (slot_addr fs bs j) (fdev fs)) name"

definition slot_of :: "fat_fs \<Rightarrow> nat list \<Rightarrow> nat \<Rightarrow> fat_slot_info" where
  "slot_of fs bs j = \<lparr>si_i_pos = fat_make_i_pos fs (bs ! (j div dir_per_block fs)) (slot_addr fs bs j), slot_off = DE_SIZE * j, nr_slots = 1,
     si_de = slot_addr fs bs j, si_bh = bs ! (j div dir_per_block fs)\<rparr>"

definition scan_result :: "fat_fs \<Rightarrow> nat list \<Rightarrow> (nat \<Rightarrow> bool) \<Rightarrow> errno + fat_slot_info" where
  "scan_result fs bs P = (case first_entry fs bs P of None \<Rightarrow> Inl ENOENT | Some j \<Rightarrow> Inr (slot_of fs bs j))"

lemma found_slot_on: "found_slot fs (cursor_on fs bs j) = slot_of fs bs j"
  by (simp add: found_slot_def cursor_on_def slot_of_def)

lemma scan_run:
  assumes "dir_ok others bs dir fs"
  shows "\<exists>dir'. fat_scan others dir name fs = Some (scan_result fs bs (named fs bs name), dir', fs) \<and> dir_ok others bs dir' fs \<and> same_file dir dir'"
  using dmp.scan_from [OF assms cursor_at_0, of "\<lambda>de fs. strncmp_eq (de_name de (fdev fs)) name"]
  unfolding found_slot_on fat_scan_def scan_result_def first_entry_def named_def by auto

text \<open>
  C39 (reading a directory is exact).  With no failing access, the searches of a directory return and change neither the directory nor the file system:
  \<^verbatim>\<open>fat_scan\<close> finds the first entry of a file or directory with the given name, or reports that there is none; \<^verbatim>\<open>fat_dir_empty\<close> succeeds exactly
  if every such entry is one of the two dot entries; \<^verbatim>\<open>fat_subdirs\<close> counts those that are directories.  Deleted entries, slots of long names and the volume label are passed over.
\<close>

theorem fat_dir_reads_exact:
  assumes "dir_ok others bs dir fs"
  shows "(\<exists>dir'. fat_scan others dir name fs = Some (scan_result fs bs (named fs bs name), dir', fs) \<and> dir_ok others bs dir' fs) \<and>
    (\<exists>r dir'. fat_dir_empty others dir fs = Some (r, dir', fs) \<and> dir_ok others bs dir' fs \<and>
       r = (if \<forall>j < nr_entries fs bs. live fs (slot_addr fs bs j) \<longrightarrow> named fs bs MSDOS_DOT j \<or> named fs bs MSDOS_DOTDOT j then Inr () else Inl ENOTEMPTY)) \<and>
    (\<exists>dir'. fat_subdirs others dir fs = Some (card {j. j < nr_entries fs bs \<and> live fs (slot_addr fs bs j) \<and> de_attr (slot_addr fs bs j) (fdev fs) AND ATTR_DIR \<noteq> 0}, dir', fs) \<and>
       dir_ok others bs dir' fs)"
proof (intro conjI)
  show "\<exists>dir'. fat_scan others dir name fs = Some (scan_result fs bs (named fs bs name), dir', fs) \<and> dir_ok others bs dir' fs" using scan_run [OF assms] by blast
  show "\<exists>r dir'. fat_dir_empty others dir fs = Some (r, dir', fs) \<and> dir_ok others bs dir' fs \<and>
      r = (if \<forall>j < nr_entries fs bs. live fs (slot_addr fs bs j) \<longrightarrow> named fs bs MSDOS_DOT j \<or> named fs bs MSDOS_DOTDOT j then Inr () else Inl ENOTEMPTY)"
    using dmp.empty_from [OF assms cursor_at_0] by (fastforce simp: fat_dir_empty_def named_def find_None_iff split: option.splits dest: find_upt_and(3))
  let ?P = "\<lambda>j. live fs (slot_addr fs bs j) \<and> de_attr (slot_addr fs bs j) (fdev fs) AND ATTR_DIR \<noteq> 0"
  have "length (filter ?P [0..<nr_entries fs bs]) = card (set (filter ?P [0..<nr_entries fs bs]))" by (rule distinct_card [symmetric]) simp
  also have "set (filter ?P [0..<nr_entries fs bs]) = {j. j < nr_entries fs bs \<and> ?P j}" by auto
  finally show "\<exists>dir'. fat_subdirs others dir fs = Some (card {j. j < nr_entries fs bs \<and> ?P j}, dir', fs) \<and> dir_ok others bs dir' fs"
    using dmp.subdirs_from [OF assms cursor_at_0, of 0] by (auto simp: fat_subdirs_def)
qed

subsection \<open>Removing entries\<close>

lemma dir_ok_inode:
  assumes "dir_ok others bs dir fs" and "i_start dir' = i_start dir" "cache_lru dir' = cache_lru dir" "nr_caches dir' = nr_caches dir" "i_size dir' = i_size dir" "i_root dir' = i_root dir"
  shows "dir_ok others bs dir' fs"
proof -
  have "dir_chain others bs dir' fs = dir_chain others bs dir fs" by (simp add: fun_eq_iff dir_chain_def cache_inv_def assms(2-5))
  then show ?thesis using assms(1,6) by (simp add: dir_ok_def)
qed

lemma truncate_time_fields [simp]:
  "i_start (fat_truncate_time fs now fl dir) = i_start dir" "cache_lru (fat_truncate_time fs now fl dir) = cache_lru dir" "nr_caches (fat_truncate_time fs now fl dir) = nr_caches dir"
  "i_size (fat_truncate_time fs now fl dir) = i_size dir" "i_root (fat_truncate_time fs now fl dir) = i_root dir" "i_dirsync (fat_truncate_time fs now fl dir) = i_dirsync dir"
  by (simp_all add: fat_truncate_time_def Let_def)

text \<open>The slots of the entry with number \<open>j\<close> are it and the slots of the long name in front of it.\<close>

lemma remove_run:
  assumes ok: "dir_ok others bs dir fs" and ds: "\<not> i_dirsync dir" and j: "j < nr_entries fs bs" and n: "nr_slots si = n" "0 < n" "n \<le> Suc j"
    and si: "slot_off si = DE_SIZE * (Suc j - n)" "si_de si = slot_addr fs bs j" "si_bh si = bs ! (j div dir_per_block fs)"
  shows "\<exists>dir'. fat_remove_entries time64_to_tm others now dir si fs = Some (Inr (), dir', fs\<lparr>fdev := marked fs (slot_addr fs bs ` {Suc j - n..j})\<rparr>) \<and>
    dir_ok others bs dir' (fs\<lparr>fdev := marked fs (slot_addr fs bs ` {Suc j - n..j})\<rparr>)"
proof -
  define k q where "k = j mod dir_per_block fs" and "q = j div dir_per_block fs"
  define p where "p = min n (Suc k)"
  define fs1 where "fs1 = fs\<lparr>fdev := marked fs (slot_addr fs bs ` {Suc j - p..j})\<rparr>"
  have d: "0 < dir_per_block fs" by (rule block_entries(2) [OF dmp.calm(2) [OF ok]])
  have jk: "k \<le> j" "j - k = q * dir_per_block fs" "k < dir_per_block fs" using d by (simp_all add: k_def q_def minus_mod_eq_div_mult)
  have first: "(Suc j - p) mod dir_per_block fs = Suc k - p" "(Suc j - p) div dir_per_block fs = q" "Suc j - p + p = Suc j"
  proof -
    have "Suc k - p < dir_per_block fs" using jk(3) n(2) by (simp add: p_def min_def) linarith
    moreover have "Suc j - p = (Suc k - p) + q * dir_per_block fs" using jk n(2) by (simp add: p_def min_def)
    ultimately show "(Suc j - p) mod dir_per_block fs = Suc k - p" "(Suc j - p) div dir_per_block fs = q" by simp_all
    show "Suc j - p + p = Suc j" using n(3) by (simp add: p_def)
  qed
  have "slot_addr fs bs ` {Suc j - p..<Suc j} = (\<lambda>i. b_data fs (bs ! q) + DE_SIZE * i) ` {Suc k - p..<Suc k - p + p}"
    using slots_image [of p fs "Suc j - p" bs] jk(3) unfolding first by (simp add: p_def)
  then have img: "slot_addr fs bs ` {Suc j - p..j} = (\<lambda>i. b_data fs (bs ! q) + DE_SIZE * i) ` {Suc k - p..k}"
    by (simp add: p_def atLeastLessThanSuc_atLeastAtMost)
  have idx: "(slot_addr fs bs j - b_data fs (bs ! q)) div DE_SIZE = k" by (simp add: slot_addr_def q_def k_def DE_SIZE_def)
  have "Suc k - n = Suc k - p" "n - Suc k = n - p" by (simp_all add: p_def)
  then have del: "delete_back n k (b_data fs (bs ! q)) (fdev fs) = (n - p, fdev fs1)"
    unfolding delete_back_run by (simp add: fs1_def marked_def img n(2))
  have ok1: "dir_ok others bs dir fs1" unfolding fs1_def using j by (intro dmp.ok_marked [OF ok]) simp
  have sum: "Suc j - n + (n - p) = Suc j - p" using n(3) by (simp add: p_def)
  have same: "fs1\<lparr>fdev := marked fs1 {}\<rparr> = fs1" by (simp add: marked_def)
  have "Suc j - n + (n - p) \<le> nr_entries fs1 bs" using j by (simp add: sum fs1_def)
  note more = dmp.remove_from [OF ok1 ds this, unfolded sum]
  obtain dir2 where rest: "(if n - p = 0 then Some (Inr (), dir, fs1) else raw_remove_entries others dir (DE_SIZE * (Suc j - n)) (n - p) fs1) =
        Some (Inr (), dir2, fs1\<lparr>fdev := marked fs1 (slot_addr fs1 bs ` {Suc j - n..<Suc j - p})\<rparr>)"
      "dir_ok others bs dir2 (fs1\<lparr>fdev := marked fs1 (slot_addr fs1 bs ` {Suc j - n..<Suc j - p})\<rparr>)" "same_file dir dir2"
  proof (cases "n - p = 0")
    case True
    then have "{Suc j - n..<Suc j - p} = {}" using sum by simp
    then have e: "fs1\<lparr>fdev := marked fs1 (slot_addr fs1 bs ` {Suc j - n..<Suc j - p})\<rparr> = fs1" using same by (simp only: image_empty)
    show ?thesis by (rule that [of dir], unfold e) (simp_all add: True ok1)
  next
    case False
    then show ?thesis using that more by (simp only: if_False) blast
  qed
  have "{Suc j - p..j} \<union> {Suc j - n..<Suc j - p} = {Suc j - n..j}" by (auto simp: p_def)
  then have all: "fs1\<lparr>fdev := marked fs1 (slot_addr fs1 bs ` {Suc j - n..<Suc j - p})\<rparr> = fs\<lparr>fdev := marked fs (slot_addr fs bs ` {Suc j - n..j})\<rparr>"
    by (simp add: fs1_def flip: image_Un)
  define fs2 where "fs2 = fs\<lparr>fdev := marked fs (slot_addr fs bs ` {Suc j - n..j})\<rparr>"
  have f1: "fs\<lparr>fdev := fdev fs1\<rparr> = fs1" by (simp add: fs1_def)
  have run: "fat_remove_entries time64_to_tm others now dir si fs =
      (case (if n - p = 0 then Some (Inr (), dir, fs1) else raw_remove_entries others dir (DE_SIZE * (Suc j - n)) (n - p) fs1) of
         None \<Rightarrow> None
       | Some (_, dir, fs) \<Rightarrow> (case update_dir_inode time64_to_tm (fat_truncate_time fs now (S_ATIME OR S_MTIME) dir) fs of (dir, fs) \<Rightarrow> Some (Inr (), dir, fs)))"
    unfolding fat_remove_entries_def n(1) si q_def [symmetric] Let_def idx del by (simp add: dir_sync_def ds f1)
  have "fat_remove_entries time64_to_tm others now dir si fs = Some (Inr (), mark_inode_dirty (fat_truncate_time fs2 now (S_ATIME OR S_MTIME) dir2), fs2)"
    unfolding run rest(1) unfolding all fs2_def [symmetric] using ds same_file_fields(9) [OF rest(3)] by (simp add: update_dir_inode_def)
  moreover have "dir_ok others bs (mark_inode_dirty (fat_truncate_time fs2 now (S_ATIME OR S_MTIME) dir2)) fs2"
    using rest(2) unfolding all fs2_def [symmetric] by (rule dir_ok_inode) (simp_all add: mark_inode_dirty_def)
  ultimately show ?thesis unfolding fs2_def by blast
qed

lemma marked_scan:
  assumes ok: "dir_ok others bs dir fs" and S: "\<And>i. i \<in> S \<Longrightarrow> i < nr_entries fs bs"
  defines "fs' \<equiv> fs\<lparr>fdev := marked fs (slot_addr fs bs ` S)\<rparr>"
  shows "scan_result fs' bs (named fs' bs name) = scan_result fs bs (\<lambda>i. named fs bs name i \<and> i \<notin> S)"
proof -
  note g = dmp.calm(2,3) [OF ok]
  have "first_entry fs' bs (named fs' bs name) = first_entry fs bs (\<lambda>i. named fs bs name i \<and> i \<notin> S)"
    unfolding first_entry_def
  proof (rule find_cong)
    show "[0..<nr_entries fs' bs] = [0..<nr_entries fs bs]" by (simp add: fs'_def)
    fix i
    assume "i \<in> set [0..<nr_entries fs bs]"
    then have i: "i < nr_entries fs bs" by simp
    show "(live fs' (slot_addr fs' bs i) \<and> named fs' bs name i) = (live fs (slot_addr fs bs i) \<and> named fs bs name i \<and> i \<notin> S)"
    proof (cases "i \<in> S")
      case True
      then show ?thesis using marked_entry(2) [OF g S i] unfolding fs'_def slot_addr_update by simp
    next
      case False
      then show ?thesis using marked_entry(2) [OF g S i] marked_entry(3) [OF g S i False] unfolding fs'_def slot_addr_update named_def by simp
    qed
  qed
  moreover have "slot_of fs' bs = slot_of fs bs" by (simp add: fun_eq_iff slot_of_def fs'_def fat_make_i_pos_def)
  ultimately show ?thesis by (simp add: scan_result_def split: option.split)
qed

text \<open>
  C40 (removal and lookup).  On a directory without synchronous updates and with no failing access, \<^verbatim>\<open>fat_remove_entries\<close> for an entry and the \<open>n - 1\<close> slots of its long name in front of
  it succeeds, in however many blocks they lie.  Only the first byte of these slots changes; afterwards a search for any name finds
  the first entry with that name among the others.
\<close>

theorem fat_remove_then_scan:
  assumes ok: "dir_ok others bs dir fs" and ds: "\<not> i_dirsync dir" and j: "j < nr_entries fs bs" and n: "nr_slots si = n" "0 < n" "n \<le> Suc j"
    and si: "slot_off si = DE_SIZE * (Suc j - n)" "si_de si = slot_addr fs bs j" "si_bh si = bs ! (j div dir_per_block fs)"
  shows "\<exists>dir' fs'. fat_remove_entries time64_to_tm others now dir si fs = Some (Inr (), dir', fs') \<and> dir_ok others bs dir' fs' \<and>
    (\<forall>a. fdev fs' a = (if a \<in> slot_addr fs bs ` {Suc j - n..j} then DELETED_FLAG else fdev fs a)) \<and>
    (\<forall>name. \<exists>dir''. fat_scan others dir' name fs' = Some (scan_result fs bs (\<lambda>i. named fs bs name i \<and> i \<notin> {Suc j - n..j}), dir'', fs'))"
proof -
  define fs' where "fs' = fs\<lparr>fdev := marked fs (slot_addr fs bs ` {Suc j - n..j})\<rparr>"
  obtain dir' where r: "fat_remove_entries time64_to_tm others now dir si fs = Some (Inr (), dir', fs')" "dir_ok others bs dir' fs'"
    using remove_run [OF assms] unfolding fs'_def by blast
  have "scan_result fs' bs (named fs' bs name) = scan_result fs bs (\<lambda>i. named fs bs name i \<and> i \<notin> {Suc j - n..j})" for name
    unfolding fs'_def by (rule marked_scan [OF ok]) (use j in simp)
  then have "\<exists>dir''. fat_scan others dir' name fs' = Some (scan_result fs bs (\<lambda>i. named fs bs name i \<and> i \<notin> {Suc j - n..j}), dir'', fs')" for name
    using scan_run [OF r(2), of name] by auto
  then show ?thesis using r by (auto simp: fs'_def marked_def)
qed

subsection \<open>An example\<close>

definition ex_root :: fat_fs where
  "ex_root = ex_fat12\<lparr>s_blocksize := 64, s_blocksize_bits := 6, dir_start := 5, dir_entries := 4, dir_per_block_bits := 1, data_start := 7,
     fdev := (\<lambda>a. if 320 \<le> a \<and> a < 331 then 65 else if 352 \<le> a \<and> a < 363 then 66 else if a = 363 then 16 else 0)\<rparr>"

definition ex_dir :: msdos_inode where
  "ex_dir = ex_inode\<lparr>i_root := True, i_start := 0\<rparr>"

lemma ex_root_ok: "dir_ok id [5, 6] ex_dir ex_root"
  by (simp add: dir_ok_def ex_root_def ex_fat12_def ex_dir_def is_fat32_def wf_fat_def fat_consts upt_rec drop_bit_eq_div)

lemma ex_root_slots: "slot_addr ex_root [5, 6] 0 = 320" "slot_addr ex_root [5, 6] 1 = 352" "slot_addr ex_root [5, 6] 2 = 384" "slot_addr ex_root [5, 6] 3 = 416"
    "nr_entries ex_root [5, 6] = 4" "dir_per_block ex_root = 2"
  by (simp_all add: slot_addr_def nr_entries_def dir_per_block_def b_data_def ex_root_def ex_fat12_def DE_SIZE_def)

lemma ex_root_live: "live ex_root 320" "live ex_root 352" "\<not> live ex_root 384" "\<not> live ex_root 416"
  by (simp_all add: live_def IS_FREE_def de_attr_def ex_root_def DELETED_FLAG_def attr_defs)

lemma ex_root_names: "named ex_root [5, 6] (replicate 11 66) 1" "\<not> named ex_root [5, 6] (replicate 11 66) 0"
  by code_simp+

lemma ex_root_entries: "[0..<nr_entries ex_root [5, 6]] = [0, 1, 2, 3]"
  by (simp add: ex_root_slots upt_rec)

theorem fat_dir_reads_exact_witness:
  "\<exists>dir1 dir2. fat_scan id ex_dir (replicate 11 66) ex_root = Some (Inr (slot_of ex_root [5, 6] 1), dir1, ex_root) \<and>
     fat_dir_empty id ex_dir ex_root = Some (Inl ENOTEMPTY, dir2, ex_root)"
proof -
  have f: "first_entry ex_root [5, 6] (named ex_root [5, 6] (replicate 11 66)) = Some 1"
    unfolding first_entry_def ex_root_entries by (simp add: ex_root_slots ex_root_live ex_root_names del: One_nat_def)
  have "\<not> named ex_root [5, 6] MSDOS_DOT 0 \<and> \<not> named ex_root [5, 6] MSDOS_DOTDOT 0"
    by code_simp
  then have ne: "\<not> (\<forall>j < nr_entries ex_root [5, 6]. live ex_root (slot_addr ex_root [5, 6] j) \<longrightarrow> named ex_root [5, 6] MSDOS_DOT j \<or> named ex_root [5, 6] MSDOS_DOTDOT j)"
    using ex_root_live(1) by (intro notI) (auto simp: ex_root_slots dest: spec [of _ 0])
  show ?thesis using fat_dir_reads_exact [OF ex_root_ok, of "replicate 11 66"] unfolding scan_result_def f if_not_P [OF ne] by auto
qed

theorem fat_remove_then_scan_witness:
  "\<exists>dir' dir'' fs'. fat_remove_entries ex_tm id \<lparr>tv_sec = 0, tv_nsec = 0\<rparr> ex_dir ((slot_of ex_root [5, 6] 1)\<lparr>nr_slots := 2, slot_off := 0\<rparr>) ex_root = Some (Inr (), dir', fs') \<and>
     fat_scan id dir' (replicate 11 66) fs' = Some (Inl ENOENT, dir'', fs')"
proof -
  let ?si = "(slot_of ex_root [5, 6] 1)\<lparr>nr_slots := 2, slot_off := 0\<rparr>"
  have ds: "\<not> i_dirsync ex_dir" by (simp add: ex_dir_def ex_inode_def)
  have n: "1 < nr_entries ex_root [5, 6]" by (simp add: ex_root_slots)
  have si: "nr_slots ?si = 2" "(0 :: nat) < 2" "2 \<le> Suc 1" "slot_off ?si = DE_SIZE * (Suc 1 - 2)" "si_de ?si = slot_addr ex_root [5, 6] 1" "si_bh ?si = [5, 6] ! (1 div dir_per_block ex_root)"
    by (simp_all add: slot_of_def)
  obtain dir' fs' where r: "fat_remove_entries ex_tm id \<lparr>tv_sec = 0, tv_nsec = 0\<rparr> ex_dir ?si ex_root = Some (Inr (), dir', fs')"
      "\<forall>name. \<exists>dir''. fat_scan id dir' name fs' = Some (scan_result ex_root [5, 6] (\<lambda>i. named ex_root [5, 6] name i \<and> i \<notin> {Suc 1 - 2..1}), dir'', fs')"
    using fat_remove_then_scan [OF ex_root_ok ds n si, of ex_tm "\<lparr>tv_sec = 0, tv_nsec = 0\<rparr>"] by blast
  have "scan_result ex_root [5, 6] (\<lambda>i. named ex_root [5, 6] (replicate 11 66) i \<and> i \<notin> {Suc 1 - 2..1}) = Inl ENOENT"
    unfolding scan_result_def first_entry_def ex_root_entries by (simp add: ex_root_slots ex_root_live del: One_nat_def)
  then show ?thesis using r(1) r(2) [rule_format, of "replicate 11 66"] by auto
qed

end
