(* ===== verification/Spec2Isabelle.thy ===== *)
theory Spec2Isabelle
  imports Mains Cache_My_Data Fat_Evict Fat_Gate Fat_Lookup
begin

text \<open>
  \<^bold>\<open>Verification of the app_param power-control software.\<close>

  The repository keeps two copies of a FAT partition.  At start \<^verbatim>\<open>fsctl mount\<close> mounts the first copy whose digest matches the descriptor at its end, brings the other copy
  to the same contents and then releases the applications, whose writes a preload library has held in the page cache.  Before a power transition
  \<^verbatim>\<open>hb_powerctl_demo\<close> has the kernel's FAT driver close its write gate, seals the mounted copy with a new descriptor and copies it over the other one.  The sources are under
  \<^verbatim>\<open>src/power-ctl/src\<close>: the two programs and their library in C files at the top, the preload library in \<^verbatim>\<open>lib/\<close>, the modified FAT driver in \<^verbatim>\<open>fat/\<close>.

  \<^bold>\<open>Shared material.\<close>  \<open>Prelude\<close> has the machine types, ranges of byte lists, a Hoare logic over the state monad and the locale \<open>frame_relation\<close>: a reflexive and transitive
  relation between states composes along a do-block.  It is interpreted for each of the frame relations below.

  \<^bold>\<open>Programs and their library.\<close>
  \<^item> \<open>Le_Codec\<close>, \<open>Crc32c\<close>, \<open>Footer\<close>: the codecs of \<^verbatim>\<open>common.c\<close>, the checksum of \<^verbatim>\<open>hash.c\<close> in both builds and the 128-byte descriptor of \<^verbatim>\<open>footer.c\<close>.  The two builds compute the same function;
    a descriptor that was written is read back; damage inside four consecutive bytes is refused.
  \<^item> \<open>Os_Model\<close>, \<open>Os_Frame\<close>, \<open>Example_Os\<close>: the system calls as state transformers over disks, what survives a loss of power, descriptors, mounts, pseudo files, services and the clock.
    Each call consults a script that may make it fail, be short or be interrupted, lose the tail of a digest or let a mounted file system write; the theorems are for every script.
    A closed write gate stops such writes unless the mountpoint is \<open>leaky\<close>, which stands for the changes that pass the driver's gate.  The locales \<open>os_frame\<close>, \<open>os_io\<close> and
    \<open>os_poll\<close> say what calls leave alone.
  \<^item> \<open>Common_Io\<close>, \<open>Hash_Ring\<close>, \<open>Hash_Fd\<close>: complete reads and writes, and the digest of a device by two threads over a ring of eight slots.  The threads are interleaved steps; they never overwrite
    a slot in use, what they digest is a prefix of the device, and every result of theirs is one of the sequential model that the rest uses (\<open>ring_refines\<close>).  Two defects of the pipeline are theorems: it can lose
    the tail of the device, and it can hang.  The first is an answer of the script in the sequential model, the second has no counterpart there.
  \<^item> \<open>Storage\<close>, \<open>Dirty_Settings\<close>, \<open>Poll_Clock\<close>, \<open>Recovery\<close>, \<open>Calm_Run\<close>, \<open>Boot\<close>, \<open>Mains\<close>: \<^verbatim>\<open>storage.c\<close>, \<^verbatim>\<open>fsctl.c\<close> and \<^verbatim>\<open>hb_powerctl_demo.c\<close>.  A successful shutdown leaves both copies equal, on
    stable storage and with a valid descriptor; a successful start mounted such a copy and leaves its peer with the same digest; applications are released only then.  That the digest covers the
    whole copy is shown for runs in which the pipeline loses no tail (\<open>no_loss\<close>), that it covers a prefix lacking at most eight chunks for all runs (\<open>attested\<close>).  The shutdown assumes
    that the mountpoint is not leaky.  The page-cache settings are restored, except limits set in bytes; no descriptor of a device or directory is leaked on any path; the exit codes are
    determined.  Both ends are reached when no call fails.

  \<^bold>\<open>Preload library.\<close>  \<open>Cache_My_Data\<close>: every interposed call of \<^verbatim>\<open>lib/cache_my_data.c\<close>.  Before the signal no forwarded call asks for stable storage; after it
  every call is forwarded with the same request, except \<^verbatim>\<open>openat2\<close> with a structure of unknown size.

  \<^bold>\<open>FAT driver.\<close>  The state is \<open>fat_fs\<close>, the fields of \<^verbatim>\<open>struct msdos_sb_info\<close> and \<^verbatim>\<open>struct super_block\<close> the code uses, with the buffer cache as one memory of bytes and a script of
  failing accesses; \<open>msdos_inode\<close> is the inode.
  \<^item> \<open>Fat_Table\<close>, \<open>Fat_Entry\<close>, \<open>Fat_Mirror\<close>, \<open>Fat_Free\<close>, \<open>Fat_Alloc\<close> (\<^verbatim>\<open>fat/fatent.c\<close>): entries of the three variants behind the locale \<open>fat_array\<close>, access through the buffer cache, the copies of
    the table, release, count and allocation of clusters.  An allocation links exactly free clusters or gives everything back; releasing a chain returns on every table,
    also a cyclic one; the copies stay equal.
  \<^item> \<open>Fat_Time\<close>, \<open>Fat_Inode\<close> (\<^verbatim>\<open>fat/misc.c\<close>, \<^verbatim>\<open>fat/inode.c\<close>, \<^verbatim>\<open>fat/fat.h\<close>): time stamps, attributes and modes, an inode and its directory entry; the conversions are inverse to each other up to their granularity.
  \<^item> \<open>Fat_Cache\<close> (\<^verbatim>\<open>fat/cache.c\<close>): the cache of cluster runs answers as the chain does, whatever other threads add to it; blocks of a file are mapped to its own clusters.
  \<^item> \<open>Fat_File\<close>, \<open>Fat_Resize\<close> (\<^verbatim>\<open>fat_chain_add\<close>, \<^verbatim>\<open>fat_add_cluster\<close>, \<^verbatim>\<open>__fat_get_block\<close>, \<^verbatim>\<open>fat_fallocate\<close>, \<^verbatim>\<open>fat_free\<close>): the definitions, and what growing and truncating a file do to its chain, the free clusters and the copies.
  \<^item> \<open>Fat_Evict\<close> (\<^verbatim>\<open>fat_free_eofblocks\<close>, \<^verbatim>\<open>fat_evict_inode\<close>): what dropping an inode from memory frees, whatever the state of the gate.
  \<^item> \<open>Fat_Dir\<close>, \<open>Fat_Lookup\<close> (\<^verbatim>\<open>fat/dir.c\<close>): the cursor over a directory, searches, adding and removing entries.  The locale \<open>dir_map\<close> is what the cursor relies on; it is interpreted for chains and
    for the fixed root directory.  Searches are exact, and a removal changes the answers of later searches exactly as it should.  For adding entries there are definitions only.
  \<^item> \<open>Fat_Gate\<close> (\<^verbatim>\<open>fat_begin_write\<close>, \<^verbatim>\<open>fat_end_write\<close>, \<^verbatim>\<open>fat_disable_write\<close> and the operations they bracket): any number of threads as a step relation.  After a successful
    \<^verbatim>\<open>fat_disable_write\<close> nothing is inside a gated operation, until a further call of it fails, and nothing is unwritten but for evictions and updates of time stamps, which pass no gate; a run in which
    an eviction changes the volume behind the closed gate exists, and two deadlocks are reachable.

  \<^bold>\<open>Loops.\<close>  Loops over data are recursive functions with termination proofs: they consume the script, the clock or a counter.  Loops that follow numbers read from the disk are partial functions into an
  option type, where \<open>None\<close> means a failed \<^verbatim>\<open>BUG_ON\<close> or a loop that does not end; the theorems on them show that they return.  There is no fuel.

  \<^bold>\<open>Bounds.\<close>  Machine integers keep their width where the code can overflow; sizes and offsets of files and devices are natural numbers.  \<^verbatim>\<open>MAX_BUF_PER_PAGE\<close> is 8, its value for pages of
  4096 bytes.

  \<^bold>\<open>Parameters.\<close>  SHA-256 (OpenSSL), the checksum instructions of the processor, the C library behind the preload library, the service manager's answers, the kernel's \<^verbatim>\<open>time64_to_tm\<close>, the fairness of
  its read-write semaphore, \<^verbatim>\<open>fat_cont_expand\<close> as \<^verbatim>\<open>fat_fallocate\<close> calls it, and what other threads do to an inode while the lock of its cache is dropped.

  \<^bold>\<open>Not modelled.\<close>  Messages and usage texts (pure output); tests.  Of the driver: reading the boot sector, mount options and the inode hash (the theorems assume the
  geometry of a mounted volume, \<open>wf_fat\<close>), long names and the listing of directories, \<^verbatim>\<open>namei_vfat.c\<close> and \<^verbatim>\<open>namei_msdos.c\<close> apart from their use of the gate, which depend on the kernel's
  dentry cache and character set tables; \<^verbatim>\<open>nfs.c\<close>; \<^verbatim>\<open>fat_trim_fs\<close> and read-ahead; the ioctls, \<^verbatim>\<open>setattr\<close> and what goes through the page cache.
\<close>

end
